(* ===== verification/Cv_Prelude.thy ===== *)
theory Cv_Prelude
  imports Main "HOL-Library.Word" "HOL-Library.Multiset" "HOL-Library.Sublist"
    "HOL-Library.Char_ord" "HOL-Library.List_Lexorder" "HOL-Library.AList"
begin

text \<open>
  Shared vocabulary of the Conveyor development: the Go types the program uses
  (strings, bytes, durations, instants), 64-bit wrap-around, the parts of the
  package \<^verbatim>\<open>strings\<close> and \<^verbatim>\<open>strconv\<close> the sources call, and the generic list,
  map and option lemmas the components rely on.

  A Go string is a byte string, so it is a HOL \<^typ>\<open>string\<close> (a list of 8-bit
  characters) and the byte-wise order of Go is the lexicographic order of
  \<^verbatim>\<open>List_Lexorder\<close>.  An instant (\<^verbatim>\<open>time.Time\<close>, always UTC in the sources) is the
  number of nanoseconds since Go's zero time, so that \<^verbatim>\<open>IsZero\<close> is equality with 0.
\<close>

section \<open>Types\<close>

type_synonym byte = "8 word"
type_synonym bytes = "byte list"
type_synonym u64 = "64 word"
type_synonym duration = int
type_synonym gotime = int

section \<open>64-bit and 32-bit signed wrap-around\<close>

definition wrap64 :: "int \<Rightarrow> int" where
  "wrap64 x = (x + 2 ^ 63) mod 2 ^ 64 - 2 ^ 63"

definition wrap32 :: "int \<Rightarrow> int" where
  "wrap32 x = (x + 2 ^ 31) mod 2 ^ 32 - 2 ^ 31"

definition int64_ok :: "int \<Rightarrow> bool" where
  "int64_ok x \<longleftrightarrow> - (2 ^ 63) \<le> x \<and> x < 2 ^ 63"

definition int32_ok :: "int \<Rightarrow> bool" where
  "int32_ok x \<longleftrightarrow> - (2 ^ 31) \<le> x \<and> x < 2 ^ 31"

lemma wrap64_id: "int64_ok x \<Longrightarrow> wrap64 x = x"
  by (simp add: wrap64_def int64_ok_def)

lemma wrap32_id: "int32_ok x \<Longrightarrow> wrap32 x = x"
  by (simp add: wrap32_def int32_ok_def)

lemma wrap64_bounds: "- (2 ^ 63) \<le> wrap64 x" "wrap64 x < 2 ^ 63"
proof -
  have "0 \<le> (x + 2 ^ 63) mod 2 ^ 64" "(x + 2 ^ 63) mod 2 ^ 64 < 2 ^ 64"
    by simp_all
  then show "- (2 ^ 63) \<le> wrap64 x" "wrap64 x < 2 ^ 63"
    by (simp_all add: wrap64_def)
qed

section \<open>Durations\<close>

definition Millisecond :: duration where "Millisecond = 1000000"
definition Second :: duration where "Second = 1000000000"
definition Minute :: duration where "Minute = 60 * Second"
definition Hour :: duration where "Hour = 60 * Minute"

lemmas duration_units = Millisecond_def Second_def Minute_def Hour_def

text \<open>Go's integer division truncates towards zero.\<close>

definition quot :: "int \<Rightarrow> int \<Rightarrow> int" where
  "quot a b = sgn a * sgn b * (\<bar>a\<bar> div \<bar>b\<bar>)"

lemma quot_pos: "0 \<le> a \<Longrightarrow> 0 < b \<Longrightarrow> quot a b = a div b"
  by (cases "a = 0") (simp_all add: quot_def)

section \<open>Package strings: TrimSpace and ToLower\<close>

text \<open>
  \<^verbatim>\<open>strings.TrimSpace\<close> removes the characters of Unicode's White Space property at
  both ends.  On UTF-8 bytes these are six ASCII characters and the multi-byte
  sequences listed here.
\<close>

definition space_seqs :: "string list" where
  "space_seqs =
     map (\<lambda>n. [char_of n]) [9, 10, 11, 12, 13, 32 :: nat] @
     map (map char_of) ([[0xC2, 0x85], [0xC2, 0xA0], [0xE1, 0x9A, 0x80],
       [0xE2, 0x80, 0xA8], [0xE2, 0x80, 0xA9], [0xE2, 0x80, 0xAF],
       [0xE2, 0x81, 0x9F], [0xE3, 0x80, 0x80]] @
       map (\<lambda>k. [0xE2, 0x80, 0x80 + k]) [0 ..< 11 :: nat])"

text \<open>Strip one of the given non-empty sequences off the front, if one is there.\<close>

fun strip_any :: "string list \<Rightarrow> string \<Rightarrow> string option" where
  "strip_any [] s = None"
| "strip_any (p # ps) s =
     (if p \<noteq> [] \<and> prefix p s then Some (drop (length p) s) else strip_any ps s)"

lemma strip_any_shorter: "strip_any ps s = Some r \<Longrightarrow> length r < length s"
  by (induction ps) (auto simp: prefix_def split: if_splits)

function trim_with :: "string list \<Rightarrow> string \<Rightarrow> string" where
  "trim_with ps s = (case strip_any ps s of None \<Rightarrow> s | Some r \<Rightarrow> trim_with ps r)"
  by pat_completeness auto
termination
  by (relation "measure (\<lambda>(ps, s). length s)") (auto dest: strip_any_shorter)

declare trim_with.simps [simp del]

definition TrimSpace :: "string \<Rightarrow> string" where
  "TrimSpace s = rev (trim_with (map rev space_seqs) (rev (trim_with space_seqs s)))"

lemma trim_with_length: "length (trim_with ps s) \<le> length s"
proof (induction ps s rule: trim_with.induct)
  case (1 ps s)
  show ?case
  proof (cases "strip_any ps s")
    case None
    then show ?thesis by (simp add: trim_with.simps [of ps s])
  next
    case (Some r)
    with 1 [OF Some] strip_any_shorter [OF Some] show ?thesis
      by (simp add: trim_with.simps [of ps s])
  qed
qed

lemma TrimSpace_length: "length (TrimSpace s) \<le> length s"
  using trim_with_length [of "map rev space_seqs" "rev (trim_with space_seqs s)"]
    trim_with_length [of space_seqs s] by (simp add: TrimSpace_def)

lemma TrimSpace_Nil [simp]: "TrimSpace [] = []"
  using TrimSpace_length [of "[]"] by simp

text \<open>A string that starts and ends with a printable ASCII character is its own trim.\<close>

definition printable :: "char \<Rightarrow> bool" where
  "printable c \<longleftrightarrow> 33 \<le> (of_char c :: nat) \<and> (of_char c :: nat) < 128"

lemma strip_any_None: "(\<And>p. p \<in> set ps \<Longrightarrow> p = [] \<or> hd p \<noteq> c) \<Longrightarrow> strip_any ps (c # s) = None"
  by (induction ps) (auto simp: prefix_def neq_Nil_conv, fastforce+)

lemma space_seqs_ends:
  "\<forall>p \<in> set space_seqs. \<not> printable (hd p) \<and> \<not> printable (last p) \<and> p \<noteq> []"
  by (simp add: space_seqs_def printable_def upt_conv_Cons)

lemma trim_with_printable:
  "printable c \<Longrightarrow> trim_with space_seqs (c # s) = c # s"
  "printable c \<Longrightarrow> trim_with (map rev space_seqs) (c # s) = c # s"
  using space_seqs_ends
  by (auto simp: trim_with.simps hd_rev intro!: strip_any_None [THEN option.case_cong_weak, THEN trans])

lemma TrimSpace_printable:
  assumes "s \<noteq> []" and "printable (hd s)" and "printable (last s)"
  shows "TrimSpace s = s"
proof -
  from assms(1,2) have "trim_with space_seqs s = s"
    by (cases s) (simp_all add: trim_with_printable)
  moreover from assms(1,3) have "trim_with (map rev space_seqs) (rev s) = rev s"
    by (cases s rule: rev_cases) (simp_all add: trim_with_printable)
  ultimately show ?thesis by (simp add: TrimSpace_def)
qed

text \<open>
  \<^verbatim>\<open>strings.ToLower\<close>, as far as a comparison with an ASCII literal can tell: the only
  characters outside ASCII whose lower case is ASCII are U+0130 (to \<^verbatim>\<open>i\<close>) and U+212A
  (to \<^verbatim>\<open>k\<close>).  Every other byte from 128 on is kept; Go may map it to another
  character, never to an ASCII one.
\<close>

fun to_lower :: "string \<Rightarrow> string" where
  "to_lower [] = []"
| "to_lower (c # cs) =
     (if of_char c = (0xC4 :: nat) \<and> cs \<noteq> [] \<and> of_char (hd cs) = (0xB0 :: nat)
      then CHR ''i'' # to_lower (tl cs)
      else if of_char c = (0xE2 :: nat) \<and> 2 \<le> length cs \<and> of_char (hd cs) = (0x84 :: nat)
        \<and> of_char (cs ! 1) = (0xAA :: nat)
      then CHR ''k'' # to_lower (tl (tl cs))
      else (let n = (of_char c :: nat)
            in if 65 \<le> n \<and> n \<le> 90 then char_of (n + 32) else c) # to_lower cs)"

section \<open>Package strconv and fmt: decimal numbers\<close>

definition digit_char :: "nat \<Rightarrow> char" where
  "digit_char d = char_of (48 + d)"

definition digit_val :: "char \<Rightarrow> nat option" where
  "digit_val c = (let n = (of_char c :: nat) in if 48 \<le> n \<and> n \<le> 57 then Some (n - 48) else None)"

fun dec_digits :: "nat \<Rightarrow> string" where
  "dec_digits n = (if n < 10 then [digit_char n] else dec_digits (n div 10) @ [digit_char (n mod 10)])"

declare dec_digits.simps [simp del]

fun parse_digits :: "nat \<Rightarrow> string \<Rightarrow> nat option" where
  "parse_digits a [] = Some a"
| "parse_digits a (c # cs) =
     (case digit_val c of None \<Rightarrow> None | Some d \<Rightarrow> parse_digits (10 * a + d) cs)"

text \<open>\<^verbatim>\<open>strconv.ParseUint(s, 10, 64)\<close>: digits only, not empty, below \<open>2 ^ 64\<close>.\<close>

definition ParseUint :: "string \<Rightarrow> nat option" where
  "ParseUint s =
     (if s = [] then None
      else case parse_digits 0 s of
        None \<Rightarrow> None
      | Some n \<Rightarrow> if n < 2 ^ 64 then Some n else None)"

text \<open>\<^verbatim>\<open>fmt.Sprintf("%020d", n)\<close>.\<close>

definition pad20 :: "nat \<Rightarrow> string" where
  "pad20 n = replicate (20 - length (dec_digits n)) CHR ''0'' @ dec_digits n"

text \<open>\<^verbatim>\<open>strconv.Itoa\<close>.\<close>

definition Itoa :: "int \<Rightarrow> string" where
  "Itoa i = (if i < 0 then CHR ''-'' # dec_digits (nat (- i)) else dec_digits (nat i))"

lemma of_char_char_of_less: "n < 256 \<Longrightarrow> of_char (char_of n :: char) = (n :: nat)"
  by simp

lemma digit_val_char [simp]: "d < 10 \<Longrightarrow> digit_val (digit_char d) = Some d"
  by (simp add: digit_val_def digit_char_def Let_def)

lemma parse_digits_append:
  "parse_digits a (xs @ ys) =
     (case parse_digits a xs of None \<Rightarrow> None | Some b \<Rightarrow> parse_digits b ys)"
  by (induction xs arbitrary: a) (auto split: option.splits)

lemma parse_digits_zeros: "parse_digits 0 (replicate k CHR ''0'') = Some 0"
  by (induction k) (simp_all add: digit_val_def)

lemma parse_digits_dec: "parse_digits 0 (dec_digits n) = Some n"
proof (induction n rule: dec_digits.induct)
  case (1 n)
  then show ?case
    by (cases "n < 10") (simp_all add: dec_digits.simps [of n] parse_digits_append)
qed

lemma parse_digits_pad20: "parse_digits 0 (pad20 n) = Some n"
  by (simp add: pad20_def parse_digits_append parse_digits_zeros parse_digits_dec)

lemma dec_digits_nonempty [simp]: "dec_digits n \<noteq> []"
  by (subst dec_digits.simps) simp

lemma pad20_nonempty [simp]: "pad20 n \<noteq> []"
  by (simp add: pad20_def)

lemma ParseUint_pad20: "n < 2 ^ 64 \<Longrightarrow> ParseUint (pad20 n) = Some n"
  by (simp only: ParseUint_def parse_digits_pad20 pad20_nonempty if_False option.case if_True)

lemma pad20_inject: "pad20 m = pad20 n \<longleftrightarrow> m = n"
  by (metis option.inject parse_digits_pad20)

section \<open>Lists and maps\<close>

lemma map_of_update_conv: "map_of (AList.update k v xs) = (map_of xs)(k \<mapsto> v)"
  by (rule update_conv')

lemma map_of_delete_conv: "map_of (AList.delete k xs) = (map_of xs)(k := None)"
  by (rule delete_conv')

lemma take_prefix_of: "k \<le> length xs \<Longrightarrow> take k (xs @ ys) = take k xs"
  by simp

end
