(* ===== verification/Cv_Disk.thy ===== *)
theory Cv_Disk
  imports Cv_Prelude
begin

text \<open>
  The operating system as the broker sees it: directories of files, system calls
  that may fail, and what a crash leaves behind.  Only what the sources call is
  modelled (\<^verbatim>\<open>os.OpenFile\<close>, \<^verbatim>\<open>File.Write\<close>, \<^verbatim>\<open>File.Sync\<close>, \<^verbatim>\<open>os.Rename\<close>, \<^verbatim>\<open>os.Remove\<close>, \<dots>).

  \<^item> The outcome of every system call is read off a script, \<open>faults\<close>: an arbitrary
    script is an arbitrary sequence of failures, the empty script a healthy disk.
  \<^item> A file remembers how much of it is on stable storage.  A failed flush marks the
    file \<open>flost\<close>: the kernel may have dropped the dirty pages, so a later successful
    flush proves nothing about them.
  \<^item> A directory entry that was created or renamed is durable only once the directory
    has been flushed.
\<close>

section \<open>Files, directories, outcomes\<close>

datatype errno = ENOTSUP | EINVAL | EIO | ENOENT | EEXIST | EBADF

datatype fault = Okay | Errno errno | Short nat

record fnode =
  fdata :: bytes
  fsynced :: nat
  flost :: bool
  flinked :: bool
  fprev :: "bytes option"

datatype dirent = SubDir | RegFile fnode

type_synonym directory = "(string \<times> dirent) list"

record os =
  dirs :: "string \<Rightarrow> directory"
  faults :: "fault list"
  darwin :: bool

definition io_step :: "os \<Rightarrow> fault \<times> os" where
  "io_step os = (case faults os of [] \<Rightarrow> (Okay, os) | f # fs \<Rightarrow> (f, os\<lparr>faults := fs\<rparr>))"

text \<open>A call that either succeeds or fails as a whole.\<close>

definition io_plain :: "os \<Rightarrow> errno option \<times> os" where
  "io_plain os =
     (case io_step os of
        (Okay, os') \<Rightarrow> (None, os')
      | (Errno e, os') \<Rightarrow> (Some e, os')
      | (Short k, os') \<Rightarrow> (Some EIO, os'))"

definition file_at :: "os \<Rightarrow> string \<Rightarrow> string \<Rightarrow> fnode option" where
  "file_at os d n = (case map_of (dirs os d) n of Some (RegFile f) \<Rightarrow> Some f | _ \<Rightarrow> None)"

definition set_file :: "os \<Rightarrow> string \<Rightarrow> string \<Rightarrow> fnode \<Rightarrow> os" where
  "set_file os d n f = os\<lparr>dirs := (dirs os)(d := AList.update n (RegFile f) (dirs os d))\<rparr>"

definition del_entry :: "os \<Rightarrow> string \<Rightarrow> string \<Rightarrow> os" where
  "del_entry os d n = os\<lparr>dirs := (dirs os)(d := AList.delete n (dirs os d))\<rparr>"

definition new_file :: fnode where
  "new_file = \<lparr>fdata = [], fsynced = 0, flost = False, flinked = False, fprev = None\<rparr>"

section \<open>System calls\<close>

text \<open>\<^verbatim>\<open>os.OpenFile(O_CREATE|O_EXCL)\<close>.\<close>

definition os_create_excl :: "os \<Rightarrow> string \<Rightarrow> string \<Rightarrow> errno option \<times> os" where
  "os_create_excl os d n =
     (case io_plain os of
        (Some e, os') \<Rightarrow> (Some e, os')
      | (None, os') \<Rightarrow>
          if map_of (dirs os' d) n \<noteq> None then (Some EEXIST, os')
          else (None, set_file os' d n new_file))"

text \<open>
  \<^verbatim>\<open>os.OpenFile(O_CREATE|O_TRUNC)\<close>.  Truncating an existing file discards its pages, and
  with them what a failed flush may have lost.
\<close>

definition os_create_trunc :: "os \<Rightarrow> string \<Rightarrow> string \<Rightarrow> errno option \<times> os" where
  "os_create_trunc os d n =
     (case io_plain os of
        (Some e, os') \<Rightarrow> (Some e, os')
      | (None, os') \<Rightarrow>
          (case map_of (dirs os' d) n of
             Some SubDir \<Rightarrow> (Some EINVAL, os')
           | Some (RegFile f) \<Rightarrow> (None, set_file os' d n (f\<lparr>fdata := [], fsynced := 0, flost := False\<rparr>))
           | None \<Rightarrow> (None, set_file os' d n new_file)))"

text \<open>\<^verbatim>\<open>os.OpenFile\<close> of an existing file.\<close>

definition os_open :: "os \<Rightarrow> string \<Rightarrow> string \<Rightarrow> errno option \<times> os" where
  "os_open os d n =
     (case io_plain os of
        (Some e, os') \<Rightarrow> (Some e, os')
      | (None, os') \<Rightarrow> if file_at os' d n = None then (Some ENOENT, os') else (None, os'))"

text \<open>\<^verbatim>\<open>File.Write\<close> at the end of the file; a short write leaves a prefix behind.\<close>

definition os_write :: "os \<Rightarrow> string \<Rightarrow> string \<Rightarrow> bytes \<Rightarrow> errno option \<times> os" where
  "os_write os d n bs =
     (case io_step os of
        (Errno e, os') \<Rightarrow> (Some e, os')
      | (Okay, os') \<Rightarrow>
          (case file_at os' d n of
             None \<Rightarrow> (Some EBADF, os')
           | Some f \<Rightarrow> (None, set_file os' d n (f\<lparr>fdata := fdata f @ bs\<rparr>)))
      | (Short k, os') \<Rightarrow>
          (case file_at os' d n of
             None \<Rightarrow> (Some EBADF, os')
           | Some f \<Rightarrow> (Some EIO, set_file os' d n (f\<lparr>fdata := fdata f @ take k bs\<rparr>))))"

text \<open>What a flush does to a file when the device reports success, and when it fails.\<close>

definition synced_ok :: "fnode \<Rightarrow> fnode" where
  "synced_ok f = (if flost f then f else f\<lparr>fsynced := length (fdata f)\<rparr>)"

definition synced_bad :: "fnode \<Rightarrow> fnode" where
  "synced_bad f = f\<lparr>flost := True\<rparr>"

definition upd_file :: "(fnode \<Rightarrow> fnode) \<Rightarrow> os \<Rightarrow> string \<Rightarrow> string \<Rightarrow> os" where
  "upd_file g os d n = (case file_at os d n of None \<Rightarrow> os | Some f \<Rightarrow> set_file os d n (g f))"

text \<open>\<^verbatim>\<open>File.Sync\<close>.\<close>

definition os_fsync :: "os \<Rightarrow> string \<Rightarrow> string \<Rightarrow> errno option \<times> os" where
  "os_fsync os d n =
     (case io_plain os of
        (None, os') \<Rightarrow> (None, upd_file synced_ok os' d n)
      | (Some e, os') \<Rightarrow> (Some e, upd_file synced_bad os' d n))"

text \<open>
  \<^verbatim>\<open>fullSync\<close>, of \<^verbatim>\<open>sync_darwin.go\<close> or of \<^verbatim>\<open>sync_other.go\<close> as the build tag chooses.  On
  Darwin a file system without \<^verbatim>\<open>F_FULLFSYNC\<close> falls back to a plain \<^verbatim>\<open>fsync\<close>.
\<close>

definition fullSync_darwin :: "os \<Rightarrow> string \<Rightarrow> string \<Rightarrow> errno option \<times> os" where
  "fullSync_darwin os d n =
     (case io_plain os of
        (None, os') \<Rightarrow> (None, upd_file synced_ok os' d n)
      | (Some e, os') \<Rightarrow>
          if e = ENOTSUP \<or> e = EINVAL then os_fsync os' d n
          else (Some e, upd_file synced_bad os' d n))"

definition fullSync_other :: "os \<Rightarrow> string \<Rightarrow> string \<Rightarrow> errno option \<times> os" where
  "fullSync_other os d n = os_fsync os d n"

definition fullSync :: "os \<Rightarrow> string \<Rightarrow> string \<Rightarrow> errno option \<times> os" where
  "fullSync os d n = (if darwin os then fullSync_darwin os d n else fullSync_other os d n)"

text \<open>\<^verbatim>\<open>File.Truncate\<close>.\<close>

definition os_truncate :: "os \<Rightarrow> string \<Rightarrow> string \<Rightarrow> nat \<Rightarrow> errno option \<times> os" where
  "os_truncate os d n k =
     (case io_plain os of
        (Some e, os') \<Rightarrow> (Some e, os')
      | (None, os') \<Rightarrow>
          (None, upd_file (\<lambda>f. f\<lparr>fdata := take k (fdata f), fsynced := min k (fsynced f)\<rparr>) os' d n))"

text \<open>
  Reading a whole file through a buffered reader: the bytes that can be read, and
  whether the reader ends in an I/O error rather than in an end of file.
\<close>

definition os_read :: "os \<Rightarrow> string \<Rightarrow> string \<Rightarrow> bytes \<times> bool \<times> os" where
  "os_read os d n =
     (let bs = (case file_at os d n of None \<Rightarrow> [] | Some f \<Rightarrow> fdata f)
      in case io_step os of
           (Okay, os') \<Rightarrow> (bs, False, os')
         | (Errno e, os') \<Rightarrow> ([], True, os')
         | (Short k, os') \<Rightarrow> (take k bs, True, os'))"

text \<open>
  \<^verbatim>\<open>os.Remove\<close>; the callers ignore a file that is already gone, which is reported of an
  absent entry only.
\<close>

definition os_remove :: "os \<Rightarrow> string \<Rightarrow> string \<Rightarrow> errno option \<times> os" where
  "os_remove os d n =
     (case io_plain os of
        (Some e, os') \<Rightarrow> (Some (if e = ENOENT then EIO else e), os')
      | (None, os') \<Rightarrow>
          if map_of (dirs os' d) n = None then (Some ENOENT, os') else (None, del_entry os' d n))"

text \<open>\<^verbatim>\<open>os.Rename\<close> within a directory: atomic, durable once the directory is flushed.\<close>

definition os_rename :: "os \<Rightarrow> string \<Rightarrow> string \<Rightarrow> string \<Rightarrow> errno option \<times> os" where
  "os_rename os d a b =
     (case io_plain os of
        (Some e, os') \<Rightarrow> (Some e, os')
      | (None, os') \<Rightarrow>
          (case file_at os' d a of
             None \<Rightarrow> (Some ENOENT, os')
           | Some f \<Rightarrow>
               (let old = (case file_at os' d b of None \<Rightarrow> None | Some g \<Rightarrow>
                             if flinked g then Some (fdata g) else fprev g)
                in (None, set_file (del_entry os' d a) d b (f\<lparr>flinked := False, fprev := old\<rparr>)))))"

text \<open>\<^verbatim>\<open>syncDir\<close> of \<^verbatim>\<open>wal.go\<close> and of \<^verbatim>\<open>store.go\<close>: open the directory, flush it.\<close>

fun link_entry :: "dirent \<Rightarrow> dirent" where
  "link_entry SubDir = SubDir"
| "link_entry (RegFile f) = RegFile (f\<lparr>flinked := True\<rparr>)"

definition link_dir :: "os \<Rightarrow> string \<Rightarrow> os" where
  "link_dir os d = os\<lparr>dirs := (dirs os)(d := map (\<lambda>(n, e). (n, link_entry e)) (dirs os d))\<rparr>"

definition syncDir :: "os \<Rightarrow> string \<Rightarrow> errno option \<times> os" where
  "syncDir os d =
     (case io_plain os of
        (Some e, os') \<Rightarrow> (Some e, os')
      | (None, os') \<Rightarrow>
          (case io_plain os' of
             (Some e, os'') \<Rightarrow> (Some e, os'')
           | (None, os'') \<Rightarrow> (None, link_dir os'' d)))"

text \<open>\<^verbatim>\<open>os.ReadDir\<close>: the entries, sorted by name.\<close>

definition os_readdir :: "os \<Rightarrow> string \<Rightarrow> (errno + directory) \<times> os" where
  "os_readdir os d =
     (case io_plain os of
        (Some e, os') \<Rightarrow> (Inl e, os')
      | (None, os') \<Rightarrow> (Inr (sort_key fst (dirs os' d)), os'))"

section \<open>Crashes\<close>

text \<open>
  What a file may hold after a crash: everything on stable storage and any further
  prefix of what was written.  A power loss leaves exactly what was stable
  (\<open>j = k\<close>); a process killed with the machine running on (\<^verbatim>\<open>kill -9\<close>) leaves all
  that was written, stable or not (\<open>k = length (fdata f)\<close>, \<open>j = fsynced f\<close>).
\<close>

definition crash_file :: "fnode \<Rightarrow> fnode \<Rightarrow> bool" where
  "crash_file f f' \<longleftrightarrow>
     (\<exists>k j. fsynced f \<le> j \<and> j \<le> k \<and> k \<le> length (fdata f) \<and>
        fdata f' = take k (fdata f) \<and> fsynced f' = j \<and>
        (flost f' \<longrightarrow> flost f) \<and> (flinked f \<longrightarrow> flinked f') \<and>
        (\<not> flinked f' \<longrightarrow> fprev f' = fprev f))"

definition old_file :: "bytes \<Rightarrow> fnode" where
  "old_file bs = \<lparr>fdata = bs, fsynced = length bs, flost = False, flinked = True, fprev = None\<rparr>"

definition crash_entry :: "dirent \<Rightarrow> dirent option \<Rightarrow> bool" where
  "crash_entry e e' \<longleftrightarrow>
     (case e of
        SubDir \<Rightarrow> e' = Some SubDir
      | RegFile f \<Rightarrow>
          (\<exists>f'. e' = Some (RegFile f') \<and> crash_file f f') \<or>
          (\<not> flinked f \<and> e' = map_option (RegFile \<circ> old_file) (fprev f)))"

definition crash :: "os \<Rightarrow> os \<Rightarrow> bool" where
  "crash os os' \<longleftrightarrow>
     (\<forall>d. distinct (map fst (dirs os' d)) \<and>
        (\<forall>n. case map_of (dirs os d) n of
               None \<Rightarrow> map_of (dirs os' d) n = None
             | Some e \<Rightarrow> crash_entry e (map_of (dirs os' d) n)))"

section \<open>Facts about the calls\<close>

lemma map_of_map_snd: "map_of (map (\<lambda>(n, e). (n, g e)) xs) n = map_option g (map_of xs n)"
  by (induction xs) auto

lemma dirs_set_file [simp]:
  "map_of (dirs (set_file os d n f) d') n' =
     (if d' = d \<and> n' = n then Some (RegFile f) else map_of (dirs os d') n')"
  by (simp add: set_file_def update_conv')

lemma dirs_del_entry [simp]:
  "map_of (dirs (del_entry os d n) d') n' =
     (if d' = d \<and> n' = n then None else map_of (dirs os d') n')"
  by (simp add: del_entry_def delete_conv')

lemma dirs_link_dir [simp]:
  "map_of (dirs (link_dir os d) d') n' =
     (if d' = d then map_option link_entry (map_of (dirs os d') n') else map_of (dirs os d') n')"
  by (simp add: link_dir_def map_of_map_snd)

lemma file_at_set_file [simp]:
  "file_at (set_file os d n f) d' n' = (if d' = d \<and> n' = n then Some f else file_at os d' n')"
  by (simp add: file_at_def)

lemma file_at_del_entry [simp]:
  "file_at (del_entry os d n) d' n' = (if d' = d \<and> n' = n then None else file_at os d' n')"
  by (simp add: file_at_def)

lemma file_at_link_dir [simp]:
  "file_at (link_dir os d) d' n' =
     (if d' = d then map_option (\<lambda>f. f\<lparr>flinked := True\<rparr>) (file_at os d' n') else file_at os d' n')"
  by (auto simp: file_at_def split: option.splits dirent.splits)

lemma faults_simps [simp]:
  "faults (set_file os d n f) = faults os" "faults (del_entry os d n) = faults os"
  "faults (link_dir os d) = faults os" "faults (upd_file g os d n) = faults os"
  by (simp_all add: set_file_def del_entry_def link_dir_def upd_file_def split: option.splits)

lemma darwin_simps [simp]:
  "darwin (set_file os d n f) = darwin os" "darwin (del_entry os d n) = darwin os"
  "darwin (link_dir os d) = darwin os" "darwin (upd_file g os d n) = darwin os"
  by (simp_all add: set_file_def del_entry_def link_dir_def upd_file_def split: option.splits)

lemma io_step_dirs: "io_step os = (f, os') \<Longrightarrow> dirs os' = dirs os"
  by (auto simp: io_step_def split: list.splits)

lemma io_plain_dirs: "io_plain os = (e, os') \<Longrightarrow> dirs os' = dirs os"
  by (auto simp: io_plain_def split: prod.splits fault.splits dest: io_step_dirs)

lemma file_at_dirs_cong: "dirs os' = dirs os \<Longrightarrow> file_at os' = file_at os"
  by (simp add: file_at_def fun_eq_iff)

lemma upd_file_file_at [simp]:
  "file_at (upd_file g os d n) d' n' =
     (if d' = d \<and> n' = n then map_option g (file_at os d' n') else file_at os d' n')"
  by (auto simp: upd_file_def split: option.splits)

text \<open>A healthy disk: the script has run out, so every call succeeds.\<close>

lemma io_step_healthy [simp]: "faults os = [] \<Longrightarrow> io_step os = (Okay, os)"
  by (simp add: io_step_def)

lemma io_plain_healthy [simp]: "faults os = [] \<Longrightarrow> io_plain os = (None, os)"
  by (simp add: io_plain_def)

lemma syncDir_healthy: "faults os = [] \<Longrightarrow> syncDir os d = (None, link_dir os d)"
  by (simp add: syncDir_def)

lemma fullSync_healthy: "faults os = [] \<Longrightarrow> fullSync os d n = (None, upd_file synced_ok os d n)"
  by (simp add: fullSync_def fullSync_darwin_def fullSync_other_def os_fsync_def)

text \<open>Whatever the outcome, a flush changes at most the flush marks of its file.\<close>

lemma os_fsync_cases:
  assumes "os_fsync os d n = (r, os')"
  obtains os1 where "dirs os1 = dirs os"
    "r = None \<Longrightarrow> os' = upd_file synced_ok os1 d n"
    "r \<noteq> None \<Longrightarrow> os' = upd_file synced_bad os1 d n"
proof -
  obtain e os1 where step: "io_plain os = (e, os1)" by fastforce
  from assms step have "r = e" "r = None \<Longrightarrow> os' = upd_file synced_ok os1 d n"
    "r \<noteq> None \<Longrightarrow> os' = upd_file synced_bad os1 d n"
    by (simp_all add: os_fsync_def split: option.splits)
  with io_plain_dirs [OF step] show thesis by (intro that [of os1]) simp_all
qed

lemma fullSync_cases:
  assumes "fullSync os d n = (r, os')"
  obtains os1 where "dirs os1 = dirs os"
    "r = None \<Longrightarrow> os' = upd_file synced_ok os1 d n"
    "r \<noteq> None \<Longrightarrow> os' = upd_file synced_bad os1 d n"
proof (cases "darwin os")
  case False
  with assms show thesis
    by (auto simp: fullSync_def fullSync_other_def intro: that elim: os_fsync_cases)
next
  case True
  obtain e os1 where step: "io_plain os = (e, os1)" by fastforce
  then have d1: "dirs os1 = dirs os" by (rule io_plain_dirs)
  show thesis
  proof (cases "\<exists>x. e = Some x \<and> (x = ENOTSUP \<or> x = EINVAL)")
    case True
    with \<open>darwin os\<close> assms step have "os_fsync os1 d n = (r, os')"
      by (auto simp: fullSync_def fullSync_darwin_def)
    then show thesis by (rule os_fsync_cases) (use d1 that in metis)
  next
    case False
    with \<open>darwin os\<close> assms step have "r = e" "r = None \<Longrightarrow> os' = upd_file synced_ok os1 d n"
      "r \<noteq> None \<Longrightarrow> os' = upd_file synced_bad os1 d n"
      by (simp_all add: fullSync_def fullSync_darwin_def split: option.splits if_splits)
    with d1 show thesis by (intro that [of os1]) simp_all
  qed
qed

lemma crash_linked_file:
  assumes "crash os os'" and "file_at os d n = Some f" and "flinked f"
  obtains f' where "file_at os' d n = Some f'" "crash_file f f'"
proof -
  from assms(2) have e: "map_of (dirs os d) n = Some (RegFile f)"
    by (auto simp: file_at_def split: option.splits dirent.splits)
  from assms(1) have "case map_of (dirs os d) n of
      None \<Rightarrow> map_of (dirs os' d) n = None | Some e \<Rightarrow> crash_entry e (map_of (dirs os' d) n)"
    unfolding crash_def by blast
  with e assms(3) obtain f' where "map_of (dirs os' d) n = Some (RegFile f')" "crash_file f f'"
    by (auto simp: crash_entry_def)
  then show thesis by (intro that) (simp_all add: file_at_def)
qed

lemma crash_absent:
  assumes "crash os os'" and "map_of (dirs os d) n = None"
  shows "map_of (dirs os' d) n = None"
proof -
  from assms(1) have "case map_of (dirs os d) n of
      None \<Rightarrow> map_of (dirs os' d) n = None | Some e \<Rightarrow> crash_entry e (map_of (dirs os' d) n)"
    unfolding crash_def by blast
  with assms(2) show ?thesis by simp
qed

end
