(* ===== verification/Cv_Frame.thy ===== *)
theory Cv_Frame
  imports Cv_Prelude
begin

text \<open>
  The record format of \<^verbatim>\<open>internal/wal/wal.go\<close>: a four-byte length, a four-byte CRC-32C
  of length and payload, the payload; and \<^verbatim>\<open>scanRecords\<close>, the one reader of that
  format.  The central facts are that scanning what was framed gives back the
  payloads, and that whatever follows the last complete record (nothing, or the torn
  prefix of a record) costs none of the records before it.
\<close>

unbundle bit_operations_syntax

definition headerSize :: nat where "headerSize = 8"
definition MaxRecordSize :: nat where "MaxRecordSize = 64 * 2 ^ 20"

section \<open>Little-endian numbers\<close>

primrec le_bytes :: "nat \<Rightarrow> nat \<Rightarrow> bytes" where
  "le_bytes 0 n = []"
| "le_bytes (Suc k) n = word_of_nat n # le_bytes k (n div 256)"

primrec le_val :: "bytes \<Rightarrow> nat" where
  "le_val [] = 0"
| "le_val (b # bs) = unat b + 256 * le_val bs"

lemma le_bytes_length [simp]: "length (le_bytes k n) = k"
  by (induction k arbitrary: n) simp_all

lemma le_val_le_bytes: "n < 256 ^ k \<Longrightarrow> le_val (le_bytes k n) = n"
proof (induction k arbitrary: n)
  case (Suc k)
  then have "n div 256 < 256 ^ k" by (simp add: less_mult_imp_div_less mult.commute)
  with Suc.IH [of "n div 256"] show ?case by (simp add: unat_of_nat)
qed simp

section \<open>CRC-32C\<close>

text \<open>\<^verbatim>\<open>hash/crc32\<close> with the Castagnoli polynomial, reflected, bit by bit.\<close>

definition castagnoli :: "32 word" where "castagnoli = 0x82F63B78"

definition crc_bit :: "32 word \<Rightarrow> 32 word" where
  "crc_bit c = (if bit c 0 then drop_bit 1 c XOR castagnoli else drop_bit 1 c)"

definition crc_byte :: "32 word \<Rightarrow> byte \<Rightarrow> 32 word" where
  "crc_byte c b = (crc_bit ^^ 8) (c XOR ucast b)"

definition crc_update :: "32 word \<Rightarrow> bytes \<Rightarrow> 32 word" where
  "crc_update c bs = NOT (foldl crc_byte (NOT c) bs)"

text \<open>The checksum of a record: over the length field, then over the payload.\<close>

definition record_crc :: "bytes \<Rightarrow> bytes \<Rightarrow> nat" where
  "record_crc len payload = unat (crc_update (crc_update 0 len) payload)"

lemma crc_update_append: "crc_update (crc_update c xs) ys = crc_update c (xs @ ys)"
  by (simp add: crc_update_def)

lemma record_crc_bound: "record_crc l p < 256 ^ 4"
  using unsigned_less [of "crc_update (crc_update 0 l) p"] by (simp add: record_crc_def)

section \<open>Framing\<close>

definition frame :: "bytes \<Rightarrow> bytes" where
  "frame payload =
     (let len = le_bytes 4 (length payload)
      in len @ le_bytes 4 (record_crc len payload) @ payload)"

definition frames :: "bytes list \<Rightarrow> bytes" where
  "frames ps = concat (map frame ps)"

definition payload_ok :: "bytes \<Rightarrow> bool" where
  "payload_ok p \<longleftrightarrow> p \<noteq> [] \<and> length p \<le> MaxRecordSize"

lemma frame_length [simp]: "length (frame p) = headerSize + length p"
  by (simp add: frame_def headerSize_def Let_def)

lemma frames_simps [simp]:
  "frames [] = []" "frames (p # ps) = frame p @ frames ps" "frames (ps @ qs) = frames ps @ frames qs"
  by (simp_all add: frames_def)

section \<open>Scanning\<close>

text \<open>
  \<^verbatim>\<open>scanRecords\<close> over the bytes that can be read; \<open>rdfail\<close> says whether the reader ends in
  an I/O error rather than an end of file.  The callback threads a state and may
  fail.  The result is the offset past the last valid record, the number of records,
  the error if any, and the callback's state.
\<close>

datatype 'e scan_err = ReadErr | FnErr 'e

function scanRecords ::
  "bytes \<Rightarrow> bool \<Rightarrow> (bytes \<Rightarrow> 's \<Rightarrow> 'e + 's) \<Rightarrow> 's \<Rightarrow> nat \<Rightarrow> nat \<Rightarrow> nat \<times> nat \<times> 'e scan_err option \<times> 's"
where
  "scanRecords r rdfail fn s validEnd cnt =
     (if length r < headerSize
      then (validEnd, cnt, if rdfail then Some ReadErr else None, s)
      else let len = le_val (take 4 r); want = le_val (take 4 (drop 4 r))
           in if len = 0 \<or> len > MaxRecordSize then (validEnd, cnt, None, s)
              else if length (drop headerSize r) < len
              then (validEnd, cnt, if rdfail then Some ReadErr else None, s)
              else let payload = take len (drop headerSize r)
                   in if record_crc (take 4 r) payload \<noteq> want then (validEnd, cnt, None, s)
                      else case fn payload s of
                          Inl e \<Rightarrow> (validEnd, cnt, Some (FnErr e), s)
                        | Inr s' \<Rightarrow> scanRecords (drop (headerSize + len) r) rdfail fn s'
                            (validEnd + headerSize + len) (cnt + 1))"
  by pat_completeness auto
termination
  by (relation "measure (\<lambda>(r, _). length r)") (auto simp: headerSize_def)

declare scanRecords.simps [simp del]

text \<open>The callback folded over a list of payloads.\<close>

fun fn_fold :: "(bytes \<Rightarrow> 's \<Rightarrow> 'e + 's) \<Rightarrow> bytes list \<Rightarrow> 's \<Rightarrow> 'e + 's" where
  "fn_fold fn [] s = Inr s"
| "fn_fold fn (p # ps) s = (case fn p s of Inl e \<Rightarrow> Inl e | Inr s' \<Rightarrow> fn_fold fn ps s')"

lemma fn_fold_append:
  "fn_fold fn (ps @ qs) s = (case fn_fold fn ps s of Inl e \<Rightarrow> Inl e | Inr s' \<Rightarrow> fn_fold fn qs s')"
  by (induction ps arbitrary: s) (auto split: sum.splits)

lemma MaxRecordSize_less: "n \<le> MaxRecordSize \<Longrightarrow> n < 256 ^ 4"
  by (simp add: MaxRecordSize_def)

lemma scan_frame:
  assumes "payload_ok p"
  shows "scanRecords (frame p @ r) rdfail fn s v c =
    (case fn p s of
       Inl e \<Rightarrow> (v, c, Some (FnErr e), s)
     | Inr s' \<Rightarrow> scanRecords r rdfail fn s' (v + headerSize + length p) (c + 1))"
proof -
  let ?len = "le_bytes 4 (length p)"
  have len: "le_val ?len = length p" "0 < length p" "\<not> length p > MaxRecordSize"
    using assms MaxRecordSize_less by (auto simp: payload_ok_def le_val_le_bytes)
  have crc: "le_val (le_bytes 4 (record_crc ?len p)) = record_crc ?len p"
    by (rule le_val_le_bytes) (rule record_crc_bound)
  define x where "x = frame p @ r"
  have parts: "take 4 x = ?len" "take 4 (drop 4 x) = le_bytes 4 (record_crc ?len p)"
    "drop headerSize x = p @ r" "drop (headerSize + length p) x = r" "\<not> length x < headerSize"
    by (simp_all add: x_def frame_def Let_def headerSize_def)
  have "scanRecords x rdfail fn s v c =
    (case fn p s of
       Inl e \<Rightarrow> (v, c, Some (FnErr e), s)
     | Inr s' \<Rightarrow> scanRecords r rdfail fn s' (v + headerSize + length p) (c + 1))"
    using len(2,3) by (subst scanRecords.simps) (simp add: parts len(1) crc Let_def split: sum.split)
  then show ?thesis by (simp only: x_def)
qed

abbreviation read_end :: "bool \<Rightarrow> 'e scan_err option" where
  "read_end rdfail \<equiv> (if rdfail then Some ReadErr else None)"

lemma scan_frames:
  assumes "list_all payload_ok ps" and "fn_fold fn ps s = Inr s'"
  shows "scanRecords (frames ps @ r) rdfail fn s v c =
    scanRecords r rdfail fn s' (v + length (frames ps)) (c + length ps)"
  using assms
proof (induction ps arbitrary: s v c)
  case (Cons p ps)
  then show ?case
    by (auto simp: scan_frame add.assoc split: sum.splits)
qed simp

lemma scan_frames_err:
  assumes "list_all payload_ok ps" and "fn_fold fn ps s = Inl e"
  shows "\<exists>v' c' s'. scanRecords (frames ps @ r) rdfail fn s v c = (v', c', Some (FnErr e), s')"
  using assms
proof (induction ps arbitrary: s v c)
  case (Cons p ps)
  then show ?case
    by (auto simp: scan_frame split: sum.splits)
qed simp

lemma scan_stop:
  assumes "length r < headerSize"
  shows "scanRecords r rdfail fn s v c = (v, c, read_end rdfail, s)"
  using assms by (subst scanRecords.simps) simp

lemma scan_Nil [simp]: "scanRecords [] rdfail fn s v c = (v, c, read_end rdfail, s)"
  by (rule scan_stop) (simp add: headerSize_def)

text \<open>A proper prefix of a record is not a record, wherever the cut falls.\<close>

lemma scan_torn:
  assumes "payload_ok p" and "k < length (frame p)"
  shows "scanRecords (take k (frame p)) rdfail fn s v c = (v, c, read_end rdfail, s)"
proof (cases "k < headerSize")
  case True
  then show ?thesis by (simp add: scan_stop)
next
  case False
  define r where "r = take k (frame p)"
  let ?len = "le_bytes 4 (length p)"
  have "take 4 r = ?len"
    using False by (simp add: r_def frame_def Let_def headerSize_def)
  moreover have "le_val ?len = length p"
    using assms MaxRecordSize_less by (auto simp: payload_ok_def le_val_le_bytes)
  moreover have "length (drop headerSize r) < length p"
    using assms(2) False by (simp add: r_def)
  moreover have "\<not> length r < headerSize" using False assms(2) by (simp add: r_def)
  moreover have "length p \<noteq> 0" "\<not> length p > MaxRecordSize"
    using assms(1) by (auto simp: payload_ok_def)
  ultimately have "scanRecords r rdfail fn s v c = (v, c, read_end rdfail, s)"
    by (subst scanRecords.simps) (simp add: Let_def)
  then show ?thesis by (simp only: r_def)
qed

text \<open>
  Cutting a well-formed log at any byte loses exactly the records the cut reaches:
  \<open>whole k ps\<close> are those that lie wholly within the first \<open>k\<close> bytes.
\<close>

fun whole :: "nat \<Rightarrow> bytes list \<Rightarrow> bytes list" where
  "whole k [] = []"
| "whole k (p # ps) = (if length (frame p) \<le> k then p # whole (k - length (frame p)) ps else [])"

lemma whole_prefix: "prefix (whole k ps) ps"
  by (induction k ps rule: whole.induct) auto

lemma list_all_whole: "list_all P ps \<Longrightarrow> list_all P (whole k ps)"
  by (induction k ps rule: whole.induct) auto

lemma frames_whole_length: "length (frames (whole k ps)) \<le> k"
  by (induction k ps rule: whole.induct) auto

lemma whole_all: "length (frames ps) \<le> k \<Longrightarrow> whole k ps = ps"
  by (induction k ps rule: whole.induct) auto

lemma whole_whole: "j \<le> k \<Longrightarrow> whole j (whole k ps) = whole j ps"
  by (induction k ps arbitrary: j rule: whole.induct) auto

lemma whole_frames_whole: "whole (length (frames (whole k ps))) ps = whole k ps"
  by (induction k ps rule: whole.induct) auto

lemma whole_mono: "j \<le> k \<Longrightarrow> prefix (whole j ps) (whole k ps)"
  by (metis whole_prefix whole_whole)

lemma whole_take: "whole k ps = take (length (whole k ps)) ps"
  using whole_prefix [of k ps] by (metis append_eq_conv_conj prefix_def)

lemma take_frames_whole: "take (length (frames (whole k ps))) (frames ps) = frames (whole k ps)"
  by (induction k ps rule: whole.induct) auto

lemma scan_torn_log:
  assumes "list_all payload_ok ps" and "fn_fold fn (whole k ps) s = Inr s'"
  shows "scanRecords (take k (frames ps)) rdfail fn s v c =
    (v + length (frames (whole k ps)), c + length (whole k ps), read_end rdfail, s')"
  using assms
proof (induction k ps arbitrary: s v c rule: whole.induct)
  case (2 k p ps)
  show ?case
  proof (cases "length (frame p) \<le> k")
    case True
    with 2 show ?thesis
      by (auto simp: scan_frame add.assoc split: sum.splits)
  next
    case False
    with 2 show ?thesis by (simp add: scan_torn)
  qed
qed simp

lemma scan_torn_log_err:
  assumes "list_all payload_ok ps" and "fn_fold fn (whole k ps) s = Inl e"
  shows "\<exists>v' c' s'. scanRecords (take k (frames ps)) rdfail fn s v c = (v', c', Some (FnErr e), s')"
  using assms
proof (induction k ps arbitrary: s v c rule: whole.induct)
  case (2 k p ps)
  show ?case
  proof (cases "length (frame p) \<le> k")
    case True
    with 2 show ?thesis
      by (auto simp: scan_frame split: sum.splits)
  next
    case False
    with 2 show ?thesis by simp
  qed
qed simp

end
