(* ===== verification/Cv_Wal.thy ===== *)
theory Cv_Wal
  imports Cv_Disk Cv_Frame
begin

text \<open>
  The write-ahead log of \<^verbatim>\<open>internal/wal/wal.go\<close>: segments, appends into a buffer, flushes,
  rotation, recovery of a torn tail, replay and truncation.  The operations take and
  return the log and the operating system of \<open>Cv_Disk\<close>; each holds its mutex
  throughout, except \<^verbatim>\<open>Sync\<close>, whose two critical sections are \<open>Sync_write\<close> and
  \<open>Sync_flush\<close>.  Sequence numbers are natural numbers: a log would have to take
  \<open>2 ^ 64\<close> records before Go's \<^verbatim>\<open>uint64\<close> differed.
\<close>

section \<open>Data\<close>

datatype wal_error =
  ErrDirRequired | ErrClosed | ErrEmptyPayload | ErrRecordTooLarge | WalIO string errno

record wal =
  wdir :: string
  maxSegmentSize :: int
  active :: string
  active_open :: bool
  closed :: bool
  buf :: bytes
  bases :: "nat list"
  activeBase :: nat
  activeSize :: int
  nextLSN :: nat

record wal_options =
  optDir :: string
  optMaxSegmentSize :: int

definition DefaultMaxSegmentSize :: int where "DefaultMaxSegmentSize = 16 * 2 ^ 20"

definition segmentSuffix :: string where "segmentSuffix = ''.wal''"

definition segmentName :: "nat \<Rightarrow> string" where
  "segmentName base = pad20 base @ segmentSuffix"

text \<open>
  \<^verbatim>\<open>listSegments\<close>: the entries with the suffix whose stem is an unsigned number, sorted.
\<close>

definition segment_base :: "string \<times> dirent \<Rightarrow> nat option" where
  "segment_base e =
     (case e of
        (name, SubDir) \<Rightarrow> None
      | (name, RegFile f) \<Rightarrow>
          if suffix segmentSuffix name
          then ParseUint (take (length name - length segmentSuffix) name) else None)"

definition listSegments :: "os \<Rightarrow> string \<Rightarrow> (wal_error + nat list) \<times> os" where
  "listSegments os dir =
     (case os_readdir os dir of
        (Inl e, os') \<Rightarrow> (Inl (WalIO ''wal: read dir'' e), os')
      | (Inr entries, os') \<Rightarrow> (Inr (sort (List.map_filter segment_base entries)), os'))"

section \<open>Segments\<close>

definition createSegmentLocked :: "wal \<Rightarrow> os \<Rightarrow> nat \<Rightarrow> wal_error option \<times> wal \<times> os" where
  "createSegmentLocked w os base =
     (case os_create_excl os (wdir w) (segmentName base) of
        (Some e, os') \<Rightarrow> (Some (WalIO ''wal: create segment'' e), w, os')
      | (None, os') \<Rightarrow>
          (case syncDir os' (wdir w) of
             (Some e, os'') \<Rightarrow> (Some (WalIO ''wal: sync dir'' e), w, os'')
           | (None, os'') \<Rightarrow>
               (None, w\<lparr>active := segmentName base, active_open := True, activeBase := base,
                        activeSize := 0, bases := bases w @ [base]\<rparr>, os'')))"

definition createSegment :: "wal \<Rightarrow> os \<Rightarrow> nat \<Rightarrow> wal_error option \<times> wal \<times> os" where
  "createSegment w os base = createSegmentLocked w os base"

text \<open>A write through a handle that has been closed fails without reaching the disk.\<close>

definition flushBufferLocked :: "wal \<Rightarrow> os \<Rightarrow> wal_error option \<times> wal \<times> os" where
  "flushBufferLocked w os =
     (if buf w = [] then (None, w, os)
      else if \<not> active_open w then (Some (WalIO ''wal: write'' EBADF), w, os)
      else case os_write os (wdir w) (active w) (buf w) of
          (Some e, os') \<Rightarrow> (Some (WalIO ''wal: write'' e), w, os')
        | (None, os') \<Rightarrow> (None, w\<lparr>buf := []\<rparr>, os'))"

definition sync_active :: "wal \<Rightarrow> os \<Rightarrow> errno option \<times> os" where
  "sync_active w os = (if active_open w then fullSync os (wdir w) (active w) else (Some EBADF, os))"

text \<open>\<^verbatim>\<open>File.Close\<close> gives the handle up whether or not it reports an error.\<close>

definition close_active :: "wal \<Rightarrow> os \<Rightarrow> errno option \<times> wal \<times> os" where
  "close_active w os =
     (if active_open w then (case io_plain os of (r, os') \<Rightarrow> (r, w\<lparr>active_open := False\<rparr>, os'))
      else (Some EBADF, w, os))"

definition rotateLocked :: "wal \<Rightarrow> os \<Rightarrow> wal_error option \<times> wal \<times> os" where
  "rotateLocked w os =
     (case flushBufferLocked w os of
        (Some e, w1, os1) \<Rightarrow> (Some e, w1, os1)
      | (None, w1, os1) \<Rightarrow>
          (case sync_active w1 os1 of
             (Some e, os2) \<Rightarrow> (Some (WalIO ''wal: sync before rotate'' e), w1, os2)
           | (None, os2) \<Rightarrow>
               (case close_active w1 os2 of
                  (Some e, w2, os3) \<Rightarrow> (Some (WalIO ''wal: close before rotate'' e), w2, os3)
                | (None, w2, os3) \<Rightarrow> createSegmentLocked w2 os3 (nextLSN w2))))"

section \<open>Appending and flushing\<close>

definition appendLocked :: "wal \<Rightarrow> os \<Rightarrow> bytes \<Rightarrow> (wal_error + nat) \<times> wal \<times> os" where
  "appendLocked w os payload =
     (if closed w then (Inl ErrClosed, w, os)
      else if length payload = 0 then (Inl ErrEmptyPayload, w, os)
      else if length payload > MaxRecordSize then (Inl ErrRecordTooLarge, w, os)
      else
        let size = int (headerSize + length payload);
            (r, w1, os1) =
              (if activeSize w > 0 \<and> activeSize w + size > maxSegmentSize w
               then rotateLocked w os else (None, w, os))
        in case r of
             Some e \<Rightarrow> (Inl e, w1, os1)
           | None \<Rightarrow>
               (Inr (nextLSN w1),
                w1\<lparr>buf := buf w1 @ frame payload, activeSize := activeSize w1 + size,
                   nextLSN := nextLSN w1 + 1\<rparr>, os1))"

definition wal_Append :: "wal \<Rightarrow> os \<Rightarrow> bytes \<Rightarrow> (wal_error + nat) \<times> wal \<times> os" where
  "wal_Append w os payload = appendLocked w os payload"

definition Sync_write :: "wal \<Rightarrow> os \<Rightarrow> wal_error option \<times> wal \<times> os" where
  "Sync_write w os = (if closed w then (Some ErrClosed, w, os) else flushBufferLocked w os)"

definition Sync_flush :: "wal \<Rightarrow> os \<Rightarrow> wal_error option \<times> wal \<times> os" where
  "Sync_flush w os =
     (if closed w then (Some ErrClosed, w, os)
      else case sync_active w os of
          (Some e, os') \<Rightarrow> (Some (WalIO ''sync'' e), w, os')
        | (None, os') \<Rightarrow> (None, w, os'))"

definition wal_Sync :: "wal \<Rightarrow> os \<Rightarrow> wal_error option \<times> wal \<times> os" where
  "wal_Sync w os =
     (case Sync_write w os of
        (Some e, w1, os1) \<Rightarrow> (Some e, w1, os1)
      | (None, w1, os1) \<Rightarrow> Sync_flush w1 os1)"

definition wal_AppendSync :: "wal \<Rightarrow> os \<Rightarrow> bytes \<Rightarrow> (wal_error + nat) \<times> wal \<times> os" where
  "wal_AppendSync w os payload =
     (case appendLocked w os payload of
        (Inl e, w1, os1) \<Rightarrow> (Inl e, w1, os1)
      | (Inr lsn, w1, os1) \<Rightarrow>
          (case wal_Sync w1 os1 of
             (Some e, w2, os2) \<Rightarrow> (Inl e, w2, os2)
           | (None, w2, os2) \<Rightarrow> (Inr lsn, w2, os2)))"

definition wal_LastLSN :: "wal \<Rightarrow> nat" where
  "wal_LastLSN w = (nextLSN w + (2 ^ 64 - 1)) mod 2 ^ 64"

section \<open>Opening\<close>

definition scan_count :: "bytes \<Rightarrow> unit \<Rightarrow> unit + unit" where
  "scan_count p u = Inr ()"

text \<open>
  The part of \<^verbatim>\<open>Open\<close> that repairs the last segment: scan it, cut a torn tail off and
  flush the cut, position the handle.
\<close>

definition open_last :: "wal \<Rightarrow> os \<Rightarrow> nat \<Rightarrow> (wal_error + wal) \<times> os" where
  "open_last w os base =
     (let dir = wdir w; name = segmentName base
      in case os_open os dir name of
           (Some e, os1) \<Rightarrow> (Inl (WalIO ''wal: open segment'' e), os1)
         | (None, os1) \<Rightarrow>
             (case os_read os1 dir name of (data, rdfail, os2) \<Rightarrow>
              (case scanRecords data rdfail scan_count () 0 0 of
                 (validEnd, cnt, Some _, _) \<Rightarrow> (Inl (WalIO ''wal: scan segment'' EIO), os2)
               | (validEnd, cnt, None, _) \<Rightarrow>
                   (case io_plain os2 of
                      (Some e, os3) \<Rightarrow> (Inl (WalIO ''stat'' e), os3)
                    | (None, os3) \<Rightarrow>
                        (let size = (case file_at os3 dir name of None \<Rightarrow> 0 | Some f \<Rightarrow> length (fdata f));
                             (r, os4) =
                               (if size > validEnd
                                then (case os_truncate os3 dir name validEnd of
                                        (Some e, os') \<Rightarrow> (Some (WalIO ''wal: truncate torn tail'' e), os')
                                      | (None, os') \<Rightarrow>
                                          (case fullSync os' dir name of
                                             (Some e, os'') \<Rightarrow> (Some (WalIO ''wal: sync after truncate'' e), os'')
                                           | (None, os'') \<Rightarrow> (None, os'')))
                                else (None, os3))
                         in case r of
                              Some e \<Rightarrow> (Inl e, os4)
                            | None \<Rightarrow>
                                (case io_plain os4 of
                                   (Some e, os5) \<Rightarrow> (Inl (WalIO ''seek'' e), os5)
                                 | (None, os5) \<Rightarrow>
                                     (Inr (w\<lparr>active := name, active_open := True, activeBase := base,
                                             activeSize := int validEnd, nextLSN := base + cnt\<rparr>), os5)))))))"

definition wal_Open :: "wal_options \<Rightarrow> os \<Rightarrow> (wal_error + wal) \<times> os" where
  "wal_Open opts os =
     (if optDir opts = '''' then (Inl ErrDirRequired, os)
      else
        let maxSize = (if optMaxSegmentSize opts \<le> 0 then DefaultMaxSegmentSize else optMaxSegmentSize opts)
        in case io_plain os of
             (Some e, os1) \<Rightarrow> (Inl (WalIO ''wal: create dir'' e), os1)
           | (None, os1) \<Rightarrow>
               (case listSegments os1 (optDir opts) of
                  (Inl e, os2) \<Rightarrow> (Inl e, os2)
                | (Inr bs, os2) \<Rightarrow>
                    (let w = \<lparr>wdir = optDir opts, maxSegmentSize = maxSize, active = '''',
                              active_open = False, closed = False, buf = [], bases = bs,
                              activeBase = 0, activeSize = 0, nextLSN = 0\<rparr>
                     in if bs = []
                        then (case createSegment w os2 1 of
                                (Some e, _, os3) \<Rightarrow> (Inl e, os3)
                              | (None, w', os3) \<Rightarrow> (Inr (w'\<lparr>nextLSN := 1\<rparr>), os3))
                        else open_last w os2 (last bs))))"

section \<open>Replay, truncation, closing\<close>

datatype 'e replay_err = ReplayWal wal_error | ReplayFn 'e

text \<open>
  The loop of \<^verbatim>\<open>Replay\<close> over the segments.  The callback receives the sequence number;
  the scan's state carries the ordinal within the segment next to the caller's state.
\<close>

definition replay_fn ::
  "nat \<Rightarrow> nat \<Rightarrow> (nat \<Rightarrow> bytes \<Rightarrow> 's \<Rightarrow> 'e + 's) \<Rightarrow> bytes \<Rightarrow> nat \<times> 's \<Rightarrow> 'e + (nat \<times> 's)"
where
  "replay_fn from base fn payload st =
     (case st of (ordinal, s) \<Rightarrow>
        let lsn = base + ordinal
        in if lsn < from then Inr (ordinal + 1, s)
           else case fn lsn payload s of Inl e \<Rightarrow> Inl e | Inr s' \<Rightarrow> Inr (ordinal + 1, s'))"

fun replay_loop ::
  "string \<Rightarrow> nat \<Rightarrow> (nat \<Rightarrow> bytes \<Rightarrow> 's \<Rightarrow> 'e + 's) \<Rightarrow> nat list \<Rightarrow> 's \<Rightarrow> os \<Rightarrow> ('e replay_err + 's) \<times> os"
where
  "replay_loop dir from fn [] s os = (Inr s, os)"
| "replay_loop dir from fn (base # bs) s os =
     (let nextBase = (case bs of [] \<Rightarrow> 2 ^ 64 - 1 | b # _ \<Rightarrow> b)
      in if nextBase \<le> from then replay_loop dir from fn bs s os
         else case os_open os dir (segmentName base) of
             (Some e, os1) \<Rightarrow> (Inl (ReplayWal (WalIO ''wal: open segment'' e)), os1)
           | (None, os1) \<Rightarrow>
               (case os_read os1 dir (segmentName base) of (data, rdfail, os2) \<Rightarrow>
                (case scanRecords data rdfail (replay_fn from base fn) (0, s) 0 0 of
                   (_, _, Some ReadErr, _) \<Rightarrow> (Inl (ReplayWal (WalIO ''wal: replay segment'' EIO)), os2)
                 | (_, _, Some (FnErr e), _) \<Rightarrow> (Inl (ReplayFn e), os2)
                 | (_, _, None, (_, s')) \<Rightarrow> replay_loop dir from fn bs s' os2)))"

definition wal_Replay ::
  "wal \<Rightarrow> os \<Rightarrow> nat \<Rightarrow> (nat \<Rightarrow> bytes \<Rightarrow> 's \<Rightarrow> 'e + 's) \<Rightarrow> 's \<Rightarrow> ('e replay_err + 's) \<times> wal \<times> os"
where
  "wal_Replay w os from fn s =
     (if closed w then (Inl (ReplayWal ErrClosed), w, os)
      else case flushBufferLocked w os of
          (Some e, w1, os1) \<Rightarrow> (Inl (ReplayWal e), w1, os1)
        | (None, w1, os1) \<Rightarrow>
            (case replay_loop (wdir w1) from fn (bases w1) s os1 of (r, os2) \<Rightarrow> (r, w1, os2)))"

text \<open>
  The loop of \<^verbatim>\<open>TruncateBefore\<close>: remove segments from the front while the next one
  starts at or below the given number; the count of removed segments is returned.
\<close>

fun truncate_loop :: "string \<Rightarrow> nat \<Rightarrow> nat list \<Rightarrow> nat \<Rightarrow> os \<Rightarrow> wal_error option \<times> nat \<times> os" where
  "truncate_loop dir lsn (b # c # bs) removed os =
     (if c > lsn then (None, removed, os)
      else case os_remove os dir (segmentName b) of
          (Some e, os1) \<Rightarrow>
            if e = ENOENT then truncate_loop dir lsn (c # bs) (removed + 1) os1
            else (Some (WalIO ''wal: remove segment'' e), removed, os1)
        | (None, os1) \<Rightarrow> truncate_loop dir lsn (c # bs) (removed + 1) os1)"
| "truncate_loop dir lsn bs removed os = (None, removed, os)"

definition wal_TruncateBefore :: "wal \<Rightarrow> os \<Rightarrow> nat \<Rightarrow> wal_error option \<times> wal \<times> os" where
  "wal_TruncateBefore w os lsn =
     (if closed w then (Some ErrClosed, w, os)
      else case truncate_loop (wdir w) lsn (bases w) 0 os of
          (Some e, removed, os1) \<Rightarrow> (Some e, w, os1)
        | (None, removed, os1) \<Rightarrow>
            if removed > 0
            then (let w1 = w\<lparr>bases := drop removed (bases w)\<rparr>
                  in case syncDir os1 (wdir w) of
                       (Some e, os2) \<Rightarrow> (Some (WalIO ''wal: sync dir after truncate'' e), w1, os2)
                     | (None, os2) \<Rightarrow> (None, w1, os2))
            else (None, w, os1))"

definition wal_Close :: "wal \<Rightarrow> os \<Rightarrow> wal_error option \<times> wal \<times> os" where
  "wal_Close w os =
     (if closed w then (None, w, os)
      else
        let w0 = w\<lparr>closed := True\<rparr>
        in case flushBufferLocked w0 os of
             (Some e, w1, os1) \<Rightarrow> (case close_active w1 os1 of (_, w2, os2) \<Rightarrow> (Some e, w2, os2))
           | (None, w1, os1) \<Rightarrow>
               (case sync_active w1 os1 of
                  (Some e, os2) \<Rightarrow>
                    (case close_active w1 os2 of (_, w2, os3) \<Rightarrow> (Some (WalIO ''sync'' e), w2, os3))
                | (None, os2) \<Rightarrow>
                    (case close_active w1 os2 of
                       (Some e, w2, os3) \<Rightarrow> (Some (WalIO ''close'' e), w2, os3)
                     | (None, w2, os3) \<Rightarrow> (None, w2, os3))))"

end
