(* ===== verification/Cv_Wal_Props.thy ===== *)
theory Cv_Wal_Props
  imports Cv_Wal
begin

text \<open>
  Correctness of the write-ahead log.  \<open>wal_rel w os b old cur\<close> relates a log and its
  directory to what was appended: the payloads of the sealed segments (\<open>old\<close>) and of
  the active one (\<open>cur\<close>), numbered from \<open>b\<close>.  \<open>log_rel\<close> forgets the segments and adds
  how many records are on stable storage; it is the contract \<open>durable_log\<close>, which the
  store relies on.
\<close>

section \<open>The representation relation\<close>

fun seg_bases :: "nat \<Rightarrow> bytes list list \<Rightarrow> nat list" where
  "seg_bases b [] = []"
| "seg_bases b (ps # pss) = b # seg_bases (b + length ps) pss"

definition sealed_seg :: "os \<Rightarrow> string \<Rightarrow> nat \<Rightarrow> bytes list \<Rightarrow> bool" where
  "sealed_seg os dir b ps \<longleftrightarrow>
     ps \<noteq> [] \<and> (\<exists>f. file_at os dir (segmentName b) = Some f \<and> fdata f = frames ps \<and>
       fsynced f = length (fdata f) \<and> flinked f)"

fun sealed_segs :: "os \<Rightarrow> string \<Rightarrow> nat \<Rightarrow> bytes list list \<Rightarrow> bool" where
  "sealed_segs os dir b [] = True"
| "sealed_segs os dir b (ps # pss) =
     (sealed_seg os dir b ps \<and> sealed_segs os dir (b + length ps) pss)"

definition active_seg :: "os \<Rightarrow> string \<Rightarrow> nat \<Rightarrow> bytes list \<Rightarrow> bytes \<Rightarrow> bool" where
  "active_seg os dir b cur pending \<longleftrightarrow>
     (\<exists>f. file_at os dir (segmentName b) = Some f \<and> fdata f @ pending = frames cur \<and>
        fsynced f \<le> length (fdata f) \<and> \<not> flost f \<and> flinked f)"

definition dir_ok :: "os \<Rightarrow> string \<Rightarrow> nat set \<Rightarrow> bool" where
  "dir_ok os dir B \<longleftrightarrow>
     distinct (map fst (dirs os dir)) \<and>
     (\<forall>n e b. map_of (dirs os dir) n = Some e \<and> segment_base (n, e) = Some b \<longrightarrow>
        n = segmentName b \<and> b \<in> B)"

definition wal_rel :: "wal \<Rightarrow> os \<Rightarrow> nat \<Rightarrow> bytes list list \<Rightarrow> bytes list \<Rightarrow> bool" where
  "wal_rel w os b old cur \<longleftrightarrow>
     (let ab = b + length (concat old)
      in bases w = seg_bases b (old @ [cur]) \<and>
         activeBase w = ab \<and> active w = segmentName ab \<and> active_open w \<and> \<not> closed w \<and>
         activeSize w = int (length (frames cur)) \<and>
         nextLSN w = ab + length cur \<and>
         list_all payload_ok (concat old @ cur) \<and>
         sealed_segs os (wdir w) b old \<and>
         active_seg os (wdir w) ab cur (buf w) \<and>
         dir_ok os (wdir w) (set (bases w)))"

definition durable_count :: "wal \<Rightarrow> os \<Rightarrow> bytes list list \<Rightarrow> bytes list \<Rightarrow> nat" where
  "durable_count w os old cur =
     length (concat old) +
     length (whole (case file_at os (wdir w) (active w) of None \<Rightarrow> 0 | Some f \<Rightarrow> fsynced f) cur)"

definition log_rel :: "wal \<Rightarrow> os \<Rightarrow> nat \<Rightarrow> bytes list \<Rightarrow> nat \<Rightarrow> bool" where
  "log_rel w os b rs d \<longleftrightarrow>
     (\<exists>old cur. wal_rel w os b old cur \<and> rs = concat old @ cur \<and> d = durable_count w os old cur)"

section \<open>Names and bases\<close>

lemma segmentName_inject [simp]: "segmentName a = segmentName b \<longleftrightarrow> a = b"
  by (simp add: segmentName_def pad20_inject)

lemma segment_base_name: "b < 2 ^ 64 \<Longrightarrow> segment_base (segmentName b, RegFile f) = Some b"
  by (simp add: segment_base_def segmentName_def ParseUint_pad20 suffix_def del: power_numeral)

lemma segment_base_nameD: "segment_base (segmentName b, RegFile f) = Some b' \<Longrightarrow> b' = b"
  by (auto simp: segment_base_def segmentName_def ParseUint_def parse_digits_pad20 suffix_def
      simp del: power_numeral split: if_splits)

lemma segment_base_file: "segment_base (n, e) = Some b \<Longrightarrow> \<exists>f. e = RegFile f"
  by (cases e) (simp_all add: segment_base_def)

lemma segment_base_cong: "segment_base (n, RegFile f) = segment_base (n, RegFile g)"
  by (simp add: segment_base_def)

lemma seg_bases_append:
  "seg_bases b (xs @ ys) = seg_bases b xs @ seg_bases (b + length (concat xs)) ys"
  by (induction xs arbitrary: b) (simp_all add: add.assoc)

lemma seg_bases_ge: "x \<in> set (seg_bases b pss) \<Longrightarrow> b \<le> x"
  by (induction pss arbitrary: b) (auto dest: add_leD1)

lemma seg_bases_less:
  "sealed_segs os dir b old \<Longrightarrow> x \<in> set (seg_bases b old) \<Longrightarrow> x < b + length (concat old)"
proof (induction old arbitrary: b)
  case (Cons ps old)
  from Cons.prems have "ps \<noteq> []" and sealed: "sealed_segs os dir (b + length ps) old"
    by (auto simp: sealed_seg_def)
  show ?case
  proof (cases "x = b")
    case True
    with \<open>ps \<noteq> []\<close> show ?thesis by simp
  next
    case False
    with Cons.prems(2) Cons.IH [OF sealed] show ?thesis by (simp add: add.assoc)
  qed
qed simp

lemma seg_bases_sorted:
  "sealed_segs os dir b old \<Longrightarrow>
     sorted (seg_bases b (old @ [cur])) \<and> distinct (seg_bases b (old @ [cur]))"
proof (induction old arbitrary: b)
  case (Cons ps old)
  then have "0 < length ps" by (simp add: sealed_seg_def)
  then have "\<forall>x \<in> set (seg_bases (b + length ps) (old @ [cur])). b < x"
    by (metis seg_bases_ge less_add_same_cancel1 order_less_le_trans)
  with Cons show ?case by fastforce
qed simp

lemma seg_bases_last: "last (seg_bases b (old @ [cur])) = b + length (concat old)"
  by (simp add: seg_bases_append)

lemma seg_bases_nonempty [simp]: "seg_bases b (old @ [cur]) \<noteq> []"
  by (simp add: seg_bases_append)

section \<open>Frame conditions\<close>

text \<open>A sealed segment is not disturbed by anything that happens to other files.\<close>

lemma sealed_segs_mono:
  assumes "sealed_segs os dir b old"
    and "\<And>x f. x \<in> set (seg_bases b old) \<Longrightarrow> file_at os dir (segmentName x) = Some f \<Longrightarrow> flinked f \<Longrightarrow>
      fsynced f = length (fdata f) \<Longrightarrow>
      \<exists>f'. file_at os' dir (segmentName x) = Some f' \<and> fdata f' = fdata f \<and> fsynced f' = fsynced f \<and> flinked f'"
  shows "sealed_segs os' dir b old"
  using assms
proof (induction old arbitrary: b)
  case (Cons ps old)
  from Cons.prems(1) obtain f where f: "ps \<noteq> []" "file_at os dir (segmentName b) = Some f"
    "fdata f = frames ps" "fsynced f = length (fdata f)" "flinked f"
    by (auto simp: sealed_seg_def)
  with Cons.prems(2) [of b f] have "sealed_seg os' dir b ps"
    by (auto simp: sealed_seg_def)
  moreover have "sealed_segs os' dir (b + length ps) old"
    using Cons.prems by (intro Cons.IH) auto
  ultimately show ?case by simp
qed simp

lemma sealed_segs_other:
  assumes "sealed_segs os dir b old" and "ab = b + length (concat old)"
    and "\<And>n. n \<noteq> segmentName ab \<Longrightarrow> file_at os' dir n = file_at os dir n"
  shows "sealed_segs os' dir b old"
  using assms(1)
proof (rule sealed_segs_mono)
  fix x f assume x: "x \<in> set (seg_bases b old)" "file_at os dir (segmentName x) = Some f" "flinked f"
  then have "x \<noteq> ab" using seg_bases_less [OF assms(1)] assms(2) by blast
  with x(2,3) assms(3) [of "segmentName x"]
  show "\<exists>f'. file_at os' dir (segmentName x) = Some f' \<and> fdata f' = fdata f \<and>
    fsynced f' = fsynced f \<and> flinked f'"
    by simp
qed

lemma sealed_segs_append:
  "sealed_segs os dir b (xs @ ys) \<longleftrightarrow>
     sealed_segs os dir b xs \<and> sealed_segs os dir (b + length (concat xs)) ys"
  by (induction xs arbitrary: b) (auto simp: add.assoc)

lemma dir_ok_mono: "dir_ok os dir B \<Longrightarrow> B \<subseteq> C \<Longrightarrow> dir_ok os dir C"
  by (auto simp: dir_ok_def)

lemma dir_ok_cong: "dirs os' dir = dirs os dir \<Longrightarrow> dir_ok os' dir B = dir_ok os dir B"
  by (simp add: dir_ok_def)

lemma dir_ok_set_file:
  assumes "dir_ok os dir B"
    and "file_at os dir n \<noteq> None \<or> (\<exists>b. n = segmentName b \<and> b \<in> B)"
  shows "dir_ok (set_file os dir n f) dir B"
proof -
  have base: "segment_base (n, RegFile f) = Some b \<Longrightarrow> n = segmentName b \<and> b \<in> B" for b
    using assms(2)
  proof
    assume "file_at os dir n \<noteq> None"
    then obtain g where "map_of (dirs os dir) n = Some (RegFile g)"
      by (auto simp: file_at_def split: option.splits dirent.splits)
    moreover assume "segment_base (n, RegFile f) = Some b"
    ultimately show ?thesis
      using assms(1) segment_base_cong [of n f g] by (simp add: dir_ok_def)
  next
    assume "segment_base (n, RegFile f) = Some b" "\<exists>b. n = segmentName b \<and> b \<in> B"
    then show ?thesis by (auto dest: segment_base_nameD)
  qed
  have "distinct (map fst (dirs (set_file os dir n f) dir))"
    using assms(1) by (simp add: dir_ok_def set_file_def distinct_update)
  with base assms(1) show ?thesis by (auto simp: dir_ok_def split: if_splits)
qed

lemma dir_ok_upd_file: "dir_ok os dir B \<Longrightarrow> dir_ok (upd_file g os dir n) dir B"
  by (auto simp: upd_file_def intro: dir_ok_set_file split: option.splits)

lemma dir_ok_link_dir: "dir_ok os dir B \<Longrightarrow> dir_ok (link_dir os dir) dir B"
proof -
  assume ok: "dir_ok os dir B"
  have "map fst (dirs (link_dir os dir) dir) = map fst (dirs os dir)"
    by (auto simp: link_dir_def)
  moreover have "segment_base (n, link_entry e) = segment_base (n, e)" for n e
    by (cases e) (simp_all add: segment_base_def)
  ultimately show ?thesis using ok by (auto simp: dir_ok_def)
qed

lemma dir_ok_del_entry: "dir_ok os dir B \<Longrightarrow> dir_ok (del_entry os dir n) dir B"
  by (auto simp: dir_ok_def del_entry_def delete_conv' distinct_delete split: if_splits)

section \<open>Outcomes of successful calls\<close>

lemma os_write_None:
  assumes "os_write os d n bs = (None, os')"
  obtains os1 f where "dirs os1 = dirs os" "file_at os d n = Some f"
    "os' = set_file os1 d n (f\<lparr>fdata := fdata f @ bs\<rparr>)"
proof -
  obtain x os1 where step: "io_step os = (x, os1)" by fastforce
  note same = io_step_dirs [OF step]
  from assms step obtain f where "file_at os1 d n = Some f" "os' = set_file os1 d n (f\<lparr>fdata := fdata f @ bs\<rparr>)"
    by (cases x; cases "file_at os1 d n") (simp_all add: os_write_def)
  with same show thesis by (intro that [of os1 f]) (simp_all add: file_at_dirs_cong [OF same])
qed

lemma sync_active_None:
  assumes "sync_active w os = (None, os')"
  obtains os1 where "dirs os1 = dirs os" "os' = upd_file synced_ok os1 (wdir w) (active w)"
  using assms by (auto simp: sync_active_def split: if_splits elim: fullSync_cases)

lemma os_create_excl_None:
  assumes "os_create_excl os d n = (None, os')"
  obtains os1 where "dirs os1 = dirs os" "map_of (dirs os d) n = None" "os' = set_file os1 d n new_file"
proof -
  obtain x os1 where step: "io_plain os = (x, os1)" by fastforce
  with assms io_plain_dirs [OF step] show thesis
    by (intro that [of os1]) (auto simp: os_create_excl_def split: option.splits if_splits)
qed

lemma syncDir_None:
  assumes "syncDir os d = (None, os')"
  obtains os1 where "dirs os1 = dirs os" "os' = link_dir os1 d"
proof -
  obtain x os1 where 1: "io_plain os = (x, os1)" by fastforce
  obtain y os2 where 2: "io_plain os1 = (y, os2)" by fastforce
  from assms 1 2 io_plain_dirs [OF 1] io_plain_dirs [OF 2] show thesis
    by (intro that [of os2]) (auto simp: syncDir_def split: option.splits)
qed

lemma os_truncate_None:
  assumes "os_truncate os d n k = (None, os')" and "file_at os d n = Some f"
  obtains os1 where "dirs os1 = dirs os"
    "os' = set_file os1 d n (f\<lparr>fdata := take k (fdata f), fsynced := min k (fsynced f)\<rparr>)"
proof -
  obtain x os1 where step: "io_plain os = (x, os1)" by fastforce
  note d1 = io_plain_dirs [OF step]
  from assms step have "os' = set_file os1 d n (f\<lparr>fdata := take k (fdata f), fsynced := min k (fsynced f)\<rparr>)"
    by (auto simp: os_truncate_def upd_file_def file_at_dirs_cong [OF d1] split: option.splits)
  with d1 show thesis by (rule that)
qed

section \<open>Appending, flushing, rotating\<close>

text \<open>Nothing here depends on the script of outcomes, only on the files.\<close>

lemma sealed_segs_cong:
  assumes "dirs os' = dirs os"
  shows "sealed_segs os' dir b pss = sealed_segs os dir b pss"
  by (induction pss arbitrary: b) (simp_all add: sealed_seg_def file_at_dirs_cong [OF assms])

lemma wal_rel_cong:
  assumes "dirs os' = dirs os"
  shows "wal_rel w os' b old cur = wal_rel w os b old cur"
    and "durable_count w os' old cur = durable_count w os old cur"
    and "log_rel w os' b rs d = log_rel w os b rs d"
proof -
  note fa = file_at_dirs_cong [OF assms]
  note segs = sealed_segs_cong [OF assms]
  have ok: "dir_ok os' dir B = dir_ok os dir B" for dir B
    using assms by (simp add: dir_ok_cong [of os' dir os])
  have 1: "wal_rel w os' b old cur = wal_rel w os b old cur" for old cur
    unfolding wal_rel_def segs active_seg_def fa ok ..
  have 2: "durable_count w os' old cur = durable_count w os old cur" for old cur
    by (simp add: durable_count_def fa)
  show "wal_rel w os' b old cur = wal_rel w os b old cur"
    and "durable_count w os' old cur = durable_count w os old cur"
    by (fact 1 2)+
  show "log_rel w os' b rs d = log_rel w os b rs d"
    unfolding log_rel_def 1 2 ..
qed

text \<open>
  Any change to the active file that keeps file and buffer together the frames of
  \<open>cur\<close> keeps the relation.
\<close>

lemma wal_rel_active_update:
  assumes rel: "wal_rel w os b old cur" and same: "dirs os1 = dirs os"
    and "fdata f @ pending = frames cur" "fsynced f \<le> length (fdata f)" "\<not> flost f" "flinked f"
  shows "wal_rel (w\<lparr>buf := pending\<rparr>) (set_file os1 (wdir w) (active w) f) b old cur"
proof -
  let ?ab = "b + length (concat old)"
  let ?os = "set_file os1 (wdir w) (active w) f"
  note fa = file_at_dirs_cong [OF same]
  from rel have name: "active w = segmentName ?ab" and sealed: "sealed_segs os (wdir w) b old"
    and act: "active_seg os (wdir w) ?ab cur (buf w)" and ok: "dir_ok os (wdir w) (set (bases w))"
    unfolding wal_rel_def Let_def by blast+
  have "sealed_segs ?os (wdir w) b old"
    using sealed refl by (rule sealed_segs_other) (simp add: name fa)
  moreover have "active_seg ?os (wdir w) ?ab cur pending"
    using assms name by (simp add: active_seg_def)
  moreover have "dir_ok ?os (wdir w) (set (bases w))"
    using ok same act
    by (intro dir_ok_set_file) (auto simp: dir_ok_cong [of os1 _ os] active_seg_def fa name)
  ultimately show ?thesis using rel by (simp add: wal_rel_def Let_def)
qed

lemma wal_rel_active:
  assumes "wal_rel w os b old cur"
  obtains f where "file_at os (wdir w) (active w) = Some f" "fdata f @ buf w = frames cur"
    "fsynced f \<le> length (fdata f)" "\<not> flost f" "flinked f"
  using assms by (auto simp: wal_rel_def Let_def active_seg_def)

lemma flush_rel:
  assumes rel: "wal_rel w os b old cur" and "flushBufferLocked w os = (None, w', os')"
  shows "wal_rel w' os' b old cur" and "buf w' = []" and "w' = w\<lparr>buf := []\<rparr>"
    and "map_option fsynced (file_at os' (wdir w) (active w)) =
         map_option fsynced (file_at os (wdir w) (active w))"
proof -
  obtain f where f: "file_at os (wdir w) (active w) = Some f" "fdata f @ buf w = frames cur"
    "fsynced f \<le> length (fdata f)" "\<not> flost f" "flinked f"
    using rel by (rule wal_rel_active)
  have "wal_rel w' os' b old cur \<and> buf w' = [] \<and> w' = w\<lparr>buf := []\<rparr> \<and>
    map_option fsynced (file_at os' (wdir w) (active w)) = Some (fsynced f)"
  proof (cases "buf w = []")
    case True
    with assms f show ?thesis by (auto simp: flushBufferLocked_def)
  next
    case False
    with assms(2) have "os_write os (wdir w) (active w) (buf w) = (None, os')" "w' = w\<lparr>buf := []\<rparr>"
      by (auto simp: flushBufferLocked_def split: if_splits prod.splits option.splits)
    moreover have "fsynced f \<le> length (frames cur)"
      using f(3) by (simp flip: f(2))
    ultimately show ?thesis
      using wal_rel_active_update [OF rel, of _ "f\<lparr>fdata := fdata f @ buf w\<rparr>" "[]"] f
      by (auto elim!: os_write_None)
  qed
  with f(1) show "wal_rel w' os' b old cur" "buf w' = []" "w' = w\<lparr>buf := []\<rparr>"
    "map_option fsynced (file_at os' (wdir w) (active w)) =
     map_option fsynced (file_at os (wdir w) (active w))"
    by (metis, metis, metis, simp)
qed

text \<open>A successful flush of a drained log puts every record on stable storage.\<close>

lemma sync_active_rel:
  assumes rel: "wal_rel w os b old cur" and "sync_active w os = (None, os')" and "buf w = []"
  shows "wal_rel w os' b old cur"
    and "\<exists>f. file_at os' (wdir w) (active w) = Some f \<and> fdata f = frames cur \<and>
      fsynced f = length (fdata f) \<and> flinked f \<and> \<not> flost f"
proof -
  obtain f where f: "file_at os (wdir w) (active w) = Some f" "fdata f @ buf w = frames cur"
    "fsynced f \<le> length (fdata f)" "\<not> flost f" "flinked f"
    using rel by (rule wal_rel_active)
  obtain os1 where os1: "dirs os1 = dirs os" "os' = upd_file synced_ok os1 (wdir w) (active w)"
    using assms(2) by (rule sync_active_None)
  then have os': "os' = set_file os1 (wdir w) (active w) (f\<lparr>fsynced := length (fdata f)\<rparr>)"
    using f by (simp add: upd_file_def file_at_dirs_cong [OF os1(1)] synced_ok_def)
  have "w\<lparr>buf := []\<rparr> = w" using assms(3) by (cases w) simp
  with wal_rel_active_update [OF rel os1(1), of "f\<lparr>fsynced := length (fdata f)\<rparr>" "[]"] f assms(3) os'
  show "wal_rel w os' b old cur" by simp
  show "\<exists>f. file_at os' (wdir w) (active w) = Some f \<and> fdata f = frames cur \<and>
      fsynced f = length (fdata f) \<and> flinked f \<and> \<not> flost f"
    using f assms(3) os' by simp
qed

lemma close_active_None:
  assumes "close_active w os = (None, w', os')"
  shows "w' = w\<lparr>active_open := False\<rparr>" and "dirs os' = dirs os"
  using assms by (auto simp: close_active_def split: if_splits prod.splits dest: io_plain_dirs)

text \<open>
  Starting a new segment seals the drained, flushed one.  The rest of the log record
  may be anything: only the directory and the list of bases carry over.
\<close>

lemma createSegment_rel:
  assumes rel: "wal_rel w os b old cur" and "cur \<noteq> []"
    and "\<exists>f. file_at os (wdir w) (active w) = Some f \<and> fdata f = frames cur \<and>
      fsynced f = length (fdata f) \<and> flinked f \<and> \<not> flost f"
    and same: "dirs os0 = dirs os"
    and create: "createSegmentLocked (w\<lparr>active_open := False\<rparr>) os0 (nextLSN w) = (None, w', os')"
    and "buf w = []"
  shows "wal_rel w' os' b (old @ [cur]) []"
    and "buf w' = []" and "wdir w' = wdir w" and "maxSegmentSize w' = maxSegmentSize w"
    and "map_option fsynced (file_at os' (wdir w') (active w')) = Some 0"
proof -
  let ?ab = "b + length (concat old)"
  let ?n = "?ab + length cur"
  obtain f where f: "file_at os (wdir w) (segmentName ?ab) = Some f" "fdata f = frames cur"
    "fsynced f = length (fdata f)" "flinked f" "\<not> flost f"
    using assms(3) rel by (auto simp: wal_rel_def Let_def)
  obtain os1 where c: "os_create_excl os0 (wdir w) (segmentName ?n) = (None, os1)"
    "syncDir os1 (wdir w) = (None, os')"
    and w': "w' = w\<lparr>active := segmentName ?n, active_open := True, activeBase := ?n,
        activeSize := 0, bases := bases w @ [?n]\<rparr>"
    using create rel
    by (auto simp: createSegmentLocked_def wal_rel_def Let_def split: prod.splits option.splits)
  obtain os2 where os2: "dirs os2 = dirs os0" "os1 = set_file os2 (wdir w) (segmentName ?n) new_file"
    using c(1) by (rule os_create_excl_None)
  obtain os3 where os3: "dirs os3 = dirs os1" "os' = link_dir os3 (wdir w)"
    using c(2) by (rule syncDir_None)
  have at: "file_at os' (wdir w) n =
      (if n = segmentName ?n then Some (new_file\<lparr>flinked := True\<rparr>)
       else map_option (\<lambda>f. f\<lparr>flinked := True\<rparr>) (file_at os (wdir w) n))" for n
    using os2 os3 same by (simp add: file_at_dirs_cong [OF os3(1)] file_at_dirs_cong [OF os2(1)]
        file_at_dirs_cong [OF same])
  have old: "sealed_segs os' (wdir w) b old"
  proof (rule sealed_segs_mono [of os])
    show "sealed_segs os (wdir w) b old" using rel by (simp add: wal_rel_def Let_def)
    fix x f assume "x \<in> set (seg_bases b old)" "file_at os (wdir w) (segmentName x) = Some f"
    moreover from this have "x < ?ab"
      using rel by (intro seg_bases_less [of os "wdir w"]) (simp_all add: wal_rel_def Let_def)
    ultimately show "\<exists>f'. file_at os' (wdir w) (segmentName x) = Some f' \<and> fdata f' = fdata f \<and>
      fsynced f' = fsynced f \<and> flinked f'" by (simp add: at)
  qed
  have cur: "sealed_seg os' (wdir w) ?ab cur"
    using f \<open>cur \<noteq> []\<close> by (simp add: sealed_seg_def at)
  have ok: "dir_ok os' (wdir w) (set (bases w) \<union> {?n})"
  proof -
    have "dir_ok os2 (wdir w) (set (bases w) \<union> {?n})"
      using rel os2(1) same
      by (auto simp: wal_rel_def Let_def dir_ok_cong [of os2 _ os] intro: dir_ok_mono)
    then have "dir_ok os1 (wdir w) (set (bases w) \<union> {?n})"
      unfolding os2(2) by (rule dir_ok_set_file) blast
    then have "dir_ok os3 (wdir w) (set (bases w) \<union> {?n})"
      using os3(1) by (simp add: dir_ok_cong [of os3 _ os1])
    then show ?thesis unfolding os3(2) by (rule dir_ok_link_dir)
  qed
  have "active_seg os' (wdir w) ?n [] []"
    by (simp add: active_seg_def at new_file_def)
  with rel old cur ok w' \<open>buf w = []\<close> show "wal_rel w' os' b (old @ [cur]) []"
    by (simp add: wal_rel_def Let_def sealed_segs_append seg_bases_append add.assoc insert_commute)
  show "buf w' = []" "wdir w' = wdir w" "maxSegmentSize w' = maxSegmentSize w"
    using w' \<open>buf w = []\<close> by simp_all
  show "map_option fsynced (file_at os' (wdir w') (active w')) = Some 0"
    using w' by (simp add: at new_file_def)
qed

lemma rotate_rel:
  assumes rel: "wal_rel w os b old cur" and "cur \<noteq> []"
    and rot: "rotateLocked w os = (None, w', os')"
  shows "wal_rel w' os' b (old @ [cur]) []" and "wdir w' = wdir w"
    and "map_option fsynced (file_at os' (wdir w') (active w')) = Some 0"
proof -
  obtain w1 os1 where fl: "flushBufferLocked w os = (None, w1, os1)"
    using rot by (auto simp: rotateLocked_def split: prod.splits option.splits)
  note f = flush_rel [OF rel fl]
  obtain os2 where sy: "sync_active w1 os1 = (None, os2)"
    using rot fl by (auto simp: rotateLocked_def split: prod.splits option.splits)
  note s = sync_active_rel [OF f(1) sy f(2)]
  obtain w2 os3 where cl: "close_active w1 os2 = (None, w2, os3)"
    "createSegmentLocked w2 os3 (nextLSN w2) = (None, w', os')"
    using rot fl sy by (auto simp: rotateLocked_def split: prod.splits option.splits)
  note c = close_active_None [OF cl(1)]
  have "createSegmentLocked (w1\<lparr>active_open := False\<rparr>) os3 (nextLSN w1) = (None, w', os')"
    using cl(2) c(1) by simp
  note r = createSegment_rel [OF s(1) \<open>cur \<noteq> []\<close> s(2) c(2) this f(2)]
  show "wal_rel w' os' b (old @ [cur]) []"
    "map_option fsynced (file_at os' (wdir w') (active w')) = Some 0"
    by (fact r)+
  show "wdir w' = wdir w" using r(3) f(3) by simp
qed

lemma append_buffer_rel:
  assumes "wal_rel w os b old cur" and "payload_ok p"
  shows "wal_rel (w\<lparr>buf := buf w @ frame p, activeSize := activeSize w + int (headerSize + length p),
           nextLSN := nextLSN w + 1\<rparr>) os b old (cur @ [p])"
  using assms by (auto simp: wal_rel_def Let_def seg_bases_append active_seg_def)

lemma whole_append_short:
  assumes "k \<le> length (frames ps)"
  shows "whole k (ps @ [p]) = whole k ps"
  using assms by (induction k ps rule: whole.induct) (auto simp: headerSize_def)

lemma durable_count_append:
  assumes "wal_rel w os b old cur"
  shows "durable_count w os old (cur @ [p]) = durable_count w os old cur"
proof -
  obtain f where "file_at os (wdir w) (active w) = Some f" "fdata f @ buf w = frames cur"
    "fsynced f \<le> length (fdata f)"
    using assms by (rule wal_rel_active)
  then have "fsynced f \<le> length (frames cur)"
    by (metis length_append trans_le_add1)
  with \<open>file_at os (wdir w) (active w) = Some f\<close> show ?thesis
    by (simp add: durable_count_def whole_append_short)
qed

lemma length_whole_le: "length (whole k ps) \<le> length ps"
  using whole_prefix by (rule prefix_length_le)

lemma durable_count_le: "durable_count w os old cur \<le> length (concat old @ cur)"
  by (simp add: durable_count_def length_whole_le)

lemma activeSize_pos: "wal_rel w os b old cur \<Longrightarrow> 0 < activeSize w \<Longrightarrow> cur \<noteq> []"
  by (auto simp: wal_rel_def Let_def)

lemma append_rel:
  assumes rel: "log_rel w os b rs d" and app: "appendLocked w os p = (Inr lsn, w', os')"
  shows "lsn = b + length rs \<and> wdir w' = wdir w \<and> (\<exists>d'. d \<le> d' \<and> log_rel w' os' b (rs @ [p]) d')"
proof -
  obtain old cur where r: "wal_rel w os b old cur" "rs = concat old @ cur" "d = durable_count w os old cur"
    using rel by (auto simp: log_rel_def)
  let ?sz = "int (headerSize + length p)"
  let ?add = "\<lambda>w. w\<lparr>buf := buf w @ frame p, activeSize := activeSize w + ?sz, nextLSN := nextLSN w + 1\<rparr>"
  have p: "payload_ok p" and open_w: "\<not> closed w"
    using app by (auto simp: appendLocked_def payload_ok_def split: if_splits)
  show ?thesis
  proof (cases "activeSize w > 0 \<and> activeSize w + ?sz > maxSegmentSize w")
    case False
    then have eq: "lsn = nextLSN w" "w' = ?add w" "os' = os"
      using app p open_w by (auto simp: appendLocked_def payload_ok_def Let_def)
    have dc: "durable_count w' os' old (cur @ [p]) = durable_count w os old (cur @ [p])"
      using eq by (simp add: durable_count_def)
    have "wal_rel w' os' b old (cur @ [p])"
      using append_buffer_rel [OF r(1) p] eq by simp
    then have "log_rel w' os' b (rs @ [p]) d"
      unfolding log_rel_def using r dc durable_count_append [OF r(1)]
      by (intro exI [of _ old] exI [of _ "cur @ [p]"]) simp
    moreover have "lsn = b + length rs" "wdir w' = wdir w"
      using eq r by (simp_all add: wal_rel_def Let_def)
    ultimately show ?thesis by auto
  next
    case True
    then obtain w1 where rot: "rotateLocked w os = (None, w1, os')" and eq: "lsn = nextLSN w1" "w' = ?add w1"
      using app p open_w
      by (auto simp: appendLocked_def payload_ok_def Let_def split: prod.splits option.splits)
    note ro = rotate_rel [OF r(1) activeSize_pos [OF r(1)] rot]
    have w1: "wal_rel w1 os' b (old @ [cur]) []" using ro(1) True by blast
    have "wal_rel w' os' b (old @ [cur]) [p]"
      using append_buffer_rel [OF w1 p] eq by simp
    then have "log_rel w' os' b (rs @ [p]) (durable_count w' os' (old @ [cur]) [p])"
      unfolding log_rel_def using r by (intro exI [of _ "old @ [cur]"] exI [of _ "[p]"]) simp
    moreover have "d \<le> durable_count w' os' (old @ [cur]) [p]"
      using durable_count_le [of w os old cur] r by (simp add: durable_count_def)
    moreover have "lsn = b + length rs" "wdir w' = wdir w"
      using eq w1 r ro(2) True by (auto simp: wal_rel_def Let_def)
    ultimately show ?thesis by auto
  qed
qed

lemma sync_rel:
  assumes rel: "log_rel w os b rs d" and sync: "wal_Sync w os = (None, w', os')"
  shows "log_rel w' os' b rs (length rs)" and "buf w' = []" and "wdir w' = wdir w"
proof -
  obtain old cur where r: "wal_rel w os b old cur" "rs = concat old @ cur"
    using rel by (auto simp: log_rel_def)
  then have "\<not> closed w" by (simp add: wal_rel_def Let_def)
  then obtain w1 os1 where fl: "flushBufferLocked w os = (None, w1, os1)" "Sync_flush w1 os1 = (None, w', os')"
    using sync by (auto simp: wal_Sync_def Sync_write_def split: prod.splits option.splits)
  note f = flush_rel [OF r(1) fl(1)]
  have sy: "sync_active w1 os1 = (None, os')" "w' = w1"
    using fl(2) by (auto simp: Sync_flush_def split: if_splits prod.splits option.splits)
  note s = sync_active_rel [OF f(1) sy(1) f(2)]
  have "durable_count w1 os' old cur = length rs"
    using s(2) r(2) by (auto simp: durable_count_def whole_all)
  with s(1) sy(2) r(2) show "log_rel w' os' b rs (length rs)"
    by (auto simp: log_rel_def intro!: exI [of _ old] exI [of _ cur])
  show "buf w' = []" "wdir w' = wdir w" using sy(2) f(2,3) by simp_all
qed

section \<open>Replay\<close>

text \<open>The reference: call \<open>fn\<close> on the records numbered from \<open>lo\<close> on, in order.\<close>

fun replay_from ::
  "nat \<Rightarrow> (nat \<Rightarrow> bytes \<Rightarrow> 's \<Rightarrow> 'e + 's) \<Rightarrow> nat \<Rightarrow> bytes list \<Rightarrow> 's \<Rightarrow> 'e + 's"
where
  "replay_from lo fn l [] s = Inr s"
| "replay_from lo fn l (p # ps) s =
     (if l < lo then replay_from lo fn (l + 1) ps s
      else case fn l p s of Inl e \<Rightarrow> Inl e | Inr s' \<Rightarrow> replay_from lo fn (l + 1) ps s')"

lemma replay_from_append:
  "replay_from lo fn l (ps @ qs) s =
     (case replay_from lo fn l ps s of
        Inl e \<Rightarrow> Inl e | Inr s' \<Rightarrow> replay_from lo fn (l + length ps) qs s')"
  by (induction ps arbitrary: l s) (auto split: sum.splits)

lemma replay_from_skip: "l + length ps \<le> lo \<Longrightarrow> replay_from lo fn l ps s = Inr s"
  by (induction ps arbitrary: l) simp_all

lemma fn_fold_replay:
  "fn_fold (replay_fn lo base fn) ps (k, s) =
     map_sum id (Pair (k + length ps)) (replay_from lo fn (base + k) ps s)"
  by (induction ps arbitrary: k s) (auto simp: replay_fn_def Let_def split: sum.splits)

fun seg_files :: "os \<Rightarrow> string \<Rightarrow> nat \<Rightarrow> bytes list list \<Rightarrow> bool" where
  "seg_files os dir b [] = True"
| "seg_files os dir b (ps # pss) =
     ((\<exists>f. file_at os dir (segmentName b) = Some f \<and> fdata f = frames ps) \<and>
      seg_files os dir (b + length ps) pss)"

lemma seg_files_cong: "dirs os' = dirs os \<Longrightarrow> seg_files os' dir b pss = seg_files os dir b pss"
proof -
  assume "dirs os' = dirs os"
  note fa = file_at_dirs_cong [OF this]
  show ?thesis by (induction pss arbitrary: b) (simp_all add: fa)
qed

lemma sealed_segs_files: "sealed_segs os dir b pss \<Longrightarrow> seg_files os dir b pss"
  by (induction pss arbitrary: b) (auto simp: sealed_seg_def)

lemma seg_files_append:
  "seg_files os dir b (xs @ ys) \<longleftrightarrow> seg_files os dir b xs \<and> seg_files os dir (b + length (concat xs)) ys"
  by (induction xs arbitrary: b) (auto simp: add.assoc)

lemma os_open_dirs: "os_open os d n = (r, os') \<Longrightarrow> dirs os' = dirs os"
  by (auto simp: os_open_def split: prod.splits option.splits if_splits dest: io_plain_dirs)

lemma os_read_cases:
  assumes "os_read os d n = (data, rdfail, os')" and "file_at os d n = Some f"
  obtains k where "data = take k (fdata f)" "\<not> rdfail \<Longrightarrow> length (fdata f) \<le> k" "dirs os' = dirs os"
proof -
  obtain x os1 where step: "io_step os = (x, os1)" by fastforce
  define k where "k = (case x of Okay \<Rightarrow> length (fdata f) | Errno e \<Rightarrow> 0 | Short k \<Rightarrow> k)"
  have "data = take k (fdata f)" "\<not> rdfail \<Longrightarrow> length (fdata f) \<le> k" "os' = os1"
    using assms step by (cases x; simp add: os_read_def k_def)+
  with io_step_dirs [OF step] show thesis by (intro that) simp_all
qed

text \<open>One segment: what a scan that reports no error has done.\<close>

lemma replay_segment:
  assumes "list_all payload_ok ps"
    and "scanRecords (take k (frames ps)) rdfail (replay_fn lo base fn) (0, s) 0 0 = (v, c, r, st)"
    and "\<not> rdfail \<Longrightarrow> length (frames ps) \<le> k"
  shows "r = None \<Longrightarrow> replay_from lo fn base ps s = Inr (snd st)"
    and "r = Some (FnErr e) \<Longrightarrow> \<exists>qs. prefix qs ps \<and> replay_from lo fn base qs s = Inl e"
    and "\<not> rdfail \<Longrightarrow> replay_from lo fn base ps s = Inr s' \<Longrightarrow> r = None"
    and "\<not> rdfail \<Longrightarrow> replay_from lo fn base ps s = Inl x \<Longrightarrow> r = Some (FnErr x)"
proof -
  note fold = fn_fold_replay [of lo base fn "whole k ps" 0 s, simplified]
  have wh: "\<not> rdfail \<Longrightarrow> whole k ps = ps" using assms(3) by (simp add: whole_all)
  have "(r = None \<longrightarrow> replay_from lo fn base ps s = Inr (snd st)) \<and>
    (r = Some (FnErr e) \<longrightarrow> (\<exists>qs. prefix qs ps \<and> replay_from lo fn base qs s = Inl e)) \<and>
    (\<not> rdfail \<longrightarrow> replay_from lo fn base ps s = Inr s' \<longrightarrow> r = None) \<and>
    (\<not> rdfail \<longrightarrow> replay_from lo fn base ps s = Inl x \<longrightarrow> r = Some (FnErr x))"
  proof (cases "replay_from lo fn base (whole k ps) s")
    case (Inr t)
    with fold assms(1,2) have "r = read_end rdfail" "snd st = t"
      by (auto simp: scan_torn_log)
    with Inr wh show ?thesis by (cases rdfail) auto
  next
    case (Inl y)
    with fold have "fn_fold (replay_fn lo base fn) (whole k ps) (0, s) = Inl y" by simp
    from scan_torn_log_err [OF assms(1) this, of rdfail 0 0] assms(2) have "r = Some (FnErr y)" by auto
    with Inl wh whole_prefix [of k ps] show ?thesis by auto
  qed
  then show "r = None \<Longrightarrow> replay_from lo fn base ps s = Inr (snd st)"
    and "r = Some (FnErr e) \<Longrightarrow> \<exists>qs. prefix qs ps \<and> replay_from lo fn base qs s = Inl e"
    and "\<not> rdfail \<Longrightarrow> replay_from lo fn base ps s = Inr s' \<Longrightarrow> r = None"
    and "\<not> rdfail \<Longrightarrow> replay_from lo fn base ps s = Inl x \<Longrightarrow> r = Some (FnErr x)"
    by blast+
qed

lemma replay_loop_Inr:
  assumes "seg_files os dir b pss" and "list_all payload_ok (concat pss)" and "lo < 2 ^ 64 - 1"
    and "replay_loop dir lo fn (seg_bases b pss) s os = (Inr s', os')"
  shows "replay_from lo fn b (concat pss) s = Inr s' \<and> dirs os' = dirs os"
  using assms
proof (induction pss arbitrary: b s os)
  case (Cons ps pss)
  let ?next = "case seg_bases (b + length ps) pss of [] \<Rightarrow> 2 ^ 64 - 1 | c # _ \<Rightarrow> c"
  have nxt: "pss \<noteq> [] \<Longrightarrow> ?next = b + length ps" "pss = [] \<Longrightarrow> ?next = 2 ^ 64 - 1"
    by (cases pss; simp)+
  show ?case
  proof (cases "?next \<le> lo")
    case True
    then have "pss \<noteq> []" using nxt Cons.prems(3) by auto
    with True nxt have "b + length ps \<le> lo" by simp
    moreover have "replay_loop dir lo fn (seg_bases (b + length ps) pss) s os = (Inr s', os')"
      using Cons.prems(4) True by (simp add: Let_def)
    ultimately show ?thesis
      using Cons.IH [of os "b + length ps" s] Cons.prems
      by (simp add: replay_from_append replay_from_skip)
  next
    case False
    obtain f where f: "file_at os dir (segmentName b) = Some f" "fdata f = frames ps"
      using Cons.prems(1) by auto
    obtain r1 os1 where op: "os_open os dir (segmentName b) = (r1, os1)" by fastforce
    note d1 = os_open_dirs [OF op]
    obtain data rdfail os2 where rd: "os_read os1 dir (segmentName b) = (data, rdfail, os2)"
      by (rule prod_cases3)
    have f1: "file_at os1 dir (segmentName b) = Some f" using f by (simp add: file_at_dirs_cong [OF d1])
    obtain k where k: "data = take k (frames ps)" "\<not> rdfail \<Longrightarrow> length (frames ps) \<le> k" "dirs os2 = dirs os1"
      by (rule os_read_cases [OF rd f1]) (simp add: f(2))
    obtain v c r n t where sc:
      "scanRecords (take k (frames ps)) rdfail (replay_fn lo b fn) (0, s) 0 0 = (v, c, r, (n, t))"
      by (rule prod_cases5)
    have "r = None" and rest: "replay_loop dir lo fn (seg_bases (b + length ps) pss) t os2 = (Inr s', os')"
      using Cons.prems(4) False op rd k(1) sc
      by (simp_all add: Let_def split: option.splits scan_err.splits)
    moreover from this have "replay_from lo fn b ps s = Inr t"
      using replay_segment(1) [OF _ sc k(2)] Cons.prems(2) by simp
    moreover have "seg_files os2 dir (b + length ps) pss"
      using Cons.prems(1) by (simp add: seg_files_cong [OF k(3)] seg_files_cong [OF d1])
    ultimately show ?thesis
      using Cons.IH [of os2 "b + length ps" t] Cons.prems(2,3) k(3) d1
      by (simp add: replay_from_append)
  qed
qed simp

fun replay_result :: "'e + 's \<Rightarrow> 'e replay_err + 's" where
  "replay_result (Inl e) = Inl (ReplayFn e)"
| "replay_result (Inr s) = Inr s"

text \<open>On a healthy disk replay never fails by itself: its only errors are the callback's.\<close>

lemma replay_loop_healthy:
  assumes "seg_files os dir b pss" and "list_all payload_ok (concat pss)" and "lo < 2 ^ 64 - 1"
    and "faults os = []"
  shows "replay_loop dir lo fn (seg_bases b pss) s os =
    (replay_result (replay_from lo fn b (concat pss) s), os)"
  using assms
proof (induction pss arbitrary: b s)
  case (Cons ps pss)
  let ?next = "case seg_bases (b + length ps) pss of [] \<Rightarrow> 2 ^ 64 - 1 | c # _ \<Rightarrow> c"
  have nxt: "pss \<noteq> [] \<Longrightarrow> ?next = b + length ps" "pss = [] \<Longrightarrow> ?next = 2 ^ 64 - 1"
    by (cases pss; simp)+
  have IH: "replay_loop dir lo fn (seg_bases (b + length ps) pss) t os =
      (replay_result (replay_from lo fn (b + length ps) (concat pss) t), os)" for t
    using Cons.IH [of "b + length ps" t] Cons.prems by (simp only: seg_files.simps concat.simps list_all_append simp_thms)
  show ?case
  proof (cases "?next \<le> lo")
    case True
    then have "pss \<noteq> []" using nxt Cons.prems(3) by auto
    with True nxt have "b + length ps \<le> lo" by simp
    with True IH show ?thesis by (simp add: Let_def replay_from_append replay_from_skip)
  next
    case False
    obtain f where f: "file_at os dir (segmentName b) = Some f" "fdata f = frames ps"
      using Cons.prems(1) by auto
    have op: "os_open os dir (segmentName b) = (None, os)"
      and rd: "os_read os dir (segmentName b) = (take (length (frames ps)) (frames ps), False, os)"
      using f Cons.prems(4) by (simp_all add: os_open_def os_read_def)
    obtain v c r n t where sc: "scanRecords (take (length (frames ps)) (frames ps)) False
        (replay_fn lo b fn) (0, s) 0 0 = (v, c, r, (n, t))"
      by (rule prod_cases5)
    have ok: "list_all payload_ok ps" using Cons.prems(2) by simp
    note seg = replay_segment [OF ok sc order_refl]
    show ?thesis
    proof (cases "replay_from lo fn b ps s")
      case (Inl e)
      with seg(4) have "r = Some (FnErr e)" by simp
      with Inl False op rd sc show ?thesis
        by (simp add: Let_def replay_from_append)
    next
      case (Inr u)
      with seg(1,3) have "r = None" "u = t" by auto
      with Inr False op rd sc IH show ?thesis
        by (simp add: Let_def replay_from_append)
    qed
  qed
qed simp

lemma wal_rel_seg_files:
  assumes "wal_rel w os b old cur" and "buf w = []"
  shows "seg_files os (wdir w) b (old @ [cur])"
  using assms by (auto simp: wal_rel_def Let_def seg_files_append sealed_segs_files active_seg_def)

lemma replay_rel:
  assumes rel: "log_rel w os b rs d" and lo: "lo < 2 ^ 64 - 1"
    and rep: "wal_Replay w os lo fn s = (Inr s', w', os')"
  shows "replay_from lo fn b rs s = Inr s' \<and> log_rel w' os' b rs d \<and> wdir w' = wdir w"
proof -
  obtain old cur where r: "wal_rel w os b old cur" "rs = concat old @ cur" "d = durable_count w os old cur"
    using rel by (auto simp: log_rel_def)
  have "\<not> closed w" using r(1) by (simp add: wal_rel_def Let_def)
  with rep obtain os1 where fl: "flushBufferLocked w os = (None, w', os1)"
    and loop: "replay_loop (wdir w') lo fn (bases w') s os1 = (Inr s', os')"
    by (auto simp: wal_Replay_def split: prod.splits option.splits)
  note f = flush_rel [OF r(1) fl]
  have b: "bases w' = seg_bases b (old @ [cur])" and ok: "list_all payload_ok (concat (old @ [cur]))"
    using f(1) by (simp_all add: wal_rel_def Let_def)
  from replay_loop_Inr [OF wal_rel_seg_files [OF f(1,2)] ok lo, folded b, OF loop]
  have *: "replay_from lo fn b rs s = Inr s'" "dirs os' = dirs os1" using r(2) by simp_all
  have "wal_rel w' os' b old cur"
    using f(1) by (simp add: wal_rel_cong [OF *(2)])
  moreover have "durable_count w' os' old cur = d"
    unfolding wal_rel_cong(2) [OF *(2)]
    using f(3,4) r(3) by (auto simp: durable_count_def split: option.splits)
  ultimately show ?thesis using r(2) *(1) f(3) by (auto simp: log_rel_def)
qed

section \<open>Recovery after a crash\<close>

lemma crash_sealed_segs:
  assumes "sealed_segs os dir b old" and "crash os os'"
  shows "sealed_segs os' dir b old"
  using assms(1)
proof (rule sealed_segs_mono)
  fix x f assume f: "file_at os dir (segmentName x) = Some f" "flinked f" "fsynced f = length (fdata f)"
  obtain f' where "file_at os' dir (segmentName x) = Some f'" "crash_file f f'"
    using assms(2) f(1,2) by (rule crash_linked_file)
  with f show "\<exists>f'. file_at os' dir (segmentName x) = Some f' \<and> fdata f' = fdata f \<and>
    fsynced f' = fsynced f \<and> flinked f'"
    by (auto simp: crash_file_def)
qed

lemma crash_dir_ok:
  assumes "dir_ok os dir B" and "crash os os'"
  shows "dir_ok os' dir B"
  unfolding dir_ok_def
proof (rule conjI, goal_cases names rest)
  case names
  show "distinct (map fst (dirs os' dir))" using assms(2) by (simp add: crash_def)
next
  case rest
  show ?case
  proof (intro allI impI)
  fix n e' b assume e': "map_of (dirs os' dir) n = Some e' \<and> segment_base (n, e') = Some b"
  obtain e where e: "map_of (dirs os dir) n = Some e"
    using e' crash_absent [OF assms(2), of dir n] by (cases "map_of (dirs os dir) n") auto
  have "crash_entry e (Some e')"
    using assms(2) e e' unfolding crash_def by (metis option.simps(5))
  then have "segment_base (n, e') = segment_base (n, e)"
    by (cases e) (auto simp: crash_entry_def segment_base_def eq_commute [of "Some e'"])
  with e e' assms(1) show "n = segmentName b \<and> b \<in> B"
    unfolding dir_ok_def by metis
  qed
qed

lemma crash_active_seg:
  assumes "active_seg os dir ab cur pending" and "crash os os'"
    and "file_at os dir (segmentName ab) = Some f"
  obtains f' k where "file_at os' dir (segmentName ab) = Some f'" "fdata f' = take k (frames cur)"
    "fsynced f \<le> fsynced f'" "fsynced f' \<le> k" "k \<le> length (frames cur)" "\<not> flost f'" "flinked f'"
proof -
  have f: "fdata f @ pending = frames cur" "\<not> flost f" "flinked f"
    using assms(1,3) by (auto simp: active_seg_def)
  obtain f' where f': "file_at os' dir (segmentName ab) = Some f'" "crash_file f f'"
    using assms(2,3) f(3) by (rule crash_linked_file)
  then obtain k where k: "fsynced f \<le> fsynced f'" "fsynced f' \<le> k" "k \<le> length (fdata f)"
    "fdata f' = take k (fdata f)" "\<not> flost f'" "flinked f'"
    using f by (auto simp: crash_file_def)
  have "take k (fdata f) = take k (frames cur)" "k \<le> length (frames cur)"
    using k(3) by (simp_all flip: f(1))
  with f' k show thesis by (intro that) simp_all
qed

lemma distinct_map_filter:
  assumes "distinct xs" and "\<And>x y b. x \<in> set xs \<Longrightarrow> y \<in> set xs \<Longrightarrow> g x = Some b \<Longrightarrow> g y = Some b \<Longrightarrow> x = y"
  shows "distinct (List.map_filter g xs)"
  using assms
proof (induction xs)
  case (Cons x xs)
  then have "distinct (List.map_filter g xs)" by simp
  moreover have "g x = Some b \<Longrightarrow> b \<notin> set (List.map_filter g xs)" for b
    using Cons.prems by (fastforce simp: List.map_filter_def)
  ultimately show ?case by (simp add: List.map_filter_simps split: option.splits)
qed (simp add: List.map_filter_simps)

lemma listSegments_rel:
  assumes ok: "dir_ok os dir (set bs)" and bs: "sorted bs" "distinct bs"
    and files: "\<And>b. b \<in> set bs \<Longrightarrow> b < 2 ^ 64 \<and> file_at os dir (segmentName b) \<noteq> None"
    and ls: "listSegments os dir = (r, os')"
  shows "(\<exists>e. r = Inl e) \<or> r = Inr bs" and "dirs os' = dirs os"
proof -
  obtain x os1 where step: "io_plain os = (x, os1)" by fastforce
  note same = io_plain_dirs [OF step]
  show "dirs os' = dirs os"
    using ls step same by (auto simp: listSegments_def os_readdir_def split: option.splits)
  define L where "L = List.map_filter segment_base (sort_key fst (dirs os dir))"
  have d: "distinct (map fst (dirs os dir))" using ok by (simp add: dir_ok_def)
  have base: "(n, e) \<in> set (dirs os dir) \<Longrightarrow> segment_base (n, e) = Some b \<Longrightarrow> n = segmentName b \<and> b \<in> set bs" for n e b
    using ok d by (auto simp: dir_ok_def)
  have "distinct (dirs os dir)" using d by (simp add: distinct_map)
  then have "distinct (sort_key fst (dirs os dir))" by simp
  moreover have "x = y" if "x \<in> set (dirs os dir)" "y \<in> set (dirs os dir)"
    "segment_base x = Some b" "segment_base y = Some b" for x y b
    using that base d by (metis eq_key_imp_eq_value prod.collapse)
  ultimately have "distinct L"
    unfolding L_def by (intro distinct_map_filter) auto
  moreover have "set L = set bs"
  proof
    show "set L \<subseteq> set bs" using base by (auto simp: L_def List.map_filter_def)
    show "set bs \<subseteq> set L"
    proof
      fix b assume b: "b \<in> set bs"
      then obtain f where "map_of (dirs os dir) (segmentName b) = Some (RegFile f)"
        using files [OF b] by (auto simp: file_at_def split: option.splits dirent.splits)
      then have "(segmentName b, RegFile f) \<in> set (dirs os dir)" by (rule map_of_SomeD)
      moreover have "segment_base (segmentName b, RegFile f) = Some b"
        using files [OF b] by (simp add: segment_base_name del: power_numeral)
      ultimately show "b \<in> set L"
        by (force simp: L_def List.map_filter_def)
    qed
  qed
  ultimately have "sort L = bs"
    using bs by (intro sorted_distinct_set_unique) simp_all
  then show "(\<exists>e. r = Inl e) \<or> r = Inr bs"
    using ls step same by (auto simp: listSegments_def os_readdir_def L_def split: option.splits)
qed

lemma fn_fold_scan_count: "fn_fold scan_count ps () = Inr ()"
  by (induction ps) (simp_all add: scan_count_def)

text \<open>The log record \<^verbatim>\<open>Open\<close> builds for a segment with the given valid prefix.\<close>

definition opened :: "wal \<Rightarrow> nat \<Rightarrow> nat \<Rightarrow> nat \<Rightarrow> wal" where
  "opened w base validEnd cnt =
     w\<lparr>active := segmentName base, active_open := True, activeBase := base,
       activeSize := int validEnd, nextLSN := base + cnt\<rparr>"

lemma opened_rel:
  assumes "sealed_segs os (wdir w) b old" and "dir_ok os (wdir w) (set (bases w))"
    and "bases w = seg_bases b (old @ [cur])" "buf w = []" "\<not> closed w"
    and "list_all payload_ok (concat old @ ps)" and ab: "ab = b + length (concat old)"
    and "file_at os (wdir w) (segmentName ab) = Some f" "fdata f = frames ps"
      "fsynced f \<le> length (fdata f)" "\<not> flost f" "flinked f"
  shows "wal_rel (opened w ab (length (frames ps)) (length ps)) os b old ps"
proof -
  have "bases w = seg_bases b (old @ [ps])" using assms(3) by (simp add: seg_bases_append)
  with assms show ?thesis by (simp add: wal_rel_def opened_def active_seg_def)
qed

lemma open_last_rel:
  fixes w :: wal
  defines "dir \<equiv> wdir w"
  assumes sealed: "sealed_segs os dir b old" and ok: "dir_ok os dir (set (bases w))"
    and w: "bases w = seg_bases b (old @ [cur])" "buf w = []" "\<not> closed w"
    and pay: "list_all payload_ok (concat old @ cur)" and ab: "ab = b + length (concat old)"
    and f: "file_at os dir (segmentName ab) = Some f" "fdata f = take k (frames cur)"
      "k \<le> length (frames cur)" "fsynced f \<le> k" "\<not> flost f" "flinked f"
    and op: "open_last w os ab = (Inr w', os')"
  shows "wal_rel w' os' b old (whole k cur) \<and> wdir w' = dir \<and>
    (\<exists>g. file_at os' dir (segmentName ab) = Some g \<and>
       (fsynced g = fsynced f \<and> k = length (frames (whole k cur)) \<or>
        fsynced g = length (frames (whole k cur))))"
proof -
  let ?v = "length (frames (whole k cur))"
  let ?n = "length (whole k cur)"
  let ?w = "opened w ab ?v ?n"
  obtain os1 where o1: "os_open os dir (segmentName ab) = (None, os1)"
    using op by (auto simp: open_last_def Let_def dir_def split: prod.splits option.splits)
  note d1 = os_open_dirs [OF o1]
  obtain data rdfail os2 where rd: "os_read os1 dir (segmentName ab) = (data, rdfail, os2)"
    by (rule prod_cases3)
  have f1: "file_at os1 dir (segmentName ab) = Some f"
    using f(1) by (simp add: file_at_dirs_cong [OF d1])
  obtain j where j: "data = take j (take k (frames cur))" "\<not> rdfail \<Longrightarrow> length (fdata f) \<le> j"
    "dirs os2 = dirs os1"
    by (rule os_read_cases [OF rd f1]) (simp add: f(2))
  obtain v c r u where sc: "scanRecords data rdfail scan_count () 0 0 = (v, c, r, u)"
    by (rule prod_cases4)
  have pc: "list_all payload_ok cur" using pay by simp
  have r: "r = read_end rdfail"
    using sc j(1) scan_torn_log [OF pc fn_fold_scan_count, of "min j k" rdfail 0 0]
    by (simp add: take_take min.commute)
  have "r = None"
    using op o1 rd sc by (auto simp: open_last_def Let_def dir_def split: prod.splits option.splits)
  then have "\<not> rdfail" using r by (auto split: if_splits)
  then have "data = take k (frames cur)" using j(1,2) f(2,3) by simp
  then have vc: "v = ?v" "c = ?n"
    using sc scan_torn_log [OF pc fn_fold_scan_count, of k rdfail 0 0] by auto
  obtain x os3 where st: "io_plain os2 = (x, os3)" by fastforce
  note d3 = io_plain_dirs [OF st]
  have x: "x = None"
    using op o1 rd sc \<open>r = None\<close> st
    by (auto simp: open_last_def Let_def dir_def split: prod.splits option.splits)
  have same: "dirs os3 = dirs os" using d3 j(3) d1 by simp
  have f3: "file_at os3 dir (segmentName ab) = Some f"
    using f(1) by (simp add: file_at_dirs_cong [OF same])
  have sz: "length (fdata f) = k" using f(2,3) by simp
  have vle: "?v \<le> k" by (rule frames_whole_length)
  have tk: "take ?v (fdata f) = frames (whole k cur)"
    using vle f(2) take_frames_whole [of k cur] by (simp add: min.absorb1)
  have segs3: "sealed_segs os3 dir b old" and ok3: "dir_ok os3 dir (set (bases w))"
    using sealed ok by (simp_all add: sealed_segs_cong [OF same] dir_ok_cong [of os3 _ os] same)
  have pw: "list_all payload_ok (concat old @ whole k cur)" using pay by (simp add: list_all_whole)
  have dir_w: "wdir ?w = dir" by (simp add: opened_def dir_def)
  show ?thesis
  proof (cases "?v < k")
    case True
    let ?g = "f\<lparr>fdata := take ?v (fdata f), fsynced := min ?v (fsynced f)\<rparr>"
    obtain os4 os5 where tr: "os_truncate os3 dir (segmentName ab) ?v = (None, os4)"
      and fs: "fullSync os4 dir (segmentName ab) = (None, os5)"
      and sk: "io_plain os5 = (None, os')" "w' = ?w"
      using op o1 rd sc \<open>r = None\<close> vc st x f3 sz True
      by (auto simp: open_last_def Let_def dir_def opened_def split: prod.splits option.splits)
    obtain os3' where os4: "dirs os3' = dirs os3" "os4 = set_file os3' dir (segmentName ab) ?g"
      using tr f3 by (rule os_truncate_None)
    note fa = file_at_dirs_cong [OF os4(1)]
    have segs4: "sealed_segs os4 dir b old"
      using segs3 ab by (rule sealed_segs_other) (simp add: os4(2) fa)
    have ok4: "dir_ok os4 dir (set (bases w))"
      unfolding os4(2) using ok3 os4(1) f3
      by (intro dir_ok_set_file) (simp_all add: dir_ok_cong [of os3' _ os3] fa)
    have rel4: "wal_rel ?w os4 b old (whole k cur)"
      using segs4 ok4 w pw ab f tk
      by (intro opened_rel [where f = ?g]) (simp_all add: dir_def [symmetric] os4(2))
    have "sync_active ?w os4 = (None, os5)"
      using fs by (simp add: sync_active_def opened_def dir_def)
    moreover have "buf ?w = []" using w(2) by (simp add: opened_def)
    ultimately have rel5: "wal_rel ?w os5 b old (whole k cur)"
      and "\<exists>g. file_at os5 dir (segmentName ab) = Some g \<and> fsynced g = ?v"
      using sync_active_rel [OF rel4] by (auto simp: opened_def dir_def)
    moreover note d' = io_plain_dirs [OF sk(1)]
    ultimately show ?thesis
      using sk(2) dir_w by (auto simp: wal_rel_cong [OF d'] file_at_dirs_cong [OF d'])
  next
    case False
    then have vk: "?v = k" using vle by simp
    have sk: "io_plain os3 = (None, os')" "w' = ?w"
      using op o1 rd sc \<open>r = None\<close> vc st x f3 sz False
      by (auto simp: open_last_def Let_def dir_def opened_def split: prod.splits option.splits)
    have "fdata f = frames (whole k cur)" using tk vk sz by simp
    then have "wal_rel ?w os3 b old (whole k cur)"
      using segs3 ok3 w pw ab f f3 sz
      by (intro opened_rel [where f = f]) (simp_all add: dir_def [symmetric])
    moreover note d' = io_plain_dirs [OF sk(1)]
    ultimately show ?thesis
      using sk(2) dir_w f3 vk by (auto simp: wal_rel_cong [OF d'] file_at_dirs_cong [OF d'])
  qed
qed

lemma seg_bases_bound:
  assumes "sealed_segs os dir b old" and "x \<in> set (seg_bases b (old @ [cur]))"
  shows "x \<le> b + length (concat old)"
  using assms seg_bases_less [of os dir b old x] by (auto simp: seg_bases_append)

lemma sealed_segs_file:
  "sealed_segs os dir b old \<Longrightarrow> x \<in> set (seg_bases b old) \<Longrightarrow> file_at os dir (segmentName x) \<noteq> None"
  by (induction old arbitrary: b) (auto simp: sealed_seg_def)

text \<open>
  Reopening after a crash: no sealed record is lost, the active segment keeps the
  records that lie wholly within what the crash left, and in particular every record
  that was on stable storage.
\<close>

lemma open_after_crash:
  assumes rel: "log_rel w os b rs d" and cr: "crash os os1" and lim: "b + length rs < 2 ^ 64"
    and ne: "wdir w \<noteq> []"
    and op: "wal_Open \<lparr>optDir = wdir w, optMaxSegmentSize = m\<rparr> os1 = (Inr w', os')"
  shows "\<exists>n d'. d \<le> d' \<and> d' \<le> n \<and> n \<le> length rs \<and> wdir w' = wdir w \<and> log_rel w' os' b (take n rs) d'"
proof -
  let ?dir = "wdir w"
  obtain old cur where r: "wal_rel w os b old cur" "rs = concat old @ cur" "d = durable_count w os old cur"
    using rel by (auto simp: log_rel_def)
  let ?ab = "b + length (concat old)"
  obtain f where f: "file_at os ?dir (segmentName ?ab) = Some f"
    using r(1) by (auto simp: wal_rel_def Let_def active_seg_def)
  have act: "active_seg os ?dir ?ab cur (buf w)" and sealed: "sealed_segs os ?dir b old"
    and pay: "list_all payload_ok (concat old @ cur)" and bs: "bases w = seg_bases b (old @ [cur])"
    and name: "active w = segmentName ?ab"
    using r(1) unfolding wal_rel_def Let_def by blast+
  have ok: "dir_ok os ?dir (set (seg_bases b (old @ [cur])))"
    using r(1) unfolding wal_rel_def Let_def by metis
  obtain f' k where f': "file_at os1 ?dir (segmentName ?ab) = Some f'" "fdata f' = take k (frames cur)"
    "fsynced f \<le> fsynced f'" "fsynced f' \<le> k" "k \<le> length (frames cur)" "\<not> flost f'" "flinked f'"
    using act cr f by (rule crash_active_seg)
  note segs1 = crash_sealed_segs [OF sealed cr] and ok1 = crash_dir_ok [OF ok cr]
  obtain x os2 where st: "io_plain os1 = (x, os2)" by fastforce
  note d2 = io_plain_dirs [OF st]
  obtain q os3 where ls: "listSegments os2 ?dir = (q, os3)" by fastforce
  have files: "y < 2 ^ 64 \<and> file_at os2 ?dir (segmentName y) \<noteq> None"
    if "y \<in> set (seg_bases b (old @ [cur]))" for y
  proof
    show "y < 2 ^ 64" using seg_bases_bound [OF sealed that] lim r(2) by simp
    show "file_at os2 ?dir (segmentName y) \<noteq> None"
      using that sealed_segs_file [OF segs1, of y] f'(1)
      by (auto simp: file_at_dirs_cong [OF d2] seg_bases_append)
  qed
  have ok2: "dir_ok os2 ?dir (set (seg_bases b (old @ [cur])))"
    using ok1 d2 by (simp add: dir_ok_cong [of os2 _ os1])
  note l = listSegments_rel [OF ok2 _ _ files ls]
  have q: "q = Inr (seg_bases b (old @ [cur]))" and d3: "dirs os3 = dirs os2"
    using l seg_bases_sorted [OF sealed, of cur] op st ls ne
    by (auto simp: wal_Open_def Let_def split: option.splits)
  define w0 where "w0 = \<lparr>wdir = ?dir,
    maxSegmentSize = (if m \<le> 0 then DefaultMaxSegmentSize else m), active = [],
    active_open = False, closed = False, buf = [], bases = seg_bases b (old @ [cur]),
    activeBase = 0, activeSize = 0, nextLSN = 0\<rparr>"
  have ol: "open_last w0 os3 ?ab = (Inr w', os')"
    using op st ls q ne
    by (auto simp: wal_Open_def Let_def w0_def seg_bases_last split: option.splits if_splits)
  have same: "dirs os3 = dirs os1" using d3 d2 by simp
  have "wal_rel w' os' b old (whole k cur) \<and> wdir w' = wdir w0 \<and>
    (\<exists>g. file_at os' (wdir w0) (segmentName ?ab) = Some g \<and>
       (fsynced g = fsynced f' \<and> k = length (frames (whole k cur)) \<or>
        fsynced g = length (frames (whole k cur))))"
  proof (rule open_last_rel [OF _ _ _ _ _ pay refl _ f'(2,5,4,6,7) ol])
    show "sealed_segs os3 (wdir w0) b old" using segs1 by (simp add: w0_def sealed_segs_cong [OF same])
    show "dir_ok os3 (wdir w0) (set (bases w0))"
      using ok1 same by (simp add: w0_def dir_ok_cong [of os3 _ os1])
    show "file_at os3 (wdir w0) (segmentName ?ab) = Some f'"
      using f'(1) by (simp add: w0_def file_at_dirs_cong [OF same])
  qed (simp_all add: w0_def)
  then obtain g where g: "file_at os' ?dir (segmentName ?ab) = Some g"
    "fsynced g = fsynced f' \<and> k = length (frames (whole k cur)) \<or> fsynced g = length (frames (whole k cur))"
    and rel': "wal_rel w' os' b old (whole k cur)" and wd: "wdir w' = ?dir"
    by (auto simp: w0_def)
  have an: "active w' = segmentName ?ab" using rel' by (simp add: wal_rel_def Let_def)
  let ?n = "length (concat old) + length (whole k cur)"
  have "durable_count w os old cur \<le> durable_count w' os' old (whole k cur)"
  proof -
    have "length (whole (fsynced f) cur) \<le> length (whole (fsynced g) (whole k cur))"
      using g(2) whole_mono [of "fsynced f" "fsynced f'" cur] whole_mono [of "fsynced f" k cur] f'
      by (auto simp: whole_whole whole_all dest: prefix_length_le)
    then show ?thesis using f g(1) wd an name by (simp add: durable_count_def)
  qed
  moreover have "durable_count w' os' old (whole k cur) \<le> ?n"
    using durable_count_le [of w' os' old "whole k cur"] by simp
  moreover have "take ?n rs = concat old @ whole k cur"
    using r(2) whole_take [of k cur] by simp
  moreover have "?n \<le> length rs" using r(2) length_whole_le by simp
  ultimately show ?thesis
    using rel' wd r(3) by (intro exI [of _ ?n] exI [of _ "durable_count w' os' old (whole k cur)"])
      (auto simp: log_rel_def)
qed

section \<open>Truncation\<close>

text \<open>
  \<open>truncated os os' dir B\<close>: the files of the segments \<open>B\<close> are gone and nothing else
  happened to the directory.
\<close>

definition truncated :: "os \<Rightarrow> os \<Rightarrow> string \<Rightarrow> nat set \<Rightarrow> bool" where
  "truncated os os' dir B \<longleftrightarrow>
     (\<forall>n. map_of (dirs os' dir) n = (if n \<in> segmentName ` B then None else map_of (dirs os dir) n)) \<and>
     (distinct (map fst (dirs os dir)) \<longrightarrow> distinct (map fst (dirs os' dir)))"

lemma truncated_refl: "dirs os' = dirs os \<Longrightarrow> truncated os os' dir {}"
  by (simp add: truncated_def)

lemma truncated_trans:
  "truncated os os1 dir A \<Longrightarrow> truncated os1 os2 dir B \<Longrightarrow> truncated os os2 dir (A \<union> B)"
  by (auto simp: truncated_def image_Un)

lemma truncated_file_at:
  "truncated os os' dir B \<Longrightarrow>
     file_at os' dir n = (if n \<in> segmentName ` B then None else file_at os dir n)"
  by (simp add: truncated_def file_at_def)

lemma truncated_dir_ok:
  "truncated os os' dir B \<Longrightarrow> dir_ok os dir C \<Longrightarrow> dir_ok os' dir (C - B)"
  by (fastforce simp: truncated_def dir_ok_def split: if_splits)

lemma os_remove_truncated:
  assumes "os_remove os dir (segmentName b) = (r, os')" and "r = None \<or> r = Some ENOENT"
  shows "truncated os os' dir {b}"
proof -
  obtain x os1 where st: "io_plain os = (x, os1)" by fastforce
  note d1 = io_plain_dirs [OF st]
  have "truncated os (del_entry os1 dir (segmentName b)) dir {b}"
    using d1 by (simp add: truncated_def del_entry_def delete_conv' distinct_delete)
  moreover have "map_of (dirs os1 dir) (segmentName b) = None \<Longrightarrow> truncated os os1 dir {b}"
    using d1 by (simp add: truncated_def)
  ultimately show ?thesis
    using assms st by (auto simp: os_remove_def split: option.splits if_splits)
qed

text \<open>The loop removes a prefix of the sealed segments, every record of which precedes \<open>lsn\<close>.\<close>

lemma truncate_loop_rel:
  assumes "truncate_loop dir lsn (seg_bases b (old @ [cur])) k os = (None, k', os')"
  shows "\<exists>gone kept. old = gone @ kept \<and> k' = k + length gone \<and>
    (gone \<noteq> [] \<longrightarrow> b + length (concat gone) \<le> lsn) \<and>
    (kept \<noteq> [] \<longrightarrow> lsn < b + length (concat gone) + length (hd kept)) \<and>
    truncated os os' dir (set (seg_bases b gone))"
  using assms
proof (induction old arbitrary: b k os)
  case Nil
  then show ?case by (simp add: truncated_refl)
next
  case (Cons ps old)
  obtain c bs where c: "seg_bases (b + length ps) (old @ [cur]) = c # bs" "c = b + length ps"
    by (cases old) simp_all
  show ?case
  proof (cases "lsn < c")
    case True
    with Cons.prems c have "k' = k" "os' = os" by simp_all
    then show ?thesis
      using True c(2) by (intro exI [of _ "[]"] exI [of _ "ps # old"]) (simp add: truncated_refl)
  next
    case False
    obtain r os1 where rm: "os_remove os dir (segmentName b) = (r, os1)" by fastforce
    have r: "r = None \<or> r = Some ENOENT"
      using Cons.prems c False rm by (auto split: option.splits if_splits)
    have "truncate_loop dir lsn (seg_bases (b + length ps) (old @ [cur])) (k + 1) os1 = (None, k', os')"
      using Cons.prems c False rm r by (auto split: option.splits if_splits)
    from Cons.IH [OF this] obtain gone kept where IH: "old = gone @ kept" "k' = k + 1 + length gone"
      "gone \<noteq> [] \<longrightarrow> b + length ps + length (concat gone) \<le> lsn"
      "kept \<noteq> [] \<longrightarrow> lsn < b + length ps + length (concat gone) + length (hd kept)"
      "truncated os1 os' dir (set (seg_bases (b + length ps) gone))"
      by blast
    have "truncated os os' dir (set (seg_bases b (ps # gone)))"
      using truncated_trans [OF os_remove_truncated [OF rm r] IH(5)] by simp
    then show ?thesis
      using IH False c(2) by (intro exI [of _ "ps # gone"] exI [of _ kept]) (auto simp: add.assoc)
  qed
qed

lemma seg_bases_length [simp]: "length (seg_bases b pss) = length pss"
  by (induction pss arbitrary: b) simp_all

lemma wal_rel_truncated:
  assumes rel: "wal_rel w os b (gone @ kept) cur"
    and tr: "truncated os os' (wdir w) (set (seg_bases b gone))"
  shows "wal_rel (w\<lparr>bases := drop (length gone) (bases w)\<rparr>) os' (b + length (concat gone)) kept cur"
proof -
  let ?b = "b + length (concat gone)" and ?G = "set (seg_bases b gone)"
  have sealed: "sealed_segs os (wdir w) b (gone @ kept)"
    and bs: "bases w = seg_bases b (gone @ kept @ [cur])"
    and act: "active_seg os (wdir w) (?b + length (concat kept)) cur (buf w)"
    using rel unfolding wal_rel_def Let_def by (simp_all add: add.assoc)
  have ok: "dir_ok os (wdir w) (set (bases w))"
    using rel unfolding wal_rel_def Let_def by blast
  have segs: "sealed_segs os (wdir w) b gone" "sealed_segs os (wdir w) ?b kept"
    using sealed by (simp_all add: sealed_segs_append)
  have below: "x < ?b" if "x \<in> ?G" for x using segs(1) that by (rule seg_bases_less)
  have keep: "file_at os' (wdir w) (segmentName x) = file_at os (wdir w) (segmentName x)" if "?b \<le> x" for x
    using below [of x] that by (auto simp: truncated_file_at [OF tr])
  have "drop (length gone) (bases w) = seg_bases ?b (kept @ [cur])"
    using bs by (simp add: seg_bases_append)
  moreover have "sealed_segs os' (wdir w) ?b kept"
    using segs(2) by (rule sealed_segs_mono) (auto dest!: seg_bases_ge simp: keep)
  moreover have "active_seg os' (wdir w) (?b + length (concat kept)) cur (buf w)"
    using act by (simp add: active_seg_def keep)
  moreover have "dir_ok os' (wdir w) (set (seg_bases ?b (kept @ [cur])))"
    using truncated_dir_ok [OF tr ok] by (rule dir_ok_mono) (auto simp: bs seg_bases_append)
  ultimately show ?thesis using rel by (simp add: wal_rel_def Let_def add.assoc)
qed

lemma wal_rel_link_dir:
  assumes rel: "wal_rel w os b old cur"
  shows "wal_rel w (link_dir os (wdir w)) b old cur"
    and "durable_count w (link_dir os (wdir w)) old cur = durable_count w os old cur"
proof -
  have sealed: "sealed_segs os (wdir w) b old" and ok: "dir_ok os (wdir w) (set (bases w))"
    and act: "active_seg os (wdir w) (b + length (concat old)) cur (buf w)"
    using rel unfolding wal_rel_def Let_def by blast+
  have "sealed_segs (link_dir os (wdir w)) (wdir w) b old"
    using sealed by (rule sealed_segs_mono) simp
  moreover have "active_seg (link_dir os (wdir w)) (wdir w) (b + length (concat old)) cur (buf w)"
    using act by (auto simp: active_seg_def)
  ultimately show "wal_rel w (link_dir os (wdir w)) b old cur"
    using rel dir_ok_link_dir [OF ok] unfolding wal_rel_def Let_def by blast
  show "durable_count w (link_dir os (wdir w)) old cur = durable_count w os old cur"
    by (auto simp: durable_count_def split: option.splits)
qed

lemma truncate_rel:
  assumes rel: "log_rel w os b rs d" and tr: "wal_TruncateBefore w os lsn = (None, w', os')"
  shows "\<exists>n. b + n \<le> max b lsn \<and> n \<le> d \<and> wdir w' = wdir w \<and> log_rel w' os' (b + n) (drop n rs) (d - n)"
proof -
  obtain old cur where r: "wal_rel w os b old cur" "rs = concat old @ cur" "d = durable_count w os old cur"
    using rel by (auto simp: log_rel_def)
  have cl: "\<not> closed w" and bs: "bases w = seg_bases b (old @ [cur])"
    using r(1) unfolding wal_rel_def Let_def by blast+
  obtain k os1 where loop: "truncate_loop (wdir w) lsn (bases w) 0 os = (None, k, os1)"
    using tr cl by (auto simp: wal_TruncateBefore_def Let_def split: prod.splits option.splits if_splits)
  obtain gone kept where g: "old = gone @ kept" "k = length gone"
    "gone \<noteq> [] \<longrightarrow> b + length (concat gone) \<le> lsn"
    "truncated os os1 (wdir w) (set (seg_bases b gone))"
    using truncate_loop_rel [OF loop [unfolded bs]] by auto
  let ?n = "length (concat gone)" and ?w = "w\<lparr>bases := drop k (bases w)\<rparr>"
  have rel1: "wal_rel ?w os1 (b + ?n) kept cur"
    using wal_rel_truncated [OF r(1) [unfolded g(1)] g(4)] g(2) by simp
  have fa: "file_at os1 (wdir w) (active w) \<noteq> None"
    using wal_rel_active [OF rel1] by fastforce
  have "file_at os1 (wdir w) (active w) = file_at os (wdir w) (active w)"
    using fa by (simp add: truncated_file_at [OF g(4)] split: if_splits)
  then have dc: "durable_count ?w os1 kept cur = d - ?n" and nd: "?n \<le> d"
    using r(3) g(1) by (simp_all add: durable_count_def)
  have rel2: "wal_rel w' os' (b + ?n) kept cur \<and> durable_count w' os' kept cur = d - ?n \<and> wdir w' = wdir w"
  proof (cases "k = 0")
    case True
    then have "?w = w" by (cases w) simp
    moreover have "w' = w" "os' = os1"
      using True tr cl loop by (simp_all add: wal_TruncateBefore_def)
    ultimately show ?thesis using rel1 dc by simp
  next
    case False
    then have "w' = ?w" "syncDir os1 (wdir w) = (None, os')"
      using tr cl loop by (auto simp: wal_TruncateBefore_def Let_def split: prod.splits option.splits)
    then obtain os2 where os2: "dirs os2 = dirs os1" "os' = link_dir os2 (wdir w)" "w' = ?w"
      by (auto elim!: syncDir_None)
    have "wal_rel ?w os2 (b + ?n) kept cur" "durable_count ?w os2 kept cur = d - ?n"
      using rel1 dc by (simp_all only: wal_rel_cong [OF os2(1)])
    with wal_rel_link_dir [OF this(1)] os2(2,3) show ?thesis by simp
  qed
  moreover have "drop ?n rs = concat kept @ cur" using r(2) g(1) by simp
  moreover have "b + ?n \<le> max b lsn" using g(3) by (cases "gone = []") auto
  ultimately have "log_rel w' os' (b + ?n) (drop ?n rs) (d - ?n)"
    unfolding log_rel_def by metis
  with rel2 nd \<open>b + ?n \<le> max b lsn\<close> show ?thesis by blast
qed

end
