(* ===== verification/Cv_Log.thy ===== *)
theory Cv_Log
  imports Cv_Wal_Props
begin

text \<open>
  The log as its clients see it.  The locale \<open>durable_log\<close> is the contract between the
  write-ahead log and the store: a log stands for the list of records appended to it, a
  prefix of which is on stable storage.  It is interpreted on the operations of
  \<open>Cv_Wal\<close>.  The rest of the theory shows that the operations succeed on a healthy
  disk and that a refused append changes nothing.
\<close>

section \<open>The contract\<close>

locale durable_log =
  fixes rel :: "'w \<Rightarrow> 'o \<Rightarrow> nat \<Rightarrow> bytes list \<Rightarrow> nat \<Rightarrow> bool"
    and append :: "'w \<Rightarrow> 'o \<Rightarrow> bytes \<Rightarrow> ('e + nat) \<times> 'w \<times> 'o"
    and sync :: "'w \<Rightarrow> 'o \<Rightarrow> 'e option \<times> 'w \<times> 'o"
    and reopen :: "'w \<Rightarrow> 'o \<Rightarrow> 'w \<Rightarrow> 'o \<Rightarrow> bool"
    and replay :: "'w \<Rightarrow> 'o \<Rightarrow> nat \<Rightarrow> (nat \<Rightarrow> bytes \<Rightarrow> 's \<Rightarrow> 'x + 's) \<Rightarrow> 's \<Rightarrow> ('y + 's) \<times> 'w \<times> 'o"
    and truncate :: "'w \<Rightarrow> 'o \<Rightarrow> nat \<Rightarrow> 'e option \<times> 'w \<times> 'o"
    and home :: "'w \<Rightarrow> 'h"
  assumes rel_durable: "rel w os b rs d \<Longrightarrow> d \<le> length rs"
    and append_law: "rel w os b rs d \<Longrightarrow> append w os p = (Inr lsn, w', os') \<Longrightarrow>
      lsn = b + length rs \<and> home w' = home w \<and> (\<exists>d'. d \<le> d' \<and> rel w' os' b (rs @ [p]) d')"
    and sync_law: "rel w os b rs d \<Longrightarrow> sync w os = (None, w', os') \<Longrightarrow>
      rel w' os' b rs (length rs) \<and> home w' = home w"
    and reopen_law: "rel w os b rs d \<Longrightarrow> b + length rs < 2 ^ 64 \<Longrightarrow> reopen w os w' os' \<Longrightarrow>
      \<exists>n d'. d \<le> d' \<and> d' \<le> n \<and> n \<le> length rs \<and> home w' = home w \<and> rel w' os' b (take n rs) d'"
    and replay_law: "rel w os b rs d \<Longrightarrow> lo < 2 ^ 64 - 1 \<Longrightarrow> replay w os lo fn s = (Inr s', w', os') \<Longrightarrow>
      replay_from lo fn b rs s = Inr s' \<and> home w' = home w \<and> rel w' os' b rs d"
    and truncate_law: "rel w os b rs d \<Longrightarrow> truncate w os lsn = (None, w', os') \<Longrightarrow>
      \<exists>n. b + n \<le> max b lsn \<and> n \<le> d \<and> home w' = home w \<and> rel w' os' (b + n) (drop n rs) (d - n)"
begin

text \<open>A run of appends that all succeed, as the store makes between two flushes.\<close>

inductive appends :: "'w \<Rightarrow> 'o \<Rightarrow> bytes list \<Rightarrow> 'w \<Rightarrow> 'o \<Rightarrow> bool" where
  none: "appends w os [] w os"
| more: "append w os p = (Inr l, w1, os1) \<Longrightarrow> appends w1 os1 ps w' os' \<Longrightarrow> appends w os (p # ps) w' os'"

lemma appends_rel:
  assumes "appends w os ps w' os'" and "rel w os b rs d"
  shows "home w' = home w \<and> (\<exists>d'. d \<le> d' \<and> rel w' os' b (rs @ ps) d')"
  using assms
proof (induction arbitrary: rs d rule: appends.induct)
  case (none w os)
  then show ?case by auto
next
  case (more w os p l w1 os1 ps w' os')
  obtain d1 where d1: "d \<le> d1" "rel w1 os1 b (rs @ [p]) d1" "home w1 = home w"
    using append_law [OF more.prems more.hyps(1)] by blast
  obtain d' where "d1 \<le> d'" "rel w' os' b ((rs @ [p]) @ ps) d'" "home w' = home w1"
    using more.IH [OF d1(2)] by blast
  with d1 show ?case by (metis append_Cons append_Nil append_assoc order_trans)
qed

text \<open>Once flushed, appended records survive a crash, all of them and in order.\<close>

lemma synced_appends_survive:
  assumes "rel w os b rs d" and "appends w os ps w1 os1" and "sync w1 os1 = (None, w2, os2)"
    and "reopen w2 os2 w' os'" and "b + length (rs @ ps) < 2 ^ 64"
  shows "rel w' os' b (rs @ ps) (length (rs @ ps))"
proof -
  obtain d1 where "rel w1 os1 b (rs @ ps) d1"
    using appends_rel [OF assms(2,1)] by blast
  then have "rel w2 os2 b (rs @ ps) (length (rs @ ps))" using sync_law [OF _ assms(3)] by blast
  from reopen_law [OF this assms(5,4)] obtain n d' where
    n: "length (rs @ ps) \<le> d'" "d' \<le> n" "n \<le> length (rs @ ps)" "rel w' os' b (take n (rs @ ps)) d'"
    by blast
  then have "n = length (rs @ ps)" "d' = length (rs @ ps)" by simp_all
  with n(4) show ?thesis by simp
qed

lemma synced_appends_replayed:
  assumes "rel w os b rs d" and "appends w os ps w1 os1" and "sync w1 os1 = (None, w2, os2)"
    and "reopen w2 os2 w3 os3" and "b + length (rs @ ps) < 2 ^ 64" and "lo < 2 ^ 64 - 1"
    and "replay w3 os3 lo fn s = (Inr s', w', os')"
  shows "replay_from lo fn b (rs @ ps) s = Inr s'"
  using replay_law [OF synced_appends_survive [OF assms(1-5)] assms(6,7)] by simp

text \<open>Unflushed records are lost from the end only: what is replayed is a prefix.\<close>

lemma unsynced_appends_prefix:
  assumes "rel w os b rs (length rs)" and "appends w os ps w1 os1"
    and "reopen w1 os1 w2 os2" and "b + length (rs @ ps) < 2 ^ 64" and "lo < 2 ^ 64 - 1"
    and "replay w2 os2 lo fn s = (Inr s', w', os')"
  shows "\<exists>qs. prefix qs ps \<and> replay_from lo fn b (rs @ qs) s = Inr s'"
proof -
  obtain d1 where d1: "length rs \<le> d1" "rel w1 os1 b (rs @ ps) d1"
    using appends_rel [OF assms(2,1)] by blast
  obtain n d' where n: "d1 \<le> d'" "d' \<le> n" "rel w2 os2 b (take n (rs @ ps)) d'"
    using reopen_law [OF d1(2) assms(4,3)] by blast
  have "replay_from lo fn b (take n (rs @ ps)) s = Inr s'"
    using replay_law [OF n(3) assms(5,6)] by simp
  moreover have "take n (rs @ ps) = rs @ take (n - length rs) ps"
    using d1(1) n(1,2) by simp
  ultimately show ?thesis by (metis take_is_prefix)
qed

end

section \<open>The log fulfils the contract\<close>

definition wal_reopen :: "wal \<Rightarrow> os \<Rightarrow> wal \<Rightarrow> os \<Rightarrow> bool" where
  "wal_reopen w os w' os' \<longleftrightarrow>
     (\<exists>os1 m. crash os os1 \<and>
        wal_Open \<lparr>optDir = wdir w, optMaxSegmentSize = m\<rparr> os1 = (Inr w', os'))"

lemma wal_Open_dir: "wal_Open opts os = (Inr w, os') \<Longrightarrow> optDir opts \<noteq> []"
  by (auto simp: wal_Open_def)

lemma log_rel_durable: "log_rel w os b rs d \<Longrightarrow> d \<le> length rs"
  by (metis log_rel_def durable_count_le)

lemma wal_reopen_rel:
  assumes "log_rel w os b rs d" and "b + length rs < 2 ^ 64" and "wal_reopen w os w' os'"
  shows "\<exists>n d'. d \<le> d' \<and> d' \<le> n \<and> n \<le> length rs \<and> wdir w' = wdir w \<and> log_rel w' os' b (take n rs) d'"
proof -
  obtain os1 m where op: "crash os os1"
    "wal_Open \<lparr>optDir = wdir w, optMaxSegmentSize = m\<rparr> os1 = (Inr w', os')"
    using assms(3) by (auto simp: wal_reopen_def)
  with wal_Open_dir [OF op(2)] open_after_crash [OF assms(1) op(1) assms(2) _ op(2)]
  show ?thesis by auto
qed

interpretation wal_log: durable_log log_rel wal_Append wal_Sync wal_reopen wal_Replay wal_TruncateBefore wdir
proof
  show "log_rel w os b rs d \<Longrightarrow> d \<le> length rs" for w os b rs d
    by (rule log_rel_durable)
  show "lsn = b + length rs \<and> wdir w' = wdir w \<and> (\<exists>d'. d \<le> d' \<and> log_rel w' os' b (rs @ [p]) d')"
    if "log_rel w os b rs d" "wal_Append w os p = (Inr lsn, w', os')" for w os b rs d p lsn w' os'
    using append_rel [OF that(1) that(2) [unfolded wal_Append_def]] by blast
  show "log_rel w' os' b rs (length rs) \<and> wdir w' = wdir w"
    if "log_rel w os b rs d" "wal_Sync w os = (None, w', os')" for w os b rs d w' os'
    using sync_rel [OF that] by blast
  show "\<exists>n d'. d \<le> d' \<and> d' \<le> n \<and> n \<le> length rs \<and> wdir w' = wdir w \<and> log_rel w' os' b (take n rs) d'"
    if "log_rel w os b rs d" "b + length rs < 2 ^ 64" "wal_reopen w os w' os'" for w os b rs d w' os'
    using that by (rule wal_reopen_rel)
  show "replay_from lo fn b rs s = Inr s' \<and> wdir w' = wdir w \<and> log_rel w' os' b rs d"
    if "log_rel w os b rs d" "lo < 2 ^ 64 - 1" "wal_Replay w os lo fn s = (Inr s', w', os')"
    for w os b rs d lo s s' w' os' and fn :: "nat \<Rightarrow> bytes \<Rightarrow> 'a \<Rightarrow> 'b + 'a"
    using replay_rel [OF that] by blast
  show "\<exists>n. b + n \<le> max b lsn \<and> n \<le> d \<and> wdir w' = wdir w \<and> log_rel w' os' (b + n) (drop n rs) (d - n)"
    if "log_rel w os b rs d" "wal_TruncateBefore w os lsn = (None, w', os')" for w os b rs d lsn w' os'
    using truncate_rel [OF that] by blast
qed

lemma append_sync_rel:
  assumes "log_rel w os b rs d" and "wal_AppendSync w os p = (Inr lsn, w', os')"
  shows "lsn = b + length rs \<and> wdir w' = wdir w \<and> log_rel w' os' b (rs @ [p]) (length rs + 1)"
proof -
  obtain w1 os1 where step: "wal_Append w os p = (Inr lsn, w1, os1)" "wal_Sync w1 os1 = (None, w', os')"
    using assms(2) by (auto simp: wal_AppendSync_def wal_Append_def split: prod.splits sum.splits option.splits)
  then show ?thesis
    using wal_log.append_law [OF assms(1) step(1)] wal_log.sync_law [OF _ step(2), of b "rs @ [p]"] by auto
qed

section \<open>A healthy disk\<close>

text \<open>Opening an empty directory starts an empty log at sequence number 1.\<close>

lemma open_fresh_rel:
  assumes "dirs os dir = []" and "dir \<noteq> []"
    and op: "wal_Open \<lparr>optDir = dir, optMaxSegmentSize = m\<rparr> os = (Inr w, os')"
  shows "log_rel w os' 1 [] 0" and "wdir w = dir"
proof -
  obtain x os1 where st: "io_plain os = (x, os1)" by fastforce
  note d1 = io_plain_dirs [OF st]
  obtain y os2 where st2: "io_plain os1 = (y, os2)" by fastforce
  note d2 = io_plain_dirs [OF st2]
  obtain os3 os4 where c: "os_create_excl os2 dir (segmentName 1) = (None, os3)"
    "syncDir os3 dir = (None, os')"
    and w: "w = \<lparr>wdir = dir, maxSegmentSize = if m \<le> 0 then DefaultMaxSegmentSize else m,
      active = segmentName 1, active_open = True, closed = False, buf = [], bases = [1],
      activeBase = 1, activeSize = 0, nextLSN = 1\<rparr>"
    using op st st2 d1 d2 assms(1,2)
    by (auto simp: wal_Open_def Let_def listSegments_def os_readdir_def createSegment_def
        createSegmentLocked_def List.map_filter_simps split: option.splits prod.splits)
  obtain os5 where os5: "dirs os5 = dirs os2" "os3 = set_file os5 dir (segmentName 1) new_file"
    using c(1) by (rule os_create_excl_None)
  obtain os6 where os6: "dirs os6 = dirs os3" "os' = link_dir os6 dir"
    using c(2) by (rule syncDir_None)
  have at: "file_at os' dir (segmentName 1) = Some (new_file\<lparr>flinked := True\<rparr>)"
    using os5 os6 by (simp add: file_at_dirs_cong [OF os6(1)])
  have "dir_ok os5 dir {1}" using os5(1) d1 d2 assms(1) by (simp add: dir_ok_def)
  then have "dir_ok os3 dir {1}" unfolding os5(2) by (rule dir_ok_set_file) simp
  then have "dir_ok os6 dir {1}" using os6(1) by (simp add: dir_ok_cong [of os6 _ os3])
  then have "dir_ok os' dir {1}" unfolding os6(2) by (rule dir_ok_link_dir)
  then have "wal_rel w os' 1 [] []"
    using at by (simp add: wal_rel_def w active_seg_def new_file_def)
  moreover have "durable_count w os' [] [] = 0" using durable_count_le [of w os' "[]" "[]"] by simp
  ultimately show "log_rel w os' 1 [] 0" unfolding log_rel_def by fastforce
  show "wdir w = dir" by (simp add: w)
qed

lemma flush_healthy:
  assumes "wal_rel w os b old cur" and "faults os = []"
  shows "\<exists>os'. flushBufferLocked w os = (None, w\<lparr>buf := []\<rparr>, os') \<and> faults os' = [] \<and>
    (\<forall>n. n \<noteq> active w \<longrightarrow> map_of (dirs os' (wdir w)) n = map_of (dirs os (wdir w)) n)"
proof (cases "buf w = []")
  case True
  then have "w\<lparr>buf := []\<rparr> = w" by (cases w) simp
  with True assms(2) show ?thesis by (simp add: flushBufferLocked_def)
next
  case False
  obtain f where "file_at os (wdir w) (active w) = Some f" using assms(1) by (rule wal_rel_active)
  moreover have "active_open w" using assms(1) unfolding wal_rel_def Let_def by blast
  ultimately show ?thesis
    using False assms(2) by (simp add: flushBufferLocked_def os_write_def)
qed

lemma sync_healthy:
  assumes "log_rel w os b rs d" and "faults os = []"
  shows "\<exists>w' os'. wal_Sync w os = (None, w', os') \<and> faults os' = []"
proof -
  obtain old cur where r: "wal_rel w os b old cur" using assms(1) by (auto simp: log_rel_def)
  have "active_open w" "\<not> closed w" using r unfolding wal_rel_def Let_def by blast+
  with flush_healthy [OF r assms(2)] show ?thesis
    by (auto simp: wal_Sync_def Sync_write_def Sync_flush_def sync_active_def fullSync_healthy)
qed

lemma rotate_healthy:
  assumes r: "wal_rel w os b old cur" and "faults os = []"
    and free: "map_of (dirs os (wdir w)) (segmentName (nextLSN w)) = None"
  shows "\<exists>w' os'. rotateLocked w os = (None, w', os') \<and> faults os' = []"
proof -
  have op: "active_open w" and name: "active w = segmentName (activeBase w)"
    using r unfolding wal_rel_def Let_def by auto
  obtain f where f: "file_at os (wdir w) (active w) = Some f" using r by (rule wal_rel_active)
  then have ne: "segmentName (nextLSN w) \<noteq> active w" using free by (auto simp: file_at_def)
  obtain os1 where os1: "flushBufferLocked w os = (None, w\<lparr>buf := []\<rparr>, os1)" "faults os1 = []"
    "\<forall>n. n \<noteq> active w \<longrightarrow> map_of (dirs os1 (wdir w)) n = map_of (dirs os (wdir w)) n"
    using flush_healthy [OF r assms(2)] by blast
  let ?os2 = "upd_file synced_ok os1 (wdir w) (active w)"
  have "map_of (dirs ?os2 (wdir w)) (segmentName (nextLSN w)) = None"
    using os1(3) free ne by (simp add: upd_file_def split: option.split)
  then show ?thesis
    using os1 op by (simp add: rotateLocked_def sync_active_def fullSync_healthy close_active_def
        createSegmentLocked_def os_create_excl_def syncDir_healthy)
qed

text \<open>
  An append of a payload within the limits succeeds, rotating if it has to; only a
  foreign directory entry with the name of the next segment could prevent it.
\<close>

lemma append_healthy:
  assumes "log_rel w os b rs d" and "faults os = []" and "payload_ok p"
    and "map_of (dirs os (wdir w)) (segmentName (nextLSN w)) = None"
  shows "\<exists>w' os'. wal_Append w os p = (Inr (b + length rs), w', os') \<and> faults os' = []"
proof -
  obtain old cur where r: "wal_rel w os b old cur" using assms(1) by (auto simp: log_rel_def)
  have "\<not> closed w" using r unfolding wal_rel_def Let_def by blast
  then have "\<exists>lsn w' os'. wal_Append w os p = (Inr lsn, w', os') \<and> faults os' = []"
    using rotate_healthy [OF r assms(2,4)] assms(2,3)
    by (auto simp: wal_Append_def appendLocked_def payload_ok_def Let_def)
  then show ?thesis using append_rel [OF assms(1)] by (auto simp: wal_Append_def)
qed

lemma open_last_healthy:
  assumes "faults os = []" and "file_at os (wdir w) (segmentName ab) = Some f"
    and "fdata f = take k (frames cur)" and pay: "list_all payload_ok cur"
  shows "\<exists>w' os'. open_last w os ab = (Inr w', os') \<and> faults os' = []"
proof -
  have "scanRecords (fdata f) False scan_count () 0 0 =
      (length (frames (whole k cur)), length (whole k cur), None, ())"
    using scan_torn_log [OF pay fn_fold_scan_count, of k False 0 0] assms(3) by simp
  with assms(1,2) show ?thesis
    by (simp add: open_last_def Let_def os_open_def os_read_def os_truncate_def fullSync_healthy)
qed

text \<open>Recovery does not get stuck: whatever a crash left of a log, it opens again.\<close>

lemma reopen_healthy:
  assumes rel: "log_rel w os b rs d" and cr: "crash os os1" and lim: "b + length rs < 2 ^ 64"
    and "wdir w \<noteq> []" and "faults os1 = []"
  shows "\<exists>w' os'. wal_Open \<lparr>optDir = wdir w, optMaxSegmentSize = m\<rparr> os1 = (Inr w', os') \<and> faults os' = []"
proof -
  let ?dir = "wdir w"
  obtain old cur where r: "wal_rel w os b old cur" "rs = concat old @ cur"
    using rel by (auto simp: log_rel_def)
  let ?ab = "b + length (concat old)" and ?bs = "seg_bases b (old @ [cur])"
  have act: "active_seg os ?dir ?ab cur (buf w)" and sealed: "sealed_segs os ?dir b old"
    and pay: "list_all payload_ok (concat old @ cur)"
    using r(1) unfolding wal_rel_def Let_def by blast+
  have ok: "dir_ok os ?dir (set ?bs)"
    using r(1) unfolding wal_rel_def Let_def by metis
  obtain f where f: "file_at os ?dir (segmentName ?ab) = Some f" using act by (auto simp: active_seg_def)
  obtain f' k where f': "file_at os1 ?dir (segmentName ?ab) = Some f'" "fdata f' = take k (frames cur)"
    using act cr f by (rule crash_active_seg)
  note segs1 = crash_sealed_segs [OF sealed cr] and ok1 = crash_dir_ok [OF ok cr]
  have files: "y < 2 ^ 64 \<and> file_at os1 ?dir (segmentName y) \<noteq> None" if "y \<in> set ?bs" for y
    using seg_bases_bound [OF sealed that] lim r(2) that sealed_segs_file [OF segs1, of y] f'(1)
    by (auto simp: seg_bases_append)
  obtain q where ls: "listSegments os1 ?dir = (Inr q, os1)"
    using \<open>faults os1 = []\<close> by (simp add: listSegments_def os_readdir_def)
  with listSegments_rel [OF ok1 _ _ files ls] seg_bases_sorted [OF sealed, of cur]
  have "q = ?bs" by auto
  with ls open_last_healthy [OF \<open>faults os1 = []\<close>, of _ ?ab f' k cur] f' pay assms(4,5)
  show ?thesis by (simp add: wal_Open_def Let_def seg_bases_last)
qed

section \<open>Refused calls\<close>

text \<open>What \<^verbatim>\<open>Append\<close> refuses it refuses before touching the log or the disk.\<close>

lemma append_refused:
  "wal_Append w os p =
     (Inl (if closed w then ErrClosed else if p = [] then ErrEmptyPayload else ErrRecordTooLarge), w, os)"
  if "closed w \<or> \<not> payload_ok p"
  using that by (auto simp: wal_Append_def appendLocked_def payload_ok_def)

lemma append_accepts:
  assumes "wal_Append w os p = (Inr lsn, w', os')"
  shows "\<not> closed w" and "payload_ok p"
  using assms by (auto simp: wal_Append_def appendLocked_def payload_ok_def split: if_splits)

lemma flush_closed: "closed (fst (snd (flushBufferLocked w os))) = closed w"
  by (auto simp: flushBufferLocked_def split: prod.splits option.splits)

lemma Close_closes: "closed (fst (snd (wal_Close w os)))"
proof -
  have "closed (fst (snd (close_active w' os')))" if "closed w'" for w' os'
    using that by (auto simp: close_active_def split: prod.splits)
  moreover have "closed (fst (snd (flushBufferLocked (w\<lparr>closed := True\<rparr>) os)))"
    by (simp add: flush_closed)
  ultimately show ?thesis
    by (auto simp: wal_Close_def Let_def split: prod.splits option.splits; metis fst_conv snd_conv)
qed

text \<open>After \<^verbatim>\<open>Close\<close> every operation reports \<open>ErrClosed\<close>; a second \<^verbatim>\<open>Close\<close> is a no-op.\<close>

lemma closed_log_refuses:
  assumes "closed w"
  shows "wal_Append w os p = (Inl ErrClosed, w, os)"
    and "wal_AppendSync w os p = (Inl ErrClosed, w, os)"
    and "wal_Sync w os = (Some ErrClosed, w, os)"
    and "wal_Replay w os lo fn s = (Inl (ReplayWal ErrClosed), w, os)"
    and "wal_TruncateBefore w os lsn = (Some ErrClosed, w, os)"
    and "wal_Close w os = (None, w, os)"
  using assms by (simp_all add: wal_Append_def wal_AppendSync_def appendLocked_def wal_Sync_def Sync_write_def
      wal_Replay_def wal_TruncateBefore_def wal_Close_def)

end
