(* ===== verification/Cv_Json.thy ===== *)
theory Cv_Json
  imports Cv_Prelude
begin

text \<open>
  The part of Go's \<^verbatim>\<open>encoding/json\<close> that the broker's files rest on: the text form of
  JSON values, the escaping of strings with its treatment of UTF-8, and a parser.  A
  value keeps the raw text of its string and number literals, as Go's decoder does; a
  literal is interpreted when it is stored into a field.  Go's limit of 10000 nested
  values is not modelled: the files nest three deep.
\<close>

section \<open>UTF-8\<close>

abbreviation code :: "char \<Rightarrow> nat" where "code c \<equiv> of_char c"

definition cont :: "char \<Rightarrow> bool" where "cont c \<longleftrightarrow> 0x80 \<le> code c \<and> code c \<le> 0xBF"

text \<open>The number of bytes of the rune a string starts with, 0 where the encoding is invalid.\<close>

definition rune_width :: "string \<Rightarrow> nat" where
  "rune_width s =
     (case s of
        [] \<Rightarrow> 0
      | a # r \<Rightarrow>
          if code a < 0x80 then 1
          else if code a < 0xC2 then 0
          else if code a < 0xE0 then (case r of b # _ \<Rightarrow> if cont b then 2 else 0 | _ \<Rightarrow> 0)
          else if code a < 0xF0
          then (case r of
                  b # c # _ \<Rightarrow>
                    if cont b \<and> cont c \<and> (code a = 0xE0 \<longrightarrow> 0xA0 \<le> code b) \<and> (code a = 0xED \<longrightarrow> code b \<le> 0x9F)
                    then 3 else 0
                | _ \<Rightarrow> 0)
          else if code a < 0xF5
          then (case r of
                  b # c # d # _ \<Rightarrow>
                    if cont b \<and> cont c \<and> cont d \<and> (code a = 0xF0 \<longrightarrow> 0x90 \<le> code b) \<and> (code a = 0xF4 \<longrightarrow> code b \<le> 0x8F)
                    then 4 else 0
                | _ \<Rightarrow> 0)
          else 0)"

function valid_utf8 :: "string \<Rightarrow> bool" where
  "valid_utf8 s =
     (if s = [] then True else if rune_width s = 0 then False
      else valid_utf8 (drop (rune_width s) s))"
  by pat_completeness auto
termination
  by (relation "measure length") auto

declare valid_utf8.simps [simp del]

definition ReplacementChar :: string where
  "ReplacementChar = map char_of [0xEF, 0xBF, 0xBD :: nat]"

text \<open>\<^verbatim>\<open>utf8.EncodeRune\<close> for the code points a \<^verbatim>\<open>\u\<close> escape can give.\<close>

definition encode_rune :: "nat \<Rightarrow> string" where
  "encode_rune n =
     (if n < 0x80 then [char_of n]
      else if n < 0x800 then map char_of [0xC0 + n div 64, 0x80 + n mod 64]
      else if 0xD800 \<le> n \<and> n < 0xE000 then ReplacementChar
      else if n < 0x10000 then map char_of [0xE0 + n div 4096, 0x80 + n div 64 mod 64, 0x80 + n mod 64]
      else if n < 0x110000
      then map char_of [0xF0 + n div 262144, 0x80 + n div 4096 mod 64, 0x80 + n div 64 mod 64, 0x80 + n mod 64]
      else ReplacementChar)"

section \<open>String literals\<close>

definition hex_lower :: "nat \<Rightarrow> char" where
  "hex_lower d = (if d < 10 then char_of (48 + d) else char_of (87 + d))"

definition hex_val :: "char \<Rightarrow> nat option" where
  "hex_val c =
     (let n = code c
      in if 48 \<le> n \<and> n \<le> 57 then Some (n - 48)
         else if 97 \<le> n \<and> n \<le> 102 then Some (n - 87)
         else if 65 \<le> n \<and> n \<le> 70 then Some (n - 55) else None)"

definition esc_u :: "nat \<Rightarrow> string" where
  "esc_u n = CHR 0x5C # CHR ''u'' # map hex_lower [n div 4096 mod 16, n div 256 mod 16, n div 16 mod 16, n mod 16]"

definition esc_ascii :: "char \<Rightarrow> string" where
  "esc_ascii c =
     (if c = CHR 0x22 \<or> c = CHR 0x5C then [CHR 0x5C, c]
      else if code c = 8 then [CHR 0x5C, CHR ''b'']
      else if code c = 12 then [CHR 0x5C, CHR ''f'']
      else if code c = 10 then [CHR 0x5C, CHR ''n'']
      else if code c = 13 then [CHR 0x5C, CHR ''r'']
      else if code c = 9 then [CHR 0x5C, CHR ''t'']
      else if code c < 0x20 \<or> c = CHR 0x3C \<or> c = CHR 0x3E \<or> c = CHR 0x26 then esc_u (code c)
      else [c])"

text \<open>
  How \<^verbatim>\<open>json.Marshal\<close> writes a string between its quotes: quotes, backslashes, control
  characters, the HTML characters and the two line separators are escaped; bytes that
  are not UTF-8 become U+FFFD.
\<close>

function escape :: "string \<Rightarrow> string" where
  "escape s =
     (case s of
        [] \<Rightarrow> []
      | c # cs \<Rightarrow>
          (let w = rune_width s
           in if w = 0 then esc_u 0xFFFD @ escape cs
              else if w = 1 then esc_ascii c @ escape cs
              else if take w s = encode_rune 0x2028 then esc_u 0x2028 @ escape (drop w s)
              else if take w s = encode_rune 0x2029 then esc_u 0x2029 @ escape (drop w s)
              else take w s @ escape (drop w s)))"
  by pat_completeness auto
termination
  by (relation "measure length") auto

declare escape.simps [simp del]

definition getu4 :: "string \<Rightarrow> nat option" where
  "getu4 s =
     (case s of
        a # b # c # d # _ \<Rightarrow>
          (case (hex_val a, hex_val b, hex_val c, hex_val d) of
             (Some w, Some x, Some y, Some z) \<Rightarrow> Some (4096 * w + 256 * x + 16 * y + z)
           | _ \<Rightarrow> None)
      | _ \<Rightarrow> None)"

definition short_escape :: "char \<Rightarrow> char option" where
  "short_escape e =
     (if e = CHR 0x22 \<or> e = CHR 0x5C \<or> e = CHR ''/'' then Some e
      else if e = CHR ''b'' then Some (CHR 8) else if e = CHR ''f'' then Some (CHR 12)
      else if e = CHR ''n'' then Some (CHR 10) else if e = CHR ''r'' then Some (CHR 13)
      else if e = CHR ''t'' then Some (CHR 9) else None)"

text \<open>
  The second half of a surrogate pair that follows a \<^verbatim>\<open>\u\<close> escape, and the code point
  the two make.
\<close>

definition surrogate_pair :: "nat \<Rightarrow> string \<Rightarrow> nat option" where
  "surrogate_pair hi s =
     (case s of
        a # u # r \<Rightarrow>
          if a = CHR 0x5C \<and> u = CHR ''u''
          then (case getu4 r of
                  Some lo \<Rightarrow>
                    if 0xD800 \<le> hi \<and> hi < 0xDC00 \<and> 0xDC00 \<le> lo \<and> lo < 0xE000
                    then Some (0x10000 + (hi - 0xD800) * 1024 + (lo - 0xDC00)) else None
                | None \<Rightarrow> None)
          else None
      | _ \<Rightarrow> None)"

text \<open>The string a literal's raw text stands for.\<close>

function unquote :: "string \<Rightarrow> string option" where
  "unquote s =
     (case s of
        [] \<Rightarrow> Some []
      | c # cs \<Rightarrow>
          if c = CHR 0x5C
          then (case cs of
                  [] \<Rightarrow> None
                | e # r \<Rightarrow>
                    if e = CHR ''u''
                    then (case getu4 r of
                            None \<Rightarrow> None
                          | Some n \<Rightarrow>
                              (case surrogate_pair n (drop 4 r) of
                                 Some m \<Rightarrow> map_option ((@) (encode_rune m)) (unquote (drop 10 r))
                               | None \<Rightarrow> map_option ((@) (encode_rune n)) (unquote (drop 4 r))))
                    else (case short_escape e of
                            None \<Rightarrow> None
                          | Some x \<Rightarrow> map_option (Cons x) (unquote r)))
          else if c = CHR 0x22 \<or> code c < 0x20 then None
          else if rune_width s = 0 then map_option ((@) ReplacementChar) (unquote cs)
          else map_option ((@) (take (rune_width s) s)) (unquote (drop (rune_width s) s)))"
  by pat_completeness auto
termination
  by (relation "measure length") auto

declare unquote.simps [simp del]

text \<open>The raw text of a literal whose opening quote has been read, and what follows it.\<close>

function scan_string :: "string \<Rightarrow> (string \<times> string) option" where
  "scan_string s =
     (case s of
        [] \<Rightarrow> None
      | c # cs \<Rightarrow>
          if c = CHR 0x22 then Some ([], cs)
          else if code c < 0x20 then None
          else if c = CHR 0x5C
          then (case cs of
                  [] \<Rightarrow> None
                | e # r \<Rightarrow>
                    if e = CHR ''u''
                    then (if getu4 r = None then None
                          else map_option (apfst ((@) (c # e # take 4 r))) (scan_string (drop 4 r)))
                    else if short_escape e = None then None
                    else map_option (apfst ((@) [c, e])) (scan_string r))
          else map_option (apfst (Cons c)) (scan_string cs))"
  by pat_completeness auto
termination
  by (relation "measure length") auto

declare scan_string.simps [simp del]

section \<open>Escaping is undone by unquoting\<close>

lemma hex_val_lower [simp]: "d < 16 \<Longrightarrow> hex_val (hex_lower d) = Some d"
  by (auto simp: hex_val_def hex_lower_def Let_def)

lemma getu4_hex:
  "n < 65536 \<Longrightarrow>
   getu4 (map hex_lower [n div 4096 mod 16, n div 256 mod 16, n div 16 mod 16, n mod 16] @ t) = Some n"
proof -
  assume "n < 65536"
  have "4096 * (n div 4096 mod 16) + 256 * (n div 256 mod 16) + 16 * (n div 16 mod 16) + n mod 16 = n"
  proof -
    have "n div 4096 mod 16 = n div 4096" using \<open>n < 65536\<close> by simp
    moreover have "n div 256 = 16 * (n div 4096) + n div 256 mod 16"
      using div_mult_mod_eq [of "n div 256" 16] by (simp add: div_mult2_eq [symmetric])
    moreover have "n div 16 = 16 * (n div 256) + n div 16 mod 16"
      using div_mult_mod_eq [of "n div 16" 16] by (simp add: div_mult2_eq [symmetric])
    moreover have "n = 16 * (n div 16) + n mod 16" by simp
    ultimately show ?thesis by linarith
  qed
  with \<open>n < 65536\<close> show ?thesis by (simp add: getu4_def)
qed

lemma rune_width_le: "rune_width s \<le> length s"
  by (auto simp: rune_width_def split: list.splits)

lemma rune_width_Nil [simp]: "rune_width [] = 0"
  by (simp add: rune_width_def)

lemma rune_width_1: "rune_width (c # cs) = 1 \<longleftrightarrow> code c < 0x80"
  by (auto simp: rune_width_def split: list.splits)

text \<open>A rune is delimited by its own bytes: what follows it does not matter.\<close>

lemma rune_width_take:
  assumes "rune_width s \<noteq> 0"
  shows "rune_width (take (rune_width s) s @ t) = rune_width s"
proof -
  consider "s = []" | a where "s = [a]" | a b where "s = [a, b]" | a b c where "s = [a, b, c]"
    | a b c d r where "s = a # b # c # d # r"
    by (metis list.exhaust)
  then show ?thesis using assms
    by cases (auto simp: rune_width_def split: if_splits list.splits)
qed

lemma rune_bytes_high:
  assumes "1 < rune_width s" and "c \<in> set (take (rune_width s) s)"
  shows "0x80 \<le> code c"
proof -
  consider "s = []" | a where "s = [a]" | a b where "s = [a, b]" | a b c where "s = [a, b, c]"
    | a b c d r where "s = a # b # c # d # r"
    by (metis list.exhaust)
  then show ?thesis using assms
    by cases (auto simp: rune_width_def cont_def split: if_splits)
qed

lemma Cons_fun: "(@) [c] = Cons c"
  by (simp add: fun_eq_iff)

lemma Cons_append_fun: "(\<lambda>a. c # cs @ a) = (@) (c # cs)"
  by (simp add: fun_eq_iff)

lemma escape_Nil [simp]: "escape [] = []"
  by (simp add: escape.simps)

lemma unquote_esc_u:
  assumes "n < 65536" and "n < 0xD800 \<or> 0xE000 \<le> n"
  shows "unquote (esc_u n @ t) = map_option ((@) (encode_rune n)) (unquote t)"
proof -
  have "surrogate_pair n r = None" for r
    using assms(2) by (auto simp: surrogate_pair_def split: list.splits option.splits)
  with getu4_hex [OF assms(1), of t] show ?thesis
    by (subst unquote.simps) (simp add: esc_u_def)
qed

lemma control_chars:
  "char_of (8 :: nat) = CHR 0x08" "char_of (12 :: nat) = CHR 0x0C" "char_of (10 :: nat) = CHR 0x0A"
  "char_of (13 :: nat) = CHR 0x0D" "char_of (9 :: nat) = CHR 0x09"
  by (code_simp; rule refl)+

lemma unquote_esc_ascii:
  assumes "code c < 0x80"
  shows "unquote (esc_ascii c @ t) = map_option (Cons c) (unquote t)"
proof -
  have short: "unquote (CHR 0x5C # e # t) = map_option (Cons x) (unquote t)"
    if "short_escape e = Some x" "e \<noteq> CHR ''u''" for e x
    using that by (subst unquote.simps) simp
  have cc: "char_of (code c) = c" by simp
  have eq: "code c = k \<Longrightarrow> c = char_of k" for k using cc by metis
  show ?thesis
  proof (cases "esc_ascii c = esc_u (code c)")
    case True
    then show ?thesis using assms unquote_esc_u [of "code c" t] by (simp add: encode_rune_def Cons_fun)
  next
    case False
    then consider e where "esc_ascii c = [CHR 0x5C, e]" "short_escape e = Some c" "e \<noteq> CHR ''u''"
      | "esc_ascii c = [c]" "c \<noteq> CHR 0x5C" "c \<noteq> CHR 0x22" "\<not> code c < 0x20"
      by (auto simp: esc_ascii_def short_escape_def control_chars dest!: eq split: if_splits)
    then show ?thesis
    proof cases
      case 1
      then show ?thesis using short by simp
    next
      case 2
      have "rune_width (c # t) = 1" using assms by (simp only: rune_width_1)
      with 2 show ?thesis by (subst unquote.simps) (simp add: Cons_fun)
    qed
  qed
qed

lemma unquote_rune:
  assumes "1 < rune_width s"
  shows "unquote (take (rune_width s) s @ t) = map_option ((@) (take (rune_width s) s)) (unquote t)"
proof -
  obtain c r where s: "take (rune_width s) s = c # r"
    using assms rune_width_le [of s] by (cases "take (rune_width s) s") auto
  have high: "0x80 \<le> code c" using rune_bytes_high [OF assms, of c] s by simp
  then have "c \<noteq> CHR 0x5C" "c \<noteq> CHR 0x22" "\<not> code c < 0x20" by auto
  moreover have w: "rune_width (c # r @ t) = rune_width s"
    using rune_width_take [of s t] assms s by simp
  moreover have "rune_width s = Suc (length r)"
    using rune_width_le [of s] arg_cong [OF s, of length] by simp
  ultimately show ?thesis
    unfolding s using assms by (subst unquote.simps) simp
qed

lemma unquote_escape_append:
  "valid_utf8 s \<Longrightarrow> unquote (escape s @ t) = map_option ((@) s) (unquote t)"
proof (induction s rule: escape.induct)
  case (1 s)
  show ?case
  proof (cases s)
    case Nil
    then show ?thesis by (simp add: option.map_ident)
  next
    case (Cons c cs)
    let ?w = "rune_width s"
    have w0: "?w \<noteq> 0" and rest: "valid_utf8 (drop ?w s)"
      using "1.prems" Cons by (auto simp: valid_utf8.simps [of "c # cs"] split: if_splits)
    note step = "1.IH" [OF Cons refl]
    show ?thesis
    proof (cases "?w = 1")
      case True
      then have "code c < 0x80" using Cons rune_width_1 by blast
      moreover have "unquote (escape cs @ t) = map_option ((@) cs) (unquote t)"
        using step(2) True rest Cons by simp
      ultimately show ?thesis
        using True Cons by (simp add: escape.simps [of "c # cs"] unquote_esc_ascii option.map_comp comp_def)
    next
      case False
      have IH: "unquote (escape (drop ?w s) @ t) = map_option ((@) (drop ?w s)) (unquote t)"
        using step(3-5) w0 False rest by blast
      have comp: "(@) (take ?w s) \<circ> (@) (drop ?w s) = (@) s"
        by (simp add: fun_eq_iff flip: append_assoc)
      have "1 < ?w" using w0 False by simp
      then have un: "unquote (take ?w s @ escape (drop ?w s) @ t) = map_option ((@) s) (unquote t)"
        by (simp only: unquote_rune IH option.map_comp comp)
      have sep: "unquote (esc_u n @ escape (drop ?w s) @ t) = map_option ((@) s) (unquote t)"
        if "take ?w s = encode_rune n" "n < 0xD800" for n
        using that unquote_esc_u [of n "escape (drop ?w s) @ t"] IH comp by (simp add: option.map_comp)
      show ?thesis
        using Cons w0 False un sep [of "0x2028"] sep [of "0x2029"]
        by (simp add: escape.simps [of "c # cs"] Let_def Cons_append_fun del: append_Cons split: if_splits)
    qed
  qed
qed

lemma unquote_escape: "valid_utf8 s \<Longrightarrow> unquote (escape s) = Some s"
  using unquote_escape_append [of s "[]"] by (simp add: unquote.simps)

section \<open>Values\<close>

datatype json =
  JNull | JBool bool | JNum string | JStr string | JArr "json list" | JObj "(string \<times> json) list"

text \<open>
  The text \<^verbatim>\<open>json.Marshal\<close> produces, without spaces.  \<open>render_elems\<close> and
  \<open>render_members\<close> are the part of an array or object after its first entry.
\<close>

fun render :: "json \<Rightarrow> string"
  and render_elems :: "json list \<Rightarrow> string"
  and render_member :: "string \<Rightarrow> json \<Rightarrow> string"
  and render_members :: "(string \<times> json) list \<Rightarrow> string"
where
  "render JNull = ''null''"
| "render (JBool b) = (if b then ''true'' else ''false'')"
| "render (JNum lit) = lit"
| "render (JStr raw) = CHR 0x22 # raw @ [CHR 0x22]"
| "render (JArr []) = ''[]''"
| "render (JArr (v # vs)) = CHR ''['' # render v @ render_elems vs"
| "render (JObj []) = ''{}''"
| "render (JObj ((k, v) # kvs)) = CHR ''{'' # render_member k v @ render_members kvs"
| "render_elems [] = '']''"
| "render_elems (v # vs) = CHR '','' # render v @ render_elems vs"
| "render_member k v = CHR 0x22 # k @ CHR 0x22 # CHR '':'' # render v"
| "render_members [] = ''}''"
| "render_members ((k, v) # kvs) = CHR '','' # render_member k v @ render_members kvs"

definition is_ws :: "char \<Rightarrow> bool" where
  "is_ws c \<longleftrightarrow> code c = 32 \<or> code c = 9 \<or> code c = 10 \<or> code c = 13"

abbreviation skip_ws :: "string \<Rightarrow> string" where "skip_ws \<equiv> dropWhile is_ws"

definition is_digit :: "char \<Rightarrow> bool" where "is_digit c \<longleftrightarrow> digit_val c \<noteq> None"

text \<open>One or more digits.\<close>

definition scan_digits :: "string \<Rightarrow> (string \<times> string) option" where
  "scan_digits s =
     (if takeWhile is_digit s = [] then None else Some (takeWhile is_digit s, dropWhile is_digit s))"

definition scan_int :: "string \<Rightarrow> (string \<times> string) option" where
  "scan_int s =
     (case s of
        c # cs \<Rightarrow> if c = CHR ''0'' then Some ([c], cs) else scan_digits s
      | [] \<Rightarrow> None)"

definition scan_frac :: "string \<Rightarrow> (string \<times> string) option" where
  "scan_frac s =
     (case s of
        c # cs \<Rightarrow> if c = CHR ''.'' then map_option (apfst (Cons c)) (scan_digits cs) else Some ([], s)
      | [] \<Rightarrow> Some ([], s))"

definition scan_exp :: "string \<Rightarrow> (string \<times> string) option" where
  "scan_exp s =
     (case s of
        c # cs \<Rightarrow>
          if c = CHR ''e'' \<or> c = CHR ''E''
          then (case cs of
                  d # ds \<Rightarrow>
                    if d = CHR ''+'' \<or> d = CHR ''-'' then map_option (apfst (\<lambda>x. c # d # x)) (scan_digits ds)
                    else map_option (apfst (Cons c)) (scan_digits cs)
                | [] \<Rightarrow> None)
          else Some ([], s)
      | [] \<Rightarrow> Some ([], s))"

definition scan_number :: "string \<Rightarrow> (string \<times> string) option" where
  "scan_number s =
     (let (sign, s0) = (case s of c # cs \<Rightarrow> if c = CHR ''-'' then ([c], cs) else ([], s) | [] \<Rightarrow> ([], s))
      in case scan_int s0 of
           None \<Rightarrow> None
         | Some (a, s1) \<Rightarrow>
             (case scan_frac s1 of
                None \<Rightarrow> None
              | Some (b, s2) \<Rightarrow>
                  (case scan_exp s2 of
                     None \<Rightarrow> None
                   | Some (c, s3) \<Rightarrow> Some (sign @ a @ b @ c, s3))))"

text \<open>
  The parser.  Every call is on a strictly shorter text, so fuel beyond the length of
  the input is never used up.
\<close>

fun parse_value :: "nat \<Rightarrow> string \<Rightarrow> (json \<times> string) option"
  and parse_elems :: "nat \<Rightarrow> string \<Rightarrow> (json list \<times> string) option"
  and parse_member :: "nat \<Rightarrow> string \<Rightarrow> ((string \<times> json) list \<times> string) option"
  and parse_members :: "nat \<Rightarrow> string \<Rightarrow> ((string \<times> json) list \<times> string) option"
where
  "parse_value 0 s = None"
| "parse_value (Suc n) s =
     (case skip_ws s of
        [] \<Rightarrow> None
      | c # cs \<Rightarrow>
          if c = CHR ''{''
          then (case skip_ws cs of
                  [] \<Rightarrow> None
                | d # ds \<Rightarrow>
                    if d = CHR ''}'' then Some (JObj [], ds)
                    else map_option (apfst JObj) (parse_member n (d # ds)))
          else if c = CHR ''[''
          then (case skip_ws cs of
                  [] \<Rightarrow> None
                | d # ds \<Rightarrow>
                    if d = CHR '']'' then Some (JArr [], ds)
                    else (case parse_value n (d # ds) of
                            None \<Rightarrow> None
                          | Some (v, r) \<Rightarrow> map_option (apfst (\<lambda>vs. JArr (v # vs))) (parse_elems n r)))
          else if c = CHR 0x22 then map_option (apfst JStr) (scan_string cs)
          else if prefix ''null'' (c # cs) then Some (JNull, drop 4 (c # cs))
          else if prefix ''true'' (c # cs) then Some (JBool True, drop 4 (c # cs))
          else if prefix ''false'' (c # cs) then Some (JBool False, drop 5 (c # cs))
          else map_option (apfst JNum) (scan_number (c # cs)))"
| "parse_elems 0 s = None"
| "parse_elems (Suc n) s =
     (case skip_ws s of
        [] \<Rightarrow> None
      | c # cs \<Rightarrow>
          if c = CHR '']'' then Some ([], cs)
          else if c = CHR '',''
          then (case parse_value n cs of
                  None \<Rightarrow> None
                | Some (v, r) \<Rightarrow> map_option (apfst (Cons v)) (parse_elems n r))
          else None)"
| "parse_member 0 s = None"
| "parse_member (Suc n) s =
     (case skip_ws s of
        [] \<Rightarrow> None
      | c # cs \<Rightarrow>
          if c \<noteq> CHR 0x22 then None
          else (case scan_string cs of
                  None \<Rightarrow> None
                | Some (k, r) \<Rightarrow>
                    (case skip_ws r of
                       [] \<Rightarrow> None
                     | d # ds \<Rightarrow>
                         if d \<noteq> CHR '':'' then None
                         else (case parse_value n ds of
                                 None \<Rightarrow> None
                               | Some (v, r2) \<Rightarrow>
                                   map_option (apfst (Cons (k, v))) (parse_members n r2)))))"
| "parse_members 0 s = None"
| "parse_members (Suc n) s =
     (case skip_ws s of
        [] \<Rightarrow> None
      | c # cs \<Rightarrow>
          if c = CHR ''}'' then Some ([], cs)
          else if c = CHR '','' then parse_member n cs
          else None)"

definition parse_json :: "string \<Rightarrow> json option" where
  "parse_json s =
     (case parse_value (length s + 1) s of
        None \<Rightarrow> None
      | Some (v, r) \<Rightarrow> if skip_ws r = [] then Some v else None)"

section \<open>Parsing undoes rendering\<close>

lemma scan_string_esc_u:
  assumes "n < 65536"
  shows "scan_string (esc_u n @ t) = map_option (apfst ((@) (esc_u n))) (scan_string t)"
  using getu4_hex [OF assms, of t] by (subst scan_string.simps) (simp add: esc_u_def)

lemma scan_string_plain:
  assumes "c \<noteq> CHR 0x22" and "c \<noteq> CHR 0x5C" and "\<not> code c < 0x20"
  shows "scan_string (c # t) = map_option (apfst (Cons c)) (scan_string t)"
  using assms by (subst scan_string.simps) simp

lemma scan_string_high:
  "(\<And>c. c \<in> set cs \<Longrightarrow> 0x80 \<le> code c) \<Longrightarrow>
   scan_string (cs @ t) = map_option (apfst ((@) cs)) (scan_string t)"
proof (induction cs)
  case Nil
  show ?case by (cases "scan_string t") auto
next
  case (Cons c cs)
  have "0x80 \<le> code c" using Cons.prems by simp
  then have "c \<noteq> CHR 0x22" "c \<noteq> CHR 0x5C" "\<not> code c < 0x20" by auto
  then show ?case
    using Cons by (cases "scan_string t") (auto simp: scan_string_plain)
qed

lemma scan_string_esc_ascii:
  "scan_string (esc_ascii c @ t) = map_option (apfst ((@) (esc_ascii c))) (scan_string t)"
proof (cases "esc_ascii c = esc_u (code c)")
  case True
  have "code c < 256" by simp
  then have "code c < 65536" by linarith
  then show ?thesis using True scan_string_esc_u [of "code c" t] by simp
next
  case False
  then consider e where "esc_ascii c = [CHR 0x5C, e]" "short_escape e \<noteq> None" "e \<noteq> CHR ''u''"
    | "esc_ascii c = [c]" "c \<noteq> CHR 0x5C" "c \<noteq> CHR 0x22" "\<not> code c < 0x20"
    by (auto simp: esc_ascii_def short_escape_def split: if_splits)
  then show ?thesis
  proof cases
    case 1
    then show ?thesis by (subst scan_string.simps) (auto simp: comp_def)
  next
    case 2
    then show ?thesis by (simp add: scan_string_plain Cons_fun)
  qed
qed

lemma scan_string_escape: "scan_string (escape s @ CHR 0x22 # t) = Some (escape s, t)"
proof (induction s rule: escape.induct)
  case (1 s)
  show ?case
  proof (cases s)
    case Nil
    then show ?thesis by (simp add: scan_string.simps [of "CHR 0x22 # t"])
  next
    case (Cons c cs)
    let ?w = "rune_width s"
    note step = "1.IH" [OF Cons refl]
    have "1 < ?w \<Longrightarrow> scan_string (take ?w s @ escape (drop ?w s) @ CHR 0x22 # t) =
        map_option (apfst ((@) (take ?w s))) (scan_string (escape (drop ?w s) @ CHR 0x22 # t))"
      using rune_bytes_high [of s] by (intro scan_string_high) blast
    then show ?thesis
      using step Cons
      by (cases "?w = 0"; cases "?w = 1")
        (simp_all add: escape.simps [of "c # cs"] Let_def scan_string_esc_u scan_string_esc_ascii)
  qed
qed

text \<open>
  The values the broker writes: string literals come from \<open>escape\<close>, numbers are
  integers.
\<close>

fun wf_json :: "json \<Rightarrow> bool"
  and wf_members :: "(string \<times> json) list \<Rightarrow> bool"
where
  "wf_json (JNum lit) = (\<exists>i. lit = Itoa i)"
| "wf_json (JStr raw) = (\<exists>s. raw = escape s)"
| "wf_json (JArr vs) = list_all wf_json vs"
| "wf_json (JObj kvs) = wf_members kvs"
| "wf_json v = True"
| "wf_members [] = True"
| "wf_members ((k, v) # kvs) = ((\<exists>s. k = escape s) \<and> wf_json v \<and> wf_members kvs)"

text \<open>What may follow a value.\<close>

definition delimited :: "string \<Rightarrow> bool" where
  "delimited r \<longleftrightarrow> r = [] \<or> hd r = CHR '','' \<or> hd r = CHR '']'' \<or> hd r = CHR ''}''"

lemma delimited_simps [simp]:
  "delimited []" "delimited (CHR '','' # r)" "delimited (CHR '']'' # r)" "delimited (CHR ''}'' # r)"
  by (simp_all add: delimited_def)

lemma is_digit_char [simp]: "d < 10 \<Longrightarrow> is_digit (digit_char d)"
  by (simp add: is_digit_def)

lemma digit_char_0: "digit_char 0 = CHR ''0''"
  unfolding digit_char_def by (code_simp; rule refl)

lemma dec_digits_all: "list_all is_digit (dec_digits n)"
proof (induction n rule: dec_digits.induct)
  case (1 n)
  then show ?case by (cases "n < 10") (simp_all add: dec_digits.simps [of n])
qed

lemma dec_digits_lead: "n \<noteq> 0 \<Longrightarrow> hd (dec_digits n) \<noteq> CHR ''0''"
proof (induction n rule: dec_digits.induct)
  case (1 n)
  show ?case
  proof (cases "n < 10")
    case True
    have "digit_char n \<noteq> digit_char 0"
      using True "1.prems" digit_val_char [of n] digit_val_char [of 0] by force
    then show ?thesis using True by (simp add: dec_digits.simps [of n] digit_char_0)
  next
    case False
    then show ?thesis using 1 by (simp add: dec_digits.simps [of n])
  qed
qed

lemma delimited_not_digit: "delimited r \<Longrightarrow> takeWhile is_digit r = [] \<and> dropWhile is_digit r = r"
  by (cases r) (auto simp: delimited_def is_digit_def digit_val_def)

lemma scan_int_dec:
  assumes "delimited r"
  shows "scan_int (dec_digits n @ r) = Some (dec_digits n, r)"
proof (cases "n = 0")
  case True
  then show ?thesis by (simp add: dec_digits.simps [of 0] digit_char_0 scan_int_def)
next
  case False
  obtain c cs where c: "dec_digits n = c # cs" using dec_digits_nonempty by (cases "dec_digits n") auto
  have all: "list_all is_digit (c # cs)" using dec_digits_all [of n] c by simp
  have "takeWhile is_digit ((c # cs) @ r) = c # cs" "dropWhile is_digit ((c # cs) @ r) = r"
    using all delimited_not_digit [OF assms] by (simp_all add: list_all_iff)
  moreover have "c \<noteq> CHR ''0''" using dec_digits_lead [OF False] c by simp
  ultimately show ?thesis by (simp add: c scan_int_def scan_digits_def)
qed

lemma scan_number_Itoa:
  assumes "delimited r"
  shows "scan_number (Itoa i @ r) = Some (Itoa i, r)"
proof -
  have fr: "scan_frac r = Some ([], r)" "scan_exp r = Some ([], r)"
    using assms by (cases r; auto simp: delimited_def scan_frac_def scan_exp_def)+
  obtain c cs where c: "dec_digits (nat i) = c # cs" by (cases "dec_digits (nat i)") auto
  have "is_digit c" using dec_digits_all [of "nat i"] c by simp
  then have "c \<noteq> CHR ''-''" by (auto simp: is_digit_def digit_val_def)
  then show ?thesis
    using scan_int_dec [OF assms, of "nat i"] scan_int_dec [OF assms, of "nat (- i)"] fr c
    by (simp add: scan_number_def Itoa_def)
qed

text \<open>The first character of a number is neither white space nor any other token's.\<close>

lemma Itoa_hd:
  obtains c cs where "Itoa i = c # cs" "c = CHR ''-'' \<or> is_digit c"
proof -
  obtain c cs where "Itoa i = c # cs"
    by (cases "Itoa i") (auto simp: Itoa_def split: if_splits)
  moreover from this have "c = CHR ''-'' \<or> is_digit c"
    using dec_digits_all [of "nat i"] by (auto simp: Itoa_def split: if_splits)
  ultimately show thesis by (rule that)
qed

lemma number_char:
  assumes "c = CHR ''-'' \<or> is_digit c"
  shows "\<not> is_ws c" "c \<noteq> CHR ''{''" "c \<noteq> CHR ''[''" "c \<noteq> CHR 0x22" "c \<noteq> CHR '']''" "c \<noteq> CHR ''}''"
    "c \<noteq> CHR ''n''" "c \<noteq> CHR ''t''" "c \<noteq> CHR ''f''"
  using assms by (auto simp: is_digit_def digit_val_def is_ws_def split: if_splits)

lemma token_not_ws [simp]:
  "\<not> is_ws (CHR ''{'')" "\<not> is_ws (CHR ''['')" "\<not> is_ws (CHR ''}'')" "\<not> is_ws (CHR '']'')"
  "\<not> is_ws (CHR '','')" "\<not> is_ws (CHR '':'')" "\<not> is_ws (CHR 0x22)" "\<not> is_ws (CHR ''n'')"
  "\<not> is_ws (CHR ''t'')" "\<not> is_ws (CHR ''f'')"
  by (simp_all add: is_ws_def)

lemma render_hd:
  assumes "wf_json v"
  obtains c cs where "render v = c # cs" "\<not> is_ws c" "c \<noteq> CHR '']''"
  using assms
proof (cases v)
  case (JNum lit)
  with assms obtain i where "lit = Itoa i" by auto
  then show thesis using JNum that number_char by (metis Itoa_hd render.simps(3))
next
  case (JArr vs)
  then show thesis using that by (cases vs) auto
next
  case (JObj kvs)
  then show thesis using that by (cases kvs) auto
next
  case (JBool b)
  then show thesis using that by (cases b) auto
qed (use that in auto)

lemma parse_render:
  "wf_json v \<Longrightarrow> delimited r \<Longrightarrow> length (render v) \<le> n \<Longrightarrow>
     parse_value n (render v @ r) = Some (v, r)"
  "list_all wf_json vs \<Longrightarrow> length (render_elems vs) \<le> n \<Longrightarrow>
     parse_elems n (render_elems vs @ r) = Some (vs, r)"
  "(\<exists>s. k = escape s) \<Longrightarrow> wf_json v \<Longrightarrow> delimited r \<Longrightarrow> length (render_member k v) \<le> n \<Longrightarrow>
     \<exists>m. n = Suc m \<and> parse_member n (render_member k v @ r) =
       map_option (apfst (Cons (k, v))) (parse_members m r)"
  "wf_members kvs \<Longrightarrow> length (render_members kvs) \<le> n \<Longrightarrow>
     parse_members n (render_members kvs @ r) = Some (kvs, r)"
proof (induction v and vs and k v and kvs arbitrary: n r and n r and n r and n r
    rule: render_render_elems_render_member_render_members.induct)
  case 1
  then show ?case by (cases n) simp_all
next
  case (2 b)
  then show ?case by (cases n; cases b) simp_all
next
  case (3 lit)
  then obtain i where i: "lit = Itoa i" by auto
  obtain c cs where c: "Itoa i = c # cs" "c = CHR ''-'' \<or> is_digit c" by (rule Itoa_hd)
  have "scan_number (c # cs @ r) = Some (c # cs, r)"
    using scan_number_Itoa [OF "3.prems"(2), of i] c(1) by simp
  with 3 i c(1) number_char [OF c(2)] show ?case by (cases n) simp_all
next
  case (4 raw)
  then show ?case by (cases n) (auto simp: scan_string_escape)
next
  case (6 v vs)
  have v: "wf_json v" and vs: "list_all wf_json vs" using "6.prems"(1) by simp_all
  obtain c cs where c: "render v = c # cs" "\<not> is_ws c" "c \<noteq> CHR '']''" using v by (rule render_hd)
  obtain m where m: "n = Suc m" "length (render v) \<le> m" "length (render_elems vs) \<le> m"
    using "6.prems"(3) by (cases n) simp_all
  have "delimited (render_elems vs @ r)" by (cases vs) simp_all
  from "6.IH"(1) [OF v this m(2)] "6.IH"(2) [OF vs m(3)] c m(1) show ?case by simp
next
  case (8 k v kvs)
  have v: "\<exists>s. k = escape s" "wf_json v" and kvs: "wf_members kvs"
    using "8.prems"(1) by simp_all
  obtain m where m: "n = Suc m" "length (render_member k v) \<le> m"
    "length (render_member k v) + length (render_members kvs) \<le> m"
    using "8.prems"(3) by (cases n) simp_all
  have "delimited (render_members kvs @ r)" by (cases kvs) auto
  from "8.IH"(1) [OF v this m(2)] obtain l where l: "m = Suc l"
    "parse_member m (render_member k v @ render_members kvs @ r) =
       map_option (apfst (Cons (k, v))) (parse_members l (render_members kvs @ r))"
    by blast
  have "parse_members l (render_members kvs @ r) = Some (kvs, r)"
    using m(3) l(1) by (intro "8.IH"(2) [OF kvs]) simp
  with l(2) m(1) show ?case by (simp del: parse_member.simps parse_members.simps)
next
  case (10 v vs)
  have v: "wf_json v" and vs: "list_all wf_json vs" using "10.prems"(1) by simp_all
  obtain m where m: "n = Suc m" "length (render v) \<le> m" "length (render_elems vs) \<le> m"
    using "10.prems"(2) by (cases n) simp_all
  have "delimited (render_elems vs @ r)" by (cases vs) simp_all
  from "10.IH"(1) [OF v this m(2)] "10.IH"(2) [OF vs m(3)] m(1) show ?case by simp
next
  case (11 k v)
  then obtain s where s: "k = escape s" by blast
  obtain m where m: "n = Suc m" "length (render v) \<le> m" using "11.prems"(4) by (cases n) simp_all
  with "11.IH" [OF "11.prems"(2,3) m(2)] s show ?case
    by (intro exI [of _ m]) (simp add: scan_string_escape)
next
  case (13 k v kvs)
  have v: "\<exists>s. k = escape s" "wf_json v" and kvs: "wf_members kvs"
    using "13.prems"(1) by simp_all
  obtain m where m: "n = Suc m" "length (render_member k v) \<le> m"
    "length (render_member k v) + length (render_members kvs) \<le> m"
    using "13.prems"(2) by (cases n) simp_all
  have "delimited (render_members kvs @ r)" by (cases kvs) auto
  from "13.IH"(1) [OF v this m(2)] obtain l where l: "m = Suc l"
    "parse_member m (render_member k v @ render_members kvs @ r) =
       map_option (apfst (Cons (k, v))) (parse_members l (render_members kvs @ r))"
    by blast
  have "parse_members l (render_members kvs @ r) = Some (kvs, r)"
    using m(3) l(1) by (intro "13.IH"(2) [OF kvs]) simp
  with l(2) m(1) show ?case by (simp del: parse_member.simps parse_members.simps(1) render_member.simps)
next
  case 5
  then show ?case by (cases n) simp_all
next
  case 7
  then show ?case by (cases n) simp_all
next
  case 9
  then show ?case by (cases n) simp_all
next
  case 12
  then show ?case by (cases n) simp_all
qed

lemma parse_json_render: "wf_json v \<Longrightarrow> parse_json (render v) = Some v"
  using parse_render(1) [of v "[]" "length (render v) + 1"] by (simp add: parse_json_def)

end
