(* ===== verification/Cv_Text.thy ===== *)
theory Cv_Text
  imports Cv_Json
begin

text \<open>
  The two textual forms Go's JSON encoder uses inside string literals: base64 for byte
  slices and RFC 3339 for instants, with the Gregorian calendar behind the latter.  Each
  comes with the lemma that its parser undoes its printer.
\<close>

section \<open>Literals that need no escaping\<close>

definition safe_char :: "char \<Rightarrow> bool" where
  "safe_char c \<longleftrightarrow> 0x20 \<le> code c \<and> code c < 0x80 \<and>
     c \<noteq> CHR 0x22 \<and> c \<noteq> CHR 0x5C \<and> c \<noteq> CHR 0x3C \<and> c \<noteq> CHR 0x3E \<and> c \<noteq> CHR 0x26"

lemma escape_safe: "list_all safe_char s \<Longrightarrow> escape s = s"
proof (induction s)
  case (Cons c s)
  then have "code c < 0x80" "esc_ascii c = [c]" by (simp_all add: safe_char_def esc_ascii_def)
  moreover from this have "rune_width (c # s) = 1" by (simp only: rune_width_1)
  ultimately show ?case using Cons by (simp add: escape.simps [of "c # s"])
qed simp

lemma valid_utf8_safe: "list_all safe_char s \<Longrightarrow> valid_utf8 s"
proof (induction s)
  case (Cons c s)
  then have "rune_width (c # s) = 1" by (simp only: rune_width_1) (simp add: safe_char_def)
  with Cons show ?case by (simp add: valid_utf8.simps [of "c # s"])
qed (simp add: valid_utf8.simps)

lemma unquote_safe: "list_all safe_char s \<Longrightarrow> unquote s = Some s"
  using unquote_escape [OF valid_utf8_safe] escape_safe by fastforce

section \<open>Base64\<close>

definition b64_char :: "nat \<Rightarrow> char" where
  "b64_char n =
     char_of (if n < 26 then 65 + n else if n < 52 then 71 + n else if n < 62 then n - 4
              else if n = 62 then 43 else 47)"

definition b64_val :: "char \<Rightarrow> nat option" where
  "b64_val c =
     (let n = code c
      in if 65 \<le> n \<and> n \<le> 90 then Some (n - 65)
         else if 97 \<le> n \<and> n \<le> 122 then Some (n - 71)
         else if 48 \<le> n \<and> n \<le> 57 then Some (n + 4)
         else if n = 43 then Some 62 else if n = 47 then Some 63 else None)"

abbreviation b64_pad :: char where "b64_pad \<equiv> CHR ''=''"

fun b64_encode :: "bytes \<Rightarrow> string" where
  "b64_encode [] = []"
| "b64_encode [a] = [b64_char (unat a div 4), b64_char (unat a mod 4 * 16), b64_pad, b64_pad]"
| "b64_encode [a, b] =
     [b64_char (unat a div 4), b64_char (unat a mod 4 * 16 + unat b div 16),
      b64_char (unat b mod 16 * 4), b64_pad]"
| "b64_encode (a # b # c # r) =
     b64_char (unat a div 4) # b64_char (unat a mod 4 * 16 + unat b div 16) #
     b64_char (unat b mod 16 * 4 + unat c div 64) # b64_char (unat c mod 64) # b64_encode r"

text \<open>Padding may end the text; the bits it cuts off are not checked.\<close>

fun b64_quads :: "string \<Rightarrow> bytes option" where
  "b64_quads [] = Some []"
| "b64_quads (a # b # c # d # r) =
     (if d = b64_pad
      then (if r \<noteq> [] then None
            else if c = b64_pad
            then (case (b64_val a, b64_val b) of
                    (Some w, Some x) \<Rightarrow> Some [word_of_nat (w * 4 + x div 16)]
                  | _ \<Rightarrow> None)
            else (case (b64_val a, b64_val b, b64_val c) of
                    (Some w, Some x, Some y) \<Rightarrow>
                      Some [word_of_nat (w * 4 + x div 16), word_of_nat (x mod 16 * 16 + y div 4)]
                  | _ \<Rightarrow> None))
      else (case (b64_val a, b64_val b, b64_val c, b64_val d) of
              (Some w, Some x, Some y, Some z) \<Rightarrow>
                map_option (\<lambda>t. word_of_nat (w * 4 + x div 16) # word_of_nat (x mod 16 * 16 + y div 4) #
                  word_of_nat (y mod 4 * 64 + z) # t) (b64_quads r)
            | _ \<Rightarrow> None))"
| "b64_quads _ = None"

definition b64_decode :: "string \<Rightarrow> bytes option" where
  "b64_decode s = b64_quads (filter (\<lambda>c. code c \<noteq> 10 \<and> code c \<noteq> 13) s)"

lemma b64_val_char [simp]: "n < 64 \<Longrightarrow> b64_val (b64_char n) = Some n"
  by (auto simp: b64_val_def b64_char_def Let_def)

lemma b64_char_not_pad [simp]: "n < 64 \<Longrightarrow> b64_char n \<noteq> b64_pad"
  using b64_val_char [of n] by (auto simp: b64_val_def)

lemma b64_char_safe: "n < 64 \<Longrightarrow> safe_char (b64_char n) \<and> code (b64_char n) \<noteq> 10 \<and> code (b64_char n) \<noteq> 13"
proof -
  assume n: "n < 64"
  let ?m = "if n < 26 then 65 + n else if n < 52 then 71 + n else if n < 62 then n - 4
              else if n = 62 then 43 else 47 :: nat"
  have m: "code (b64_char n) = ?m" using n by (simp add: b64_char_def)
  have "43 \<le> ?m" "?m < 0x80" "?m \<noteq> 0x5C" "?m \<noteq> 0x3C" "?m \<noteq> 0x3E" using n by auto
  with m show ?thesis by (auto simp: safe_char_def)
qed

lemma mixed_radix:
  fixes p q k :: nat
  assumes "q < k"
  shows "(p * k + q) div k = p" and "(p * k + q) mod k = q"
  using assms by simp_all

text \<open>How the bits of one, two and three bytes are cut into sextets and put together again.\<close>

lemma byte_cut:
  fixes x :: nat
  assumes "x < 256"
  shows "x div 4 < 64" "x mod 4 < 4" "x div 16 < 16" "x mod 16 < 16" "x div 64 < 4" "x mod 64 < 64"
  using assms by (simp_all add: less_mult_imp_div_less)

lemma unat_byte: "unat (a :: byte) < 256"
  using unsigned_less [of a, where ?'a = nat] by simp

lemma byte_parts:
  fixes a b :: byte
  shows "unat a div 4 < 64" "unat a mod 4 * 16 < 64" "unat a mod 4 * 16 + unat b div 16 < 64"
    "unat b mod 16 * 4 < 64" "unat b mod 16 * 4 + unat a div 64 < 64" "unat a mod 64 < 64"
  using byte_cut [OF unat_byte [of a]] byte_cut [OF unat_byte [of b]] by linarith+

lemma byte_join:
  fixes a b c :: byte
  shows "word_of_nat (unat a div 4 * 4 + unat a mod 4 * 16 div 16) = a"
    "word_of_nat (unat a div 4 * 4 + (unat a mod 4 * 16 + unat b div 16) div 16) = a"
    "word_of_nat ((unat a mod 4 * 16 + unat b div 16) mod 16 * 16 + unat b mod 16 * 4 div 4) = b"
    "word_of_nat ((unat a mod 4 * 16 + unat b div 16) mod 16 * 16 + (unat b mod 16 * 4 + unat c div 64) div 4) = b"
    "word_of_nat ((unat b mod 16 * 4 + unat c div 64) mod 4 * 64 + unat c mod 64) = c"
proof -
  note m = mixed_radix [OF byte_cut(3) [OF unat_byte [of b]], of "unat a mod 4"]
    mixed_radix [OF byte_cut(5) [OF unat_byte [of c]], of "unat b mod 16"]
  have one: "x * 16 div 16 = x" "x * 4 div 4 = x" for x :: nat by simp_all
  show "word_of_nat (unat a div 4 * 4 + unat a mod 4 * 16 div 16) = a"
    "word_of_nat (unat a div 4 * 4 + (unat a mod 4 * 16 + unat b div 16) div 16) = a"
    "word_of_nat ((unat a mod 4 * 16 + unat b div 16) mod 16 * 16 + unat b mod 16 * 4 div 4) = b"
    "word_of_nat ((unat a mod 4 * 16 + unat b div 16) mod 16 * 16 + (unat b mod 16 * 4 + unat c div 64) div 4) = b"
    "word_of_nat ((unat b mod 16 * 4 + unat c div 64) mod 4 * 64 + unat c mod 64) = c"
    unfolding m one by simp_all
qed

lemma b64_quads_encode: "b64_quads (b64_encode bs) = Some bs"
  by (induction bs rule: b64_encode.induct)
    (simp_all only: b64_encode.simps b64_quads.simps b64_val_char b64_char_not_pad byte_parts byte_join
      option.simps prod.case if_True if_False simp_thms list.simps)

lemma b64_encode_safe:
  "list_all (\<lambda>c. safe_char c \<and> code c \<noteq> 10 \<and> code c \<noteq> 13) (b64_encode bs)"
  by (induction bs rule: b64_encode.induct)
    (simp_all only: b64_encode.simps list.pred_inject b64_char_safe byte_parts simp_thms,
     simp_all add: safe_char_def)

lemma b64_decode_encode: "b64_decode (b64_encode bs) = Some bs"
proof -
  have "filter (\<lambda>c. code c \<noteq> 10 \<and> code c \<noteq> 13) (b64_encode bs) = b64_encode bs"
    using b64_encode_safe [of bs] by (auto simp: list_all_iff intro: filter_True)
  then show ?thesis by (simp only: b64_decode_def b64_quads_encode)
qed

section \<open>The calendar\<close>

definition isLeap :: "int \<Rightarrow> bool" where
  "isLeap y \<longleftrightarrow> y mod 4 = 0 \<and> (y mod 100 \<noteq> 0 \<or> y mod 400 = 0)"

definition month_lengths :: "bool \<Rightarrow> nat list" where
  "month_lengths leap = [31, if leap then 29 else 28, 31, 30, 31, 30, 31, 31, 30, 31, 30, 31]"

text \<open>
  Year and day of the year of a day counted from 1 January of year 1, by cutting off
  400-year, 100-year, 4-year and 1-year cycles, the last of which may be a day longer.
\<close>

definition civil_year :: "int \<Rightarrow> int \<times> nat" where
  "civil_year z =
     (let a = z div 146097; r = z mod 146097;
          b0 = r div 36524; b = b0 - b0 div 4; r2 = r - 36524 * b;
          c = r2 div 1461; r3 = r2 - 1461 * c;
          n0 = r3 div 365; n = n0 - n0 div 4
      in (400 * a + 100 * b + 4 * c + n + 1, nat (r3 - 365 * n)))"

definition year_start :: "int \<Rightarrow> int" where
  "year_start y = 365 * (y - 1) + (y - 1) div 4 - (y - 1) div 100 + (y - 1) div 400"

fun month_of :: "nat \<Rightarrow> nat list \<Rightarrow> nat \<Rightarrow> nat \<times> nat" where
  "month_of m [] yday = (m, yday + 1)"
| "month_of m (l # ls) yday = (if yday < l then (m, yday + 1) else month_of (m + 1) ls (yday - l))"

text \<open>A day of the calendar back to a day count, where there is such a day.\<close>

definition day_number :: "int \<Rightarrow> nat \<Rightarrow> nat \<Rightarrow> int option" where
  "day_number y m d =
     (let ls = month_lengths (isLeap y)
      in if 1 \<le> m \<and> m \<le> 12 \<and> 1 \<le> d \<and> d \<le> ls ! (m - 1)
         then Some (year_start y + int (sum_list (take (m - 1) ls)) + int d - 1) else None)"

lemma div_between:
  fixes x k :: int
  assumes "0 < k"
  shows "k * (x div k) \<le> x" and "x < k * (x div k) + k"
  using mult_div_mod_eq [of k x] pos_mod_bound [OF assms, of x] pos_mod_sign [OF assms, of x] by linarith+

lemma civil_year_range:
  assumes "civil_year z = (y, yd)"
  shows "year_start y + int yd = z" and "yd < sum_list (month_lengths (isLeap y))"
proof -
  define a r where "a = z div 146097" and "r = z mod 146097"
  define b0 where "b0 = r div 36524"
  define b where "b = b0 - b0 div 4"
  define r2 where "r2 = r - 36524 * b"
  define c where "c = r2 div 1461"
  define r3 where "r3 = r2 - 1461 * c"
  define n0 where "n0 = r3 div 365"
  define n where "n = n0 - n0 div 4"
  have y: "y = 400 * a + 100 * b + 4 * c + n + 1" and yd: "yd = nat (r3 - 365 * n)"
    using assms unfolding civil_year_def Let_def a_def r_def b0_def b_def r2_def c_def r3_def n0_def n_def
    by auto
  have z: "z = 146097 * a + r" by (simp add: a_def r_def)
  have r: "0 \<le> r" "r \<le> 146096" using r_def pos_mod_bound [of 146097 z] by simp_all
  have b0: "0 \<le> b0" "b0 \<le> 4" "36524 * b0 \<le> r" "r < 36524 * b0 + 36524"
    using r div_between [of 36524 r] unfolding b0_def by linarith+
  have b: "0 \<le> b" "b \<le> 3" "0 \<le> r2" "r2 \<le> 36524" "r2 = 36524 \<Longrightarrow> b = 3"
    using b0 r unfolding b_def r2_def by (cases "b0 = 4"; simp)+
  have c: "0 \<le> c" "c \<le> 24" "1461 * c \<le> r2" "r2 < 1461 * c + 1461"
    using b(3,4) div_between [of 1461 r2] unfolding c_def by linarith+
  have r3: "0 \<le> r3" "r3 \<le> 1460" using c unfolding r3_def by simp_all
  have n0: "0 \<le> n0" "n0 \<le> 4" "365 * n0 \<le> r3" "r3 < 365 * n0 + 365"
    using r3 div_between [of 365 r3] unfolding n0_def by linarith+
  have n: "0 \<le> n" "n \<le> 3" "0 \<le> r3 - 365 * n" "r3 - 365 * n \<le> 365" "r3 - 365 * n = 365 \<Longrightarrow> n = 3"
    using n0 r3 unfolding n_def by (cases "n0 = 4"; simp)+
  have "(y - 1) div 4 = 100 * a + 25 * b + c"
    using y n(1,2) by (intro int_div_pos_eq [where r = n]) auto
  moreover have "(y - 1) div 100 = 4 * a + b"
    using y n(1,2) c(1,2) by (intro int_div_pos_eq [where r = "4 * c + n"]) auto
  moreover have "(y - 1) div 400 = a"
    using y n(1,2) c(1,2) b(1,2) by (intro int_div_pos_eq [where r = "100 * b + 4 * c + n"]) auto
  ultimately show "year_start y + int yd = z"
    using y z yd n(3) by (simp add: year_start_def r3_def r2_def)
  show "yd < sum_list (month_lengths (isLeap y))"
  proof (cases "r3 - 365 * n = 365")
    case True
    then have n3: "n = 3" "r3 = 1460" using n(5) by simp_all
    have y4: "y = 4 * (100 * a + 25 * b + c + 1)" using y n3(1) by simp
    have "isLeap y"
    proof (cases "c = 24")
      case True
      then have "b = 3" using n3(2) b(5) unfolding r3_def by simp
      with True y4 have "y = 400 * (a + 1)" by simp
      then show ?thesis by (simp add: isLeap_def)
    next
      case False
      have "y mod 100 = 4 * c + 4"
        by (rule int_mod_pos_eq [where q = "4 * a + b"]) (use y4 c False in simp_all)
      then show ?thesis using y4 c(1) by (simp add: isLeap_def)
    qed
    then show ?thesis using yd True by (simp add: month_lengths_def)
  next
    case False
    then have "yd < 365" using yd n by simp
    then show ?thesis by (simp add: month_lengths_def)
  qed
qed

lemma month_of_correct:
  assumes "yd < sum_list ls" and "month_of m ls yd = (m', d)"
  shows "m \<le> m' \<and> m' < m + length ls \<and> 1 \<le> d \<and> d \<le> ls ! (m' - m) \<and>
    sum_list (take (m' - m) ls) + d = yd + 1"
  using assms
proof (induction ls arbitrary: m yd)
  case (Cons l ls)
  show ?case
  proof (cases "yd < l")
    case True
    with Cons.prems show ?thesis by auto
  next
    case False
    then have IH: "Suc m \<le> m' \<and> m' < Suc m + length ls \<and> 1 \<le> d \<and> d \<le> ls ! (m' - Suc m) \<and>
        sum_list (take (m' - Suc m) ls) + d = yd - l + 1"
      using Cons.IH [of "yd - l" "Suc m"] Cons.prems by auto
    then obtain k where "m' - m = Suc k" "m' - Suc m = k" by (metis Suc_diff_Suc Suc_le_lessD)
    with IH False show ?thesis by auto
  qed
qed simp

lemma day_number_civil:
  assumes "civil_year z = (y, yd)" and "month_of 1 (month_lengths (isLeap y)) yd = (m, d)"
  shows "day_number y m d = Some z" and "m \<le> 12" and "d \<le> 31"
proof -
  note c = civil_year_range [OF assms(1)]
  note md = month_of_correct [OF c(2) assms(2)]
  have len: "length (month_lengths l) = 12" for l by (simp add: month_lengths_def)
  then show "m \<le> 12" using md by simp
  have "list_all (\<lambda>x. x \<le> 31) (month_lengths l)" for l by (simp add: month_lengths_def)
  then have "month_lengths l ! i \<le> 31" if "i < 12" for l i
    using that len [of l] by (simp add: list_all_length)
  then show "d \<le> 31" using md len by (metis add_diff_inverse_nat leD le_trans nat_add_left_cancel_less)
  have "int (sum_list (take (m - 1) (month_lengths (isLeap y)))) + int d = int yd + 1"
    using md by (metis of_nat_1 of_nat_add)
  then show "day_number y m d = Some z"
    using c(1) md len by (simp add: day_number_def)
qed

section \<open>RFC 3339\<close>

text \<open>A number written with exactly \<open>k\<close> digits.\<close>

primrec fixed_digits :: "nat \<Rightarrow> nat \<Rightarrow> string" where
  "fixed_digits 0 n = []"
| "fixed_digits (Suc k) n = fixed_digits k (n div 10) @ [digit_char (n mod 10)]"

definition frac_digits :: "nat \<Rightarrow> string" where
  "frac_digits ns = rev (dropWhile (\<lambda>c. c = CHR ''0'') (rev (fixed_digits 9 ns)))"

definition day_nanos :: int where "day_nanos = 24 * Hour"

text \<open>\<^verbatim>\<open>Time.MarshalJSON\<close> of an instant in UTC: years outside 0 to 9999 are refused.\<close>

definition format_time :: "gotime \<Rightarrow> string option" where
  "format_time t =
     (let (y, yd) = civil_year (t div day_nanos);
          (m, d) = month_of 1 (month_lengths (isLeap y)) yd;
          s = nat (t mod day_nanos div Second);
          ns = nat (t mod Second)
      in if 0 \<le> y \<and> y \<le> 9999
         then Some (fixed_digits 4 (nat y) @ CHR ''-'' # fixed_digits 2 m @ CHR ''-'' # fixed_digits 2 d @
                CHR ''T'' # fixed_digits 2 (s div 3600) @ CHR '':'' # fixed_digits 2 (s div 60 mod 60) @
                CHR '':'' # fixed_digits 2 (s mod 60) @
                (if ns = 0 then [] else CHR ''.'' # frac_digits ns) @ ''Z'')
         else None)"

text \<open>
  \<^verbatim>\<open>Time.UnmarshalJSON\<close>: the strict RFC 3339 parser.  At most nine digits of a fraction
  count; a zone is \<^verbatim>\<open>Z\<close> or an offset.
\<close>

definition parse_frac :: "string \<Rightarrow> (nat \<times> string) option" where
  "parse_frac s =
     (case s of
        c # cs \<Rightarrow>
          if c = CHR ''.'' \<and> takeWhile is_digit cs \<noteq> []
          then map_option (\<lambda>n. (n, dropWhile is_digit cs))
                 (parse_digits 0 (take 9 (takeWhile is_digit cs @ replicate 9 (CHR ''0''))))
          else Some (0, s)
      | [] \<Rightarrow> Some (0, s))"

definition parse_zone :: "string \<Rightarrow> int option" where
  "parse_zone s =
     (if s = ''Z'' then Some 0
      else if length s = 6 \<and> (s ! 0 = CHR ''+'' \<or> s ! 0 = CHR ''-'') \<and> s ! 3 = CHR '':''
      then (case (parse_digits 0 (take 2 (drop 1 s)), parse_digits 0 (drop 4 s)) of
              (Some h, Some m) \<Rightarrow>
                if h \<le> 23 \<and> m \<le> 59
                then Some ((if s ! 0 = CHR ''+'' then 1 else - 1) * int (h * 3600 + m * 60)) else None
            | _ \<Rightarrow> None)
      else None)"

definition parse_time :: "string \<Rightarrow> gotime option" where
  "parse_time s =
     (if length s < 20 \<or> s ! 4 \<noteq> CHR ''-'' \<or> s ! 7 \<noteq> CHR ''-'' \<or> s ! 10 \<noteq> CHR ''T'' \<or>
         s ! 13 \<noteq> CHR '':'' \<or> s ! 16 \<noteq> CHR '':''
      then None
      else case (parse_digits 0 (take 4 s), parse_digits 0 (take 2 (drop 5 s)), parse_digits 0 (take 2 (drop 8 s)),
                 parse_digits 0 (take 2 (drop 11 s)), parse_digits 0 (take 2 (drop 14 s)),
                 parse_digits 0 (take 2 (drop 17 s)), parse_frac (drop 19 s)) of
          (Some y, Some m, Some d, Some hh, Some mm, Some ss, Some (ns, z)) \<Rightarrow>
            (case (day_number (int y) m d, parse_zone z) of
               (Some day, Some off) \<Rightarrow>
                 if hh \<le> 23 \<and> mm \<le> 59 \<and> ss \<le> 59
                 then Some ((day * 86400 + int (hh * 3600 + mm * 60 + ss) - off) * Second + int ns)
                 else None
             | _ \<Rightarrow> None)
        | _ \<Rightarrow> None)"

lemma fixed_digits_length [simp]: "length (fixed_digits k n) = k"
  by (induction k arbitrary: n) simp_all

lemma fixed_digits_parse: "parse_digits 0 (fixed_digits k n) = Some (n mod 10 ^ k)"
proof (induction k arbitrary: n)
  case (Suc k)
  have "10 * (n div 10 mod 10 ^ k) + n mod 10 = n mod 10 ^ Suc k"
    by (simp only: power_Suc mod_mult2_eq)
  then show ?case by (simp add: Suc parse_digits_append)
qed simp

lemma fixed_digits_all: "list_all is_digit (fixed_digits k n)"
  by (induction k arbitrary: n) simp_all

lemma trailing_zeros:
  fixes s :: string
  defines "t \<equiv> rev (dropWhile (\<lambda>c. c = CHR ''0'') (rev s))"
  shows "t @ replicate (length s - length t) (CHR ''0'') = s"
proof -
  define u where "u = takeWhile (\<lambda>c. c = CHR ''0'') (rev s)"
  have u: "rev u = replicate (length u) (CHR ''0'')"
    by (rule replicate_eqI) (auto simp: u_def dest: set_takeWhileD)
  have "rev s = u @ rev t" by (simp add: t_def u_def)
  from arg_cong [OF this, of rev] have s: "s = t @ rev u" by simp
  then have "length s - length t = length u" by simp
  with s u show ?thesis by simp
qed

lemma take_pad:
  assumes "length t \<le> k" and "t @ replicate (k - length t) x = s"
  shows "take k (t @ replicate k x) = s"
  using assms by (simp add: min_def flip: assms(2))

lemma frac_digits_pad: "take 9 (frac_digits ns @ replicate 9 (CHR ''0'')) = fixed_digits 9 ns"
proof (rule take_pad)
  show "length (frac_digits ns) \<le> 9"
    using length_dropWhile_le [of "\<lambda>c. c = CHR ''0''" "rev (fixed_digits 9 ns)"]
    by (simp add: frac_digits_def)
  show "frac_digits ns @ replicate (9 - length (frac_digits ns)) (CHR ''0'') = fixed_digits 9 ns"
    using trailing_zeros [of "fixed_digits 9 ns"] by (simp add: frac_digits_def)
qed

lemma frac_digits_all: "list_all is_digit (frac_digits ns)"
  using fixed_digits_all [of 9 ns] set_dropWhileD [of _ "\<lambda>c. c = CHR ''0''" "rev (fixed_digits 9 ns)"]
  by (auto simp: frac_digits_def list_all_iff)

lemma parse_frac_format:
  assumes "ns < 10 ^ 9"
  shows "parse_frac ((if ns = 0 then [] else CHR ''.'' # frac_digits ns) @ ''Z'') = Some (ns, ''Z'')"
proof (cases "ns = 0")
  case True
  then show ?thesis by (simp add: parse_frac_def)
next
  case False
  have z: "\<not> is_digit (CHR ''Z'')" by (simp add: is_digit_def digit_val_def)
  have tw: "takeWhile is_digit (frac_digits ns @ ''Z'') = frac_digits ns"
    "dropWhile is_digit (frac_digits ns @ ''Z'') = ''Z''"
    using frac_digits_all [of ns] z by (simp_all add: list_all_iff)
  have "frac_digits ns \<noteq> []"
  proof
    assume "frac_digits ns = []"
    then have "fixed_digits 9 ns = replicate 9 (CHR ''0'')" using frac_digits_pad [of ns] by simp
    then have "ns mod 10 ^ 9 = 0"
      using fixed_digits_parse [of 9 ns] parse_digits_zeros [of 9] by simp
    with False assms show False by simp
  qed
  moreover have "parse_digits 0 (take 9 (frac_digits ns @ replicate 9 (CHR ''0''))) = Some ns"
    using assms by (simp only: frac_digits_pad fixed_digits_parse mod_less)
  ultimately show ?thesis using False tw by (simp add: parse_frac_def)
qed

text \<open>The fields of a printed instant, and what the parser makes of them.\<close>

definition time_text :: "nat \<Rightarrow> nat \<Rightarrow> nat \<Rightarrow> nat \<Rightarrow> nat \<Rightarrow> nat \<Rightarrow> string \<Rightarrow> string" where
  "time_text y m d hh mm ss r =
     fixed_digits 4 y @ CHR ''-'' # fixed_digits 2 m @ CHR ''-'' # fixed_digits 2 d @
     CHR ''T'' # fixed_digits 2 hh @ CHR '':'' # fixed_digits 2 mm @ CHR '':'' # fixed_digits 2 ss @ r"

lemma two_digits: "\<exists>a b. fixed_digits 2 n = [a, b]"
  by (simp add: numeral_2_eq_2)

lemma four_digits: "\<exists>a b c d. fixed_digits 4 n = [a, b, c, d]"
proof -
  have "(4 :: nat) = Suc (Suc (Suc (Suc 0)))" by simp
  then show ?thesis by (simp only: fixed_digits.simps append.simps list.inject ex_simps simp_thms)
qed

lemma time_text_fields:
  fixes y m d hh mm ss r
  defines "s \<equiv> time_text y m d hh mm ss r"
  shows "take 4 s = fixed_digits 4 y" "take 2 (drop 5 s) = fixed_digits 2 m"
    "take 2 (drop 8 s) = fixed_digits 2 d" "take 2 (drop 11 s) = fixed_digits 2 hh"
    "take 2 (drop 14 s) = fixed_digits 2 mm" "take 2 (drop 17 s) = fixed_digits 2 ss" "drop 19 s = r"
    "length s = 19 + length r" "s ! 4 = CHR ''-''" "s ! 7 = CHR ''-''" "s ! 10 = CHR ''T''"
    "s ! 13 = CHR '':''" "s ! 16 = CHR '':''"
proof -
  obtain a b c e where y: "fixed_digits 4 y = [a, b, c, e]" using four_digits by blast
  obtain m1 m2 where m: "fixed_digits 2 m = [m1, m2]" using two_digits by blast
  obtain d1 d2 where d: "fixed_digits 2 d = [d1, d2]" using two_digits by blast
  obtain h1 h2 where hh: "fixed_digits 2 hh = [h1, h2]" using two_digits by blast
  obtain n1 n2 where mm: "fixed_digits 2 mm = [n1, n2]" using two_digits by blast
  obtain s1 s2 where ss: "fixed_digits 2 ss = [s1, s2]" using two_digits by blast
  show "take 4 s = fixed_digits 4 y" "take 2 (drop 5 s) = fixed_digits 2 m"
    "take 2 (drop 8 s) = fixed_digits 2 d" "take 2 (drop 11 s) = fixed_digits 2 hh"
    "take 2 (drop 14 s) = fixed_digits 2 mm" "take 2 (drop 17 s) = fixed_digits 2 ss" "drop 19 s = r"
    "length s = 19 + length r" "s ! 4 = CHR ''-''" "s ! 7 = CHR ''-''" "s ! 10 = CHR ''T''"
    "s ! 13 = CHR '':''" "s ! 16 = CHR '':''"
    unfolding s_def time_text_def y m d hh mm ss by simp_all
qed

lemma parse_time_text:
  assumes "y < 10000" "m < 100" "d < 100" "hh \<le> 23" "mm \<le> 59" "ss \<le> 59" "r \<noteq> []"
    and "parse_frac r = Some (ns, ''Z'')" and "day_number (int y) m d = Some day"
  shows "parse_time (time_text y m d hh mm ss r) =
    Some ((day * 86400 + int (hh * 3600 + mm * 60 + ss)) * Second + int ns)"
proof -
  have "parse_digits 0 (fixed_digits 4 y) = Some y"
    using assms(1) by (simp add: fixed_digits_parse)
  moreover have "n < 100 \<Longrightarrow> parse_digits 0 (fixed_digits 2 n) = Some n" for n
    by (simp add: fixed_digits_parse)
  moreover have "parse_zone ''Z'' = Some 0" by (simp add: parse_zone_def)
  moreover have "0 < length r" using assms(7) by simp
  ultimately show ?thesis
    unfolding parse_time_def time_text_fields using assms by simp
qed

lemma clock_split:
  fixes s :: nat
  assumes "s < 86400"
  shows "s div 3600 \<le> 23" "s div 60 mod 60 \<le> 59" "s mod 60 \<le> 59"
    "s div 3600 * 3600 + s div 60 mod 60 * 60 + s mod 60 = s"
proof -
  show "s div 3600 \<le> 23" using assms by (simp add: less_mult_imp_div_less flip: less_Suc_eq_le)
  have lt: "s div 60 mod 60 < 60" "s mod 60 < 60" by simp_all
  then show "s div 60 mod 60 \<le> 59" "s mod 60 \<le> 59" by linarith+
  have "s div 60 div 60 = s div 3600" by (simp add: div_mult2_eq [symmetric])
  then have "s div 3600 * 60 + s div 60 mod 60 = s div 60" using div_mult_mod_eq [of "s div 60" 60] by simp
  moreover have "s div 60 * 60 + s mod 60 = s" by (rule div_mult_mod_eq)
  ultimately show "s div 3600 * 3600 + s div 60 mod 60 * 60 + s mod 60 = s" by linarith
qed

lemma nanos_split:
  fixes t :: gotime
  defines "s \<equiv> nat (t mod day_nanos div Second)"
  shows "s < 86400" and "nat (t mod Second) < 10 ^ 9"
    and "(t div day_nanos * 86400 + int s) * Second + int (nat (t mod Second)) = t"
proof -
  have r: "0 \<le> t mod day_nanos" "t mod day_nanos < 86400 * Second"
    by (simp_all add: day_nanos_def duration_units)
  have "t mod day_nanos div Second < 86400"
    using r(2) by (simp add: Second_def)
  then show "s < 86400" by (simp add: s_def)
  show "nat (t mod Second) < 10 ^ 9" by (simp add: Second_def nat_less_iff)
  have "0 \<le> t mod day_nanos div Second" using r(1) by (simp add: Second_def pos_imp_zdiv_nonneg_iff)
  then have s: "int s = t mod day_nanos div Second" by (simp add: s_def)
  have "t mod day_nanos mod Second = t mod Second"
    by (rule mod_mod_cancel) (simp add: day_nanos_def duration_units)
  then have "t mod day_nanos = t mod day_nanos div Second * Second + t mod Second"
    using div_mult_mod_eq [of "t mod day_nanos" Second] by simp
  moreover have "t = t div day_nanos * (86400 * Second) + t mod day_nanos"
    using div_mult_mod_eq [of t day_nanos] by (simp add: day_nanos_def duration_units)
  moreover have "0 \<le> t mod Second" by (simp add: Second_def)
  ultimately show "(t div day_nanos * 86400 + int s) * Second + int (nat (t mod Second)) = t"
    unfolding s by (simp add: algebra_simps)
qed

text \<open>Every instant that can be printed is read back exactly, to the nanosecond.\<close>

lemma parse_time_format:
  assumes "format_time t = Some s"
  shows "parse_time s = Some t"
proof -
  obtain y yd where y: "civil_year (t div day_nanos) = (y, yd)" by fastforce
  obtain m d where md: "month_of 1 (month_lengths (isLeap y)) yd = (m, d)" by fastforce
  define u where "u = nat (t mod day_nanos div Second)"
  define ns where "ns = nat (t mod Second)"
  define r where "r = (if ns = 0 then [] else CHR ''.'' # frac_digits ns) @ ''Z''"
  have yr: "0 \<le> y" "y \<le> 9999"
    and s: "s = time_text (nat y) m d (u div 3600) (u div 60 mod 60) (u mod 60) r"
    using assms y md
    by (auto simp: format_time_def Let_def time_text_def u_def ns_def r_def split: if_splits)
  note n = nanos_split [of t, folded u_def ns_def]
  note c = clock_split [OF n(1)]
  have day: "day_number (int (nat y)) m d = Some (t div day_nanos)" "m \<le> 12" "d \<le> 31"
    using day_number_civil [OF y md] yr by simp_all
  have "parse_frac r = Some (ns, ''Z'')" unfolding r_def by (rule parse_frac_format [OF n(2)])
  moreover have "r \<noteq> []" by (simp add: r_def)
  ultimately have "parse_time s = Some ((t div day_nanos * 86400 + int u) * Second + int ns)"
    using parse_time_text [of "nat y" m d "u div 3600" "u div 60 mod 60" "u mod 60" r ns] yr c day
    unfolding s by simp
  with n(3) show ?thesis by simp
qed

lemma is_digit_safe: "is_digit c \<Longrightarrow> safe_char c"
  by (auto simp: is_digit_def digit_val_def safe_char_def Let_def split: if_splits)

lemma format_time_safe: "format_time t = Some s \<Longrightarrow> list_all safe_char s"
proof -
  have d: "list_all safe_char (fixed_digits k n)" "list_all safe_char (frac_digits n)" for k n
    using fixed_digits_all [of k n] frac_digits_all [of n] by (auto simp: list_all_iff is_digit_safe)
  have p: "safe_char (CHR ''-'')" "safe_char (CHR ''T'')" "safe_char (CHR '':'')" "safe_char (CHR ''.'')"
    "safe_char (CHR ''Z'')"
    by (simp_all add: safe_char_def)
  assume "format_time t = Some s"
  then show ?thesis
    by (auto simp: format_time_def Let_def d p simp del: fixed_digits.simps split: prod.splits if_splits)
qed

end
