(* ===== verification/Cv_Job.thy ===== *)
theory Cv_Job
  imports Cv_Prelude
begin

text \<open>
  The package \<^verbatim>\<open>internal/job\<close>: the job record, the states and priorities with their
  printed forms, the identifier generator of \<^verbatim>\<open>job.go\<close>, and the retry delay of
  \<^verbatim>\<open>backoff.go\<close>.  Randomness and the clock are arguments: \<^verbatim>\<open>NewID\<close> takes the clock
  reading and the eight random bytes it drew, \<^verbatim>\<open>Backoff\<close> takes the raw draw that
  \<^verbatim>\<open>rand.Int64N\<close> reduces below its bound.
\<close>

section \<open>States and priorities\<close>

datatype job_state =
  StateUnspecified | StatePending | StateLeased | StateRetryWait | StateDone | StateDeadLetter

definition Leasable :: "job_state \<Rightarrow> bool" where
  "Leasable s \<longleftrightarrow> s = StatePending \<or> s = StateRetryWait"

definition Terminal :: "job_state \<Rightarrow> bool" where
  "Terminal s \<longleftrightarrow> s = StateDone \<or> s = StateDeadLetter"

fun State_String :: "job_state \<Rightarrow> string" where
  "State_String StatePending = ''pending''"
| "State_String StateLeased = ''leased''"
| "State_String StateRetryWait = ''retry_wait''"
| "State_String StateDone = ''done''"
| "State_String StateDeadLetter = ''dead_letter''"
| "State_String StateUnspecified = ''unspecified''"

datatype priority = PriorityLow | PriorityNormal | PriorityHigh

primrec priority_code :: "priority \<Rightarrow> nat" where
  "priority_code PriorityLow = 0"
| "priority_code PriorityNormal = 1"
| "priority_code PriorityHigh = 2"

lemma priority_code_inject [simp]: "priority_code p = priority_code q \<longleftrightarrow> p = q"
  by (cases p; cases q) simp_all

text \<open>Priorities are the unsigned numbers of the source, so they are compared as numbers.\<close>

instantiation priority :: linorder
begin

definition less_eq_priority :: "priority \<Rightarrow> priority \<Rightarrow> bool" where
  "less_eq_priority p q \<longleftrightarrow> priority_code p \<le> priority_code q"

definition less_priority :: "priority \<Rightarrow> priority \<Rightarrow> bool" where
  "less_priority p q \<longleftrightarrow> priority_code p < priority_code q"

instance
  by standard (auto simp: less_eq_priority_def less_priority_def)

end

fun Priority_String :: "priority \<Rightarrow> string" where
  "Priority_String PriorityLow = ''low''"
| "Priority_String PriorityHigh = ''high''"
| "Priority_String PriorityNormal = ''normal''"

text \<open>\<open>Inl\<close> carries the name the error message of the source quotes.\<close>

definition ParsePriority :: "string \<Rightarrow> string + priority" where
  "ParsePriority s =
     (let t = to_lower (TrimSpace s)
      in if t = '''' \<or> t = ''normal'' then Inr PriorityNormal
         else if t = ''low'' then Inr PriorityLow
         else if t = ''high'' then Inr PriorityHigh
         else Inl s)"

section \<open>The job record\<close>

record job =
  ID :: string
  Queue :: string
  Handler :: string
  Payload :: bytes
  IdempotencyKey :: string
  Priority :: priority
  MaxRetries :: int
  Attempt :: int
  State :: job_state
  Epoch :: u64
  EnqueuedAt :: gotime
  EligibleAt :: gotime
  LeaseExpiresAt :: gotime
  LeasedBy :: string
  LastError :: string

text \<open>
  The deep copy of the source: every value here is immutable, so the copy of a
  present job is the job; the copy of a nil pointer is nil.
\<close>

definition Clone :: "job option \<Rightarrow> job option" where
  "Clone j = (case j of None \<Rightarrow> None | Some c \<Rightarrow> Some (c\<lparr>Payload := Payload c\<rparr>))"

lemma Clone_id [simp]: "Clone j = j"
  by (simp add: Clone_def split: option.splits)

section \<open>Identifiers\<close>

text \<open>\<^verbatim>\<open>binary.BigEndian\<close>: the \<open>k\<close> low bytes of a number, most significant first.\<close>

primrec be_bytes :: "nat \<Rightarrow> nat \<Rightarrow> bytes" where
  "be_bytes 0 n = []"
| "be_bytes (Suc k) n = be_bytes k (n div 256) @ [word_of_nat n]"

definition hex_char :: "nat \<Rightarrow> char" where
  "hex_char d = (if d < 10 then char_of (48 + d) else char_of (87 + d))"

definition hex_byte :: "byte \<Rightarrow> string" where
  "hex_byte b = [hex_char (unat b div 16), hex_char (unat b mod 16)]"

definition EncodeToString :: "bytes \<Rightarrow> string" where
  "EncodeToString bs = concat (map hex_byte bs)"

text \<open>
  \<open>None\<close> is the panic of the source when no random bytes can be read.  The clock
  reading is an \<^verbatim>\<open>int64\<close> that the source converts to \<^verbatim>\<open>uint64\<close>.
\<close>

definition NewID :: "int \<Rightarrow> bytes option \<Rightarrow> string option" where
  "NewID unixNano rnd =
     (case rnd of
        None \<Rightarrow> None
      | Some r \<Rightarrow> Some (EncodeToString (be_bytes 8 (nat (unixNano mod 2 ^ 64)) @ r)))"

section \<open>Backoff\<close>

definition DefaultBackoffBase :: duration where "DefaultBackoffBase = Second"
definition DefaultBackoffCap :: duration where "DefaultBackoffCap = 5 * Minute"
definition maxBackoffShift :: int where "maxBackoffShift = 32"

text \<open>\<^verbatim>\<open>rand.Int64N(n)\<close> for the raw draw \<open>r\<close>: every value in \<open>[0, n)\<close> is some draw's.\<close>

definition Int64N :: "nat \<Rightarrow> int \<Rightarrow> int" where
  "Int64N r n = int r mod n"

definition Backoff :: "int \<Rightarrow> duration \<Rightarrow> duration \<Rightarrow> nat \<Rightarrow> duration" where
  "Backoff attempt0 base0 cap0 r =
     (let attempt = (if attempt0 < 1 then 1 else attempt0);
          base = (if base0 \<le> 0 then DefaultBackoffBase else base0);
          capDelay = (if cap0 \<le> 0 then DefaultBackoffCap else cap0);
          shift0 = attempt - 1;
          shift = (if shift0 > maxBackoffShift then maxBackoffShift else shift0);
          d0 = wrap64 (base * 2 ^ nat shift);
          d = (if d0 \<le> 0 \<or> d0 > capDelay then capDelay else d0);
          half = quot d 2
      in if half \<le> 0 then d else half + Int64N r half)"

section \<open>Facts about states, priorities and identifiers\<close>

lemma Leasable_not_Terminal: "Leasable s \<Longrightarrow> \<not> Terminal s"
  by (auto simp: Leasable_def Terminal_def)

lemma Leasable_simps [simp]:
  "Leasable StatePending" "Leasable StateRetryWait" "\<not> Leasable StateLeased"
  "\<not> Leasable StateDone" "\<not> Leasable StateDeadLetter" "\<not> Leasable StateUnspecified"
  by (simp_all add: Leasable_def)

lemma State_String_inject: "State_String s = State_String t \<longleftrightarrow> s = t"
  by (cases s; cases t) simp_all

lemma ParsePriority_String: "ParsePriority (Priority_String p) = Inr p"
  by (cases p) (simp_all add: ParsePriority_def TrimSpace_printable printable_def)

lemma be_bytes_length [simp]: "length (be_bytes k n) = k"
  by (induction k arbitrary: n) simp_all

lemma list_less_append_same_length:
  fixes xs ys us vs :: "'a :: order list"
  assumes "length xs = length ys" and "xs < ys"
  shows "xs @ us < ys @ vs"
  using assms by (induction xs ys rule: list_induct2) auto

lemma list_less_append_same_prefix:
  fixes xs us vs :: "'a :: order list"
  shows "xs @ us < xs @ vs \<longleftrightarrow> us < vs"
  by (induction xs) auto

lemma be_bytes_less:
  assumes "m < n" and "n < 256 ^ k"
  shows "be_bytes k m < be_bytes k n"
  using assms
proof (induction k arbitrary: m n)
  case 0
  then show ?case by simp
next
  case (Suc k)
  show ?case
  proof (cases "m div 256 = n div 256")
    case True
    with Suc.prems(1) have "m mod 256 < n mod 256"
      by (metis div_mult_mod_eq nat_add_left_cancel_less)
    then have "(word_of_nat m :: byte) < word_of_nat n"
      by (simp add: word_less_nat_alt unat_of_nat)
    with True show ?thesis by (simp add: list_less_append_same_prefix)
  next
    case False
    with Suc.prems(1) have "m div 256 < n div 256"
      by (metis div_le_mono le_neq_implies_less less_imp_le)
    moreover from Suc.prems(2) have "n div 256 < 256 ^ k"
      by (simp add: less_mult_imp_div_less mult.commute)
    ultimately have "be_bytes k (m div 256) < be_bytes k (n div 256)"
      by (rule Suc.IH)
    then show ?thesis by (simp add: list_less_append_same_length)
  qed
qed

lemma hex_char_less: "d < e \<Longrightarrow> e < 16 \<Longrightarrow> hex_char d < hex_char e"
  by (auto simp: hex_char_def less_char_def)

lemma hex_byte_less: "b < c \<Longrightarrow> hex_byte b < hex_byte c"
proof -
  assume "b < c"
  then have lt: "unat b < unat c" by (simp add: word_less_nat_alt)
  have bound: "unat c < 256" using unsigned_less [of c] by simp
  show ?thesis
  proof (cases "unat b div 16 = unat c div 16")
    case True
    with lt have "unat b mod 16 < unat c mod 16"
      by (metis div_mult_mod_eq nat_add_left_cancel_less)
    with True show ?thesis by (simp add: hex_byte_def hex_char_less)
  next
    case False
    with lt have "unat b div 16 < unat c div 16"
      by (metis div_le_mono le_neq_implies_less less_imp_le)
    moreover from bound have "unat c div 16 < 16" by simp
    ultimately show ?thesis by (simp add: hex_byte_def hex_char_less)
  qed
qed

lemma hex_byte_length [simp]: "length (hex_byte b) = 2"
  by (simp add: hex_byte_def)

lemma EncodeToString_less:
  assumes "length bs = length cs" and "bs < cs"
  shows "EncodeToString bs < EncodeToString cs"
  using assms
proof (induction bs cs rule: list_induct2)
  case Nil
  then show ?case by simp
next
  case (Cons b bs c cs)
  show ?case
  proof (cases "b = c")
    case True
    with Cons show ?thesis by (simp add: EncodeToString_def list_less_append_same_prefix)
  next
    case False
    with Cons.prems have "hex_byte b < hex_byte c" by (simp add: hex_byte_less)
    then show ?thesis by (simp add: EncodeToString_def list_less_append_same_length)
  qed
qed

section \<open>Facts about the backoff\<close>

definition effective_cap :: "duration \<Rightarrow> duration" where
  "effective_cap c = (if c \<le> 0 then DefaultBackoffCap else c)"

lemma Int64N_bounds: "0 < n \<Longrightarrow> 0 \<le> Int64N r n \<and> Int64N r n < n"
  by (simp add: Int64N_def)

text \<open>The equal jitter: half of the delay is fixed, the rest is drawn below the other half.\<close>

lemma jitter_bounds:
  assumes "0 < d"
  shows "d div 2 \<le> (if quot d 2 \<le> 0 then d else quot d 2 + Int64N r (quot d 2))"
    and "(if quot d 2 \<le> 0 then d else quot d 2 + Int64N r (quot d 2)) \<le> d"
    and "0 < (if quot d 2 \<le> 0 then d else quot d 2 + Int64N r (quot d 2))"
proof -
  have q: "quot d 2 = d div 2" using assms by (simp add: quot_pos)
  have "0 < d div 2 \<Longrightarrow> 0 \<le> Int64N r (d div 2) \<and> Int64N r (d div 2) < d div 2"
    by (rule Int64N_bounds)
  then show "d div 2 \<le> (if quot d 2 \<le> 0 then d else quot d 2 + Int64N r (quot d 2))"
    and "(if quot d 2 \<le> 0 then d else quot d 2 + Int64N r (quot d 2)) \<le> d"
    and "0 < (if quot d 2 \<le> 0 then d else quot d 2 + Int64N r (quot d 2))"
    using assms unfolding q by auto
qed

lemma effective_cap_pos: "0 < effective_cap c"
  by (simp add: effective_cap_def DefaultBackoffCap_def duration_units)

lemma Backoff_unfold:
  obtains d where "0 < d" "d \<le> effective_cap c"
    and "Backoff a b c r = (if quot d 2 \<le> 0 then d else quot d 2 + Int64N r (quot d 2))"
proof -
  define d0 where "d0 = wrap64 ((if b \<le> 0 then DefaultBackoffBase else b) *
    2 ^ nat (if (if a < 1 then 1 else a) - 1 > maxBackoffShift then maxBackoffShift
             else (if a < 1 then 1 else a) - 1))"
  define d where "d = (if d0 \<le> 0 \<or> d0 > effective_cap c then effective_cap c else d0)"
  have "Backoff a b c r = (if quot d 2 \<le> 0 then d else quot d 2 + Int64N r (quot d 2))"
    by (simp add: Backoff_def Let_def d_def d0_def effective_cap_def)
  moreover have "0 < d" "d \<le> effective_cap c"
    using effective_cap_pos [of c] by (auto simp: d_def)
  ultimately show thesis by (rule that [rotated 2])
qed

end
