(* ===== verification/Cv_Event.thy ===== *)
theory Cv_Event
  imports Cv_Text Cv_Job
begin

text \<open>
  The records of the log (\<^verbatim>\<open>internal/broker/event.go\<close>) and of the snapshots
  (\<^verbatim>\<open>snapshot\<close> in \<^verbatim>\<open>store.go\<close>) with their JSON forms, following the struct tags field by
  field.  A number outside the declared states or priorities is reported as an error
  when decoded: nothing writes one.
\<close>

section \<open>Events\<close>

type_synonym eventType = string

definition eventSubmit :: eventType where "eventSubmit = ''submit''"
definition eventLease :: eventType where "eventLease = ''lease''"
definition eventAck :: eventType where "eventAck = ''ack''"
definition eventFail :: eventType where "eventFail = ''fail''"
definition eventReplayJob :: eventType where "eventReplayJob = ''replay''"
definition eventEpochReserve :: eventType where "eventEpochReserve = ''epoch_reserve''"

lemmas event_types =
  eventSubmit_def eventLease_def eventAck_def eventFail_def eventReplayJob_def eventEpochReserve_def

record event =
  evType :: eventType
  evJob :: "job option"
  evJobID :: string
  evEpoch :: u64
  evWorkerID :: string
  evLeaseExpiresAt :: gotime
  evAttempt :: int
  evReason :: string
  evNextState :: job_state
  evEligibleAt :: gotime
  evTimeout :: bool
  evReservedUpTo :: u64

definition zero_event :: event where
  "zero_event =
     \<lparr>evType = '''', evJob = None, evJobID = '''', evEpoch = 0, evWorkerID = '''',
      evLeaseExpiresAt = 0, evAttempt = 0, evReason = '''', evNextState = StateUnspecified,
      evEligibleAt = 0, evTimeout = False, evReservedUpTo = 0\<rparr>"

definition zero_job :: job where
  "zero_job =
     \<lparr>ID = '''', Queue = '''', Handler = '''', Payload = [], IdempotencyKey = '''',
      Priority = PriorityLow, MaxRetries = 0, Attempt = 0, State = StateUnspecified, Epoch = 0,
      EnqueuedAt = 0, EligibleAt = 0, LeaseExpiresAt = 0, LeasedBy = '''', LastError = ''''\<rparr>"

section \<open>Fields\<close>

primrec state_code :: "job_state \<Rightarrow> nat" where
  "state_code StateUnspecified = 0"
| "state_code StatePending = 1"
| "state_code StateLeased = 2"
| "state_code StateRetryWait = 3"
| "state_code StateDone = 4"
| "state_code StateDeadLetter = 5"

definition state_of_code :: "nat \<Rightarrow> job_state option" where
  "state_of_code n =
     map_of [(0, StateUnspecified), (1, StatePending), (2, StateLeased), (3, StateRetryWait),
       (4, StateDone), (5, StateDeadLetter)] n"

definition priority_of_code :: "nat \<Rightarrow> priority option" where
  "priority_of_code n = map_of [(0, PriorityLow), (1, PriorityNormal), (2, PriorityHigh)] n"

definition json_string :: "string \<Rightarrow> json" where "json_string s = JStr (escape s)"
definition json_nat :: "nat \<Rightarrow> json" where "json_nat n = JNum (Itoa (int n))"
definition json_int :: "int \<Rightarrow> json" where "json_int i = JNum (Itoa i)"
definition json_time :: "gotime \<Rightarrow> json option" where "json_time t = map_option JStr (format_time t)"
definition json_bytes :: "bytes \<Rightarrow> json" where "json_bytes bs = JStr (b64_encode bs)"

text \<open>Storing a literal into a field; \<open>null\<close> leaves the field as it is.\<close>

definition get_string :: "json \<Rightarrow> string \<Rightarrow> string option" where
  "get_string v old = (case v of JNull \<Rightarrow> Some old | JStr raw \<Rightarrow> unquote raw | _ \<Rightarrow> None)"

definition get_nat :: "nat \<Rightarrow> json \<Rightarrow> nat \<Rightarrow> nat option" where
  "get_nat bound v old =
     (case v of
        JNull \<Rightarrow> Some old
      | JNum lit \<Rightarrow>
          (case ParseUint lit of None \<Rightarrow> None | Some n \<Rightarrow> if n < bound then Some n else None)
      | _ \<Rightarrow> None)"

definition get_u64 :: "json \<Rightarrow> u64 \<Rightarrow> u64 option" where
  "get_u64 v old = map_option word_of_nat (get_nat (2 ^ 64) v (unat old))"

definition get_int :: "json \<Rightarrow> int \<Rightarrow> int option" where
  "get_int v old =
     (case v of
        JNull \<Rightarrow> Some old
      | JNum lit \<Rightarrow>
          (let (neg, ds) = (case lit of c # cs \<Rightarrow> if c = CHR ''-'' then (True, cs) else (False, lit) | [] \<Rightarrow> (False, lit))
           in if ds = [] then None
              else case parse_digits 0 ds of
                  None \<Rightarrow> None
                | Some n \<Rightarrow> (let i = (if neg then - int n else int n) in if int64_ok i then Some i else None))
      | _ \<Rightarrow> None)"

definition get_bool :: "json \<Rightarrow> bool \<Rightarrow> bool option" where
  "get_bool v old = (case v of JNull \<Rightarrow> Some old | JBool b \<Rightarrow> Some b | _ \<Rightarrow> None)"

definition get_time :: "json \<Rightarrow> gotime \<Rightarrow> gotime option" where
  "get_time v old = (case v of JNull \<Rightarrow> Some old | JStr raw \<Rightarrow> parse_time raw | _ \<Rightarrow> None)"

definition get_state :: "json \<Rightarrow> job_state \<Rightarrow> job_state option" where
  "get_state v old = Option.bind (get_nat 256 v (state_code old)) state_of_code"

definition get_priority :: "json \<Rightarrow> priority \<Rightarrow> priority option" where
  "get_priority v old = Option.bind (get_nat 256 v (priority_code old)) priority_of_code"

text \<open>A byte slice is a base64 string, or an array of numbers; \<open>null\<close> is the nil slice.\<close>

fun get_byte_list :: "json list \<Rightarrow> bytes option" where
  "get_byte_list [] = Some []"
| "get_byte_list (v # vs) =
     (case (get_nat 256 v 0, get_byte_list vs) of
        (Some n, Some bs) \<Rightarrow> Some (word_of_nat n # bs)
      | _ \<Rightarrow> None)"

definition get_bytes :: "json \<Rightarrow> bytes \<Rightarrow> bytes option" where
  "get_bytes v old =
     (case v of
        JNull \<Rightarrow> Some []
      | JStr raw \<Rightarrow> Option.bind (unquote raw) b64_decode
      | JArr vs \<Rightarrow> get_byte_list vs
      | _ \<Rightarrow> None)"

text \<open>
  The loop over the members of an object: an unknown key is skipped, a known one (its
  exact name, or else a name that differs in case only) is stored.
\<close>

definition field_name :: "string list \<Rightarrow> string \<Rightarrow> string option" where
  "field_name names key =
     (if key \<in> set names then Some key else find (\<lambda>n. to_lower n = to_lower key) names)"

fun store_fields ::
  "string list \<Rightarrow> (string \<Rightarrow> json \<Rightarrow> 'a \<Rightarrow> 'a option) \<Rightarrow> (string \<times> json) list \<Rightarrow> 'a \<Rightarrow> 'a option"
where
  "store_fields names st [] a = Some a"
| "store_fields names st ((k, v) # kvs) a =
     (case unquote k of
        None \<Rightarrow> None
      | Some key \<Rightarrow>
          (case field_name names key of
             None \<Rightarrow> store_fields names st kvs a
           | Some n \<Rightarrow> (case st n v a of None \<Rightarrow> None | Some b \<Rightarrow> store_fields names st kvs b)))"

text \<open>A field that is left out when it holds its zero value (\<^verbatim>\<open>omitempty\<close>, \<^verbatim>\<open>omitzero\<close>).\<close>

definition omit :: "bool \<Rightarrow> string \<Rightarrow> json \<Rightarrow> (string \<times> json) list" where
  "omit zero k v = (if zero then [] else [(k, v)])"

definition omit_time :: "string \<Rightarrow> gotime \<Rightarrow> (string \<times> json) list option" where
  "omit_time k t = (if t = 0 then Some [] else map_option (\<lambda>v. [(k, v)]) (json_time t))"

section \<open>Jobs\<close>

definition job_fields :: "string list" where
  "job_fields =
     [''id'', ''queue'', ''handler'', ''payload'', ''idempotency_key'', ''priority'', ''max_retries'',
      ''attempt'', ''state'', ''epoch'', ''enqueued_at'', ''eligible_at'', ''lease_expires_at'',
      ''leased_by'', ''last_error'']"

definition job_json :: "job \<Rightarrow> json option" where
  "job_json j =
     (case (json_time (EnqueuedAt j), json_time (EligibleAt j), omit_time ''lease_expires_at'' (LeaseExpiresAt j)) of
        (Some enq, Some el, Some lx) \<Rightarrow>
          Some (JObj
            ([(''id'', json_string (ID j)), (''queue'', json_string (Queue j)),
              (''handler'', json_string (Handler j))] @
             omit (Payload j = []) ''payload'' (json_bytes (Payload j)) @
             omit (IdempotencyKey j = []) ''idempotency_key'' (json_string (IdempotencyKey j)) @
             [(''priority'', json_nat (priority_code (Priority j))), (''max_retries'', json_int (MaxRetries j)),
              (''attempt'', json_int (Attempt j)), (''state'', json_nat (state_code (State j))),
              (''epoch'', json_nat (unat (Epoch j))), (''enqueued_at'', enq), (''eligible_at'', el)] @
             lx @ omit (LeasedBy j = []) ''leased_by'' (json_string (LeasedBy j)) @
             omit (LastError j = []) ''last_error'' (json_string (LastError j))))
      | _ \<Rightarrow> None)"

definition set_job_field :: "string \<Rightarrow> json \<Rightarrow> job \<Rightarrow> job option" where
  "set_job_field n v j =
     (if n = ''id'' then map_option (\<lambda>x. j\<lparr>ID := x\<rparr>) (get_string v (ID j))
      else if n = ''queue'' then map_option (\<lambda>x. j\<lparr>Queue := x\<rparr>) (get_string v (Queue j))
      else if n = ''handler'' then map_option (\<lambda>x. j\<lparr>Handler := x\<rparr>) (get_string v (Handler j))
      else if n = ''payload'' then map_option (\<lambda>x. j\<lparr>Payload := x\<rparr>) (get_bytes v (Payload j))
      else if n = ''idempotency_key'' then map_option (\<lambda>x. j\<lparr>IdempotencyKey := x\<rparr>) (get_string v (IdempotencyKey j))
      else if n = ''priority'' then map_option (\<lambda>x. j\<lparr>Priority := x\<rparr>) (get_priority v (Priority j))
      else if n = ''max_retries'' then map_option (\<lambda>x. j\<lparr>MaxRetries := x\<rparr>) (get_int v (MaxRetries j))
      else if n = ''attempt'' then map_option (\<lambda>x. j\<lparr>Attempt := x\<rparr>) (get_int v (Attempt j))
      else if n = ''state'' then map_option (\<lambda>x. j\<lparr>State := x\<rparr>) (get_state v (State j))
      else if n = ''epoch'' then map_option (\<lambda>x. j\<lparr>Epoch := x\<rparr>) (get_u64 v (Epoch j))
      else if n = ''enqueued_at'' then map_option (\<lambda>x. j\<lparr>EnqueuedAt := x\<rparr>) (get_time v (EnqueuedAt j))
      else if n = ''eligible_at'' then map_option (\<lambda>x. j\<lparr>EligibleAt := x\<rparr>) (get_time v (EligibleAt j))
      else if n = ''lease_expires_at'' then map_option (\<lambda>x. j\<lparr>LeaseExpiresAt := x\<rparr>) (get_time v (LeaseExpiresAt j))
      else if n = ''leased_by'' then map_option (\<lambda>x. j\<lparr>LeasedBy := x\<rparr>) (get_string v (LeasedBy j))
      else map_option (\<lambda>x. j\<lparr>LastError := x\<rparr>) (get_string v (LastError j)))"

text \<open>A pointer to a job: \<open>null\<close> is nil; an object is stored into the job already there.\<close>

definition get_job :: "json \<Rightarrow> job option \<Rightarrow> job option option" where
  "get_job v old =
     (case v of
        JNull \<Rightarrow> Some None
      | JObj kvs \<Rightarrow>
          map_option Some (store_fields job_fields set_job_field kvs (case old of None \<Rightarrow> zero_job | Some j \<Rightarrow> j))
      | _ \<Rightarrow> None)"

section \<open>Encoding and decoding events\<close>

definition event_fields :: "string list" where
  "event_fields = [''t'', ''job'', ''id'', ''e'', ''w'', ''lx'', ''a'', ''r'', ''ns'', ''el'', ''to'', ''ru'']"

definition event_json :: "event \<Rightarrow> json option" where
  "event_json e =
     (case (case evJob e of None \<Rightarrow> Some [] | Some j \<Rightarrow> map_option (\<lambda>v. [(''job'', v)]) (job_json j),
            omit_time ''lx'' (evLeaseExpiresAt e), omit_time ''el'' (evEligibleAt e)) of
        (Some jb, Some lx, Some el) \<Rightarrow>
          Some (JObj
            ([(''t'', json_string (evType e))] @ jb @
             omit (evJobID e = []) ''id'' (json_string (evJobID e)) @
             omit (evEpoch e = 0) ''e'' (json_nat (unat (evEpoch e))) @
             omit (evWorkerID e = []) ''w'' (json_string (evWorkerID e)) @ lx @
             omit (evAttempt e = 0) ''a'' (json_int (evAttempt e)) @
             omit (evReason e = []) ''r'' (json_string (evReason e)) @
             omit (evNextState e = StateUnspecified) ''ns'' (json_nat (state_code (evNextState e))) @ el @
             omit (\<not> evTimeout e) ''to'' (JBool (evTimeout e)) @
             omit (evReservedUpTo e = 0) ''ru'' (json_nat (unat (evReservedUpTo e)))))
      | _ \<Rightarrow> None)"

definition set_event_field :: "string \<Rightarrow> json \<Rightarrow> event \<Rightarrow> event option" where
  "set_event_field n v e =
     (if n = ''t'' then map_option (\<lambda>x. e\<lparr>evType := x\<rparr>) (get_string v (evType e))
      else if n = ''job'' then map_option (\<lambda>x. e\<lparr>evJob := x\<rparr>) (get_job v (evJob e))
      else if n = ''id'' then map_option (\<lambda>x. e\<lparr>evJobID := x\<rparr>) (get_string v (evJobID e))
      else if n = ''e'' then map_option (\<lambda>x. e\<lparr>evEpoch := x\<rparr>) (get_u64 v (evEpoch e))
      else if n = ''w'' then map_option (\<lambda>x. e\<lparr>evWorkerID := x\<rparr>) (get_string v (evWorkerID e))
      else if n = ''lx'' then map_option (\<lambda>x. e\<lparr>evLeaseExpiresAt := x\<rparr>) (get_time v (evLeaseExpiresAt e))
      else if n = ''a'' then map_option (\<lambda>x. e\<lparr>evAttempt := x\<rparr>) (get_int v (evAttempt e))
      else if n = ''r'' then map_option (\<lambda>x. e\<lparr>evReason := x\<rparr>) (get_string v (evReason e))
      else if n = ''ns'' then map_option (\<lambda>x. e\<lparr>evNextState := x\<rparr>) (get_state v (evNextState e))
      else if n = ''el'' then map_option (\<lambda>x. e\<lparr>evEligibleAt := x\<rparr>) (get_time v (evEligibleAt e))
      else if n = ''to'' then map_option (\<lambda>x. e\<lparr>evTimeout := x\<rparr>) (get_bool v (evTimeout e))
      else map_option (\<lambda>x. e\<lparr>evReservedUpTo := x\<rparr>) (get_u64 v (evReservedUpTo e)))"

definition to_bytes :: "string \<Rightarrow> bytes" where "to_bytes s = map (\<lambda>c. word_of_nat (code c)) s"
definition of_bytes :: "bytes \<Rightarrow> string" where "of_bytes bs = map (\<lambda>b. char_of (unat b)) bs"

definition encodeEvent :: "event \<Rightarrow> bytes option" where
  "encodeEvent e = map_option (to_bytes \<circ> render) (event_json e)"

text \<open>The top level accepts an object; \<open>null\<close> leaves the zero event.\<close>

definition decodeEvent :: "bytes \<Rightarrow> event option" where
  "decodeEvent b =
     (case parse_json (of_bytes b) of
        Some (JObj kvs) \<Rightarrow> store_fields event_fields set_event_field kvs zero_event
      | Some JNull \<Rightarrow> Some zero_event
      | _ \<Rightarrow> None)"

section \<open>Snapshots\<close>

record snapshot =
  snLastLSN :: u64
  snReservedUpTo :: u64
  snJobs :: "job option list"

definition snapshot_fields :: "string list" where
  "snapshot_fields = [''last_lsn'', ''epoch_reserved_up_to'', ''jobs'']"

fun jobs_json :: "job option list \<Rightarrow> json list option" where
  "jobs_json [] = Some []"
| "jobs_json (j # js) =
     (case (case j of None \<Rightarrow> Some JNull | Some x \<Rightarrow> job_json x, jobs_json js) of
        (Some v, Some vs) \<Rightarrow> Some (v # vs)
      | _ \<Rightarrow> None)"

text \<open>\<^verbatim>\<open>json.Marshal(&snap)\<close>; the slice is never nil where the store calls it.\<close>

definition encodeSnapshot :: "snapshot \<Rightarrow> bytes option" where
  "encodeSnapshot s =
     (case jobs_json (snJobs s) of
        None \<Rightarrow> None
      | Some vs \<Rightarrow>
          Some (to_bytes (render (JObj [(''last_lsn'', json_nat (unat (snLastLSN s))),
            (''epoch_reserved_up_to'', json_nat (unat (snReservedUpTo s))), (''jobs'', JArr vs)]))))"

fun get_jobs :: "json list \<Rightarrow> job option list option" where
  "get_jobs [] = Some []"
| "get_jobs (v # vs) =
     (case (get_job v None, get_jobs vs) of
        (Some j, Some js) \<Rightarrow> Some (j # js)
      | _ \<Rightarrow> None)"

definition set_snapshot_field :: "string \<Rightarrow> json \<Rightarrow> snapshot \<Rightarrow> snapshot option" where
  "set_snapshot_field n v s =
     (if n = ''last_lsn'' then map_option (\<lambda>x. s\<lparr>snLastLSN := x\<rparr>) (get_u64 v (snLastLSN s))
      else if n = ''epoch_reserved_up_to'' then map_option (\<lambda>x. s\<lparr>snReservedUpTo := x\<rparr>) (get_u64 v (snReservedUpTo s))
      else (case v of
              JNull \<Rightarrow> Some (s\<lparr>snJobs := []\<rparr>)
            | JArr vs \<Rightarrow> map_option (\<lambda>x. s\<lparr>snJobs := x\<rparr>) (get_jobs vs)
            | _ \<Rightarrow> None))"

definition decodeSnapshot :: "bytes \<Rightarrow> snapshot option" where
  "decodeSnapshot b =
     (case parse_json (of_bytes b) of
        Some (JObj kvs) \<Rightarrow>
          store_fields snapshot_fields set_snapshot_field kvs \<lparr>snLastLSN = 0, snReservedUpTo = 0, snJobs = []\<rparr>
      | Some JNull \<Rightarrow> Some \<lparr>snLastLSN = 0, snReservedUpTo = 0, snJobs = []\<rparr>
      | _ \<Rightarrow> None)"

section \<open>Literals are read back\<close>

named_theorems codec "rules that read back one field of a JSON object"

lemma get_string_json [codec]: "valid_utf8 s \<Longrightarrow> get_string (json_string s) old = Some s"
  by (simp add: get_string_def json_string_def unquote_escape)

lemma get_nat_json: "n < b \<Longrightarrow> n < 2 ^ 64 \<Longrightarrow> get_nat b (json_nat n) old = Some n"
  by (simp add: get_nat_def json_nat_def Itoa_def ParseUint_def parse_digits_dec del: power_numeral)

lemma unat_u64: "unat (w :: u64) < 2 ^ 64"
  using unsigned_less [of w, where ?'a = nat] by simp

lemma get_u64_json [codec]: "get_u64 (json_nat (unat w)) old = Some w"
  by (simp add: get_u64_def get_nat_json unat_u64 del: power_numeral)

lemma get_int_json [codec]:
  assumes "int64_ok i"
  shows "get_int (json_int i) old = Some i"
proof -
  obtain c cs where c: "dec_digits (nat i) = c # cs" by (cases "dec_digits (nat i)") auto
  have "is_digit c" using dec_digits_all [of "nat i"] c by simp
  then have "c \<noteq> CHR ''-''" by (auto simp: is_digit_def digit_val_def)
  with assms c parse_digits_dec [of "nat i"] parse_digits_dec [of "nat (- i)"] show ?thesis
    by (simp add: get_int_def json_int_def Itoa_def)
qed

lemma get_bool_json [codec]: "get_bool (JBool b) old = Some b"
  by (simp add: get_bool_def)

lemma get_time_json [codec]: "json_time t = Some v \<Longrightarrow> get_time v old = Some t"
  by (auto simp: json_time_def get_time_def parse_time_format)

lemma b64_unquote: "unquote (b64_encode bs) = Some (b64_encode bs)"
  using b64_encode_safe [of bs] by (intro unquote_safe) (simp add: list_all_iff)

lemma get_bytes_json [codec]: "get_bytes (json_bytes bs) old = Some bs"
  by (simp add: get_bytes_def json_bytes_def b64_unquote b64_decode_encode)

lemma get_state_json [codec]: "get_state (json_nat (state_code s)) old = Some s"
  by (cases s) (simp_all add: get_state_def get_nat_json state_of_code_def)

lemma get_priority_json [codec]: "get_priority (json_nat (priority_code p)) old = Some p"
  by (cases p) (simp_all add: get_priority_def get_nat_json priority_of_code_def)

section \<open>Members are read back\<close>

declare store_fields.simps(2) [simp del]

lemma field_keys [codec]:
  "''id'' \<in> set job_fields" "''queue'' \<in> set job_fields" "''handler'' \<in> set job_fields"
  "''payload'' \<in> set job_fields" "''idempotency_key'' \<in> set job_fields" "''priority'' \<in> set job_fields"
  "''max_retries'' \<in> set job_fields" "''attempt'' \<in> set job_fields" "''state'' \<in> set job_fields"
  "''epoch'' \<in> set job_fields" "''enqueued_at'' \<in> set job_fields" "''eligible_at'' \<in> set job_fields"
  "''lease_expires_at'' \<in> set job_fields" "''leased_by'' \<in> set job_fields" "''last_error'' \<in> set job_fields"
  "''t'' \<in> set event_fields" "''job'' \<in> set event_fields" "''id'' \<in> set event_fields"
  "''e'' \<in> set event_fields" "''w'' \<in> set event_fields" "''lx'' \<in> set event_fields"
  "''a'' \<in> set event_fields" "''r'' \<in> set event_fields" "''ns'' \<in> set event_fields"
  "''el'' \<in> set event_fields" "''to'' \<in> set event_fields" "''ru'' \<in> set event_fields"
  "''last_lsn'' \<in> set snapshot_fields" "''epoch_reserved_up_to'' \<in> set snapshot_fields"
  "''jobs'' \<in> set snapshot_fields"
  by (simp_all add: job_fields_def event_fields_def snapshot_fields_def)

lemma key_safe:
  "k \<in> set (job_fields @ event_fields @ snapshot_fields) \<Longrightarrow> list_all safe_char k"
  by (auto simp: job_fields_def event_fields_def snapshot_fields_def safe_char_def)

lemma store_member:
  assumes "k \<in> set names" and "set names \<subseteq> set (job_fields @ event_fields @ snapshot_fields)"
  shows "store_fields names st ((k, v) # r) a =
    (case st k v a of None \<Rightarrow> None | Some b \<Rightarrow> store_fields names st r b)"
  using assms unquote_safe [OF key_safe, of k] by (auto simp: field_name_def store_fields.simps(2))

lemma store_job [codec]:
  "k \<in> set job_fields \<Longrightarrow>
   store_fields job_fields set_job_field ((k, v) # r) j =
     (case set_job_field k v j of None \<Rightarrow> None | Some b \<Rightarrow> store_fields job_fields set_job_field r b)"
  by (rule store_member) auto

lemma store_event [codec]:
  "k \<in> set event_fields \<Longrightarrow>
   store_fields event_fields set_event_field ((k, v) # r) e =
     (case set_event_field k v e of None \<Rightarrow> None | Some b \<Rightarrow> store_fields event_fields set_event_field r b)"
  by (rule store_member) auto

lemma store_snapshot [codec]:
  "k \<in> set snapshot_fields \<Longrightarrow>
   store_fields snapshot_fields set_snapshot_field ((k, v) # r) s =
     (case set_snapshot_field k v s of None \<Rightarrow> None | Some b \<Rightarrow> store_fields snapshot_fields set_snapshot_field r b)"
  by (rule store_member) auto

text \<open>An omitted field keeps the zero value the record started with.\<close>

lemma store_omit:
  assumes "\<not> z \<Longrightarrow> store_fields names st ((k, v) # r) a = store_fields names st r b" and "z \<Longrightarrow> b = a"
  shows "store_fields names st (omit z k v @ r) a = store_fields names st r b"
  using assms by (simp add: omit_def)

lemma store_omit_time:
  assumes "omit_time k t = Some kvs" and "t = 0 \<Longrightarrow> b = a"
    and "\<And>v. json_time t = Some v \<Longrightarrow> store_fields names st ((k, v) # r) a = store_fields names st r b"
  shows "store_fields names st (kvs @ r) a = store_fields names st r b"
  using assms by (auto simp: omit_time_def split: if_splits)

lemma store_omit_end:
  assumes "\<not> z \<Longrightarrow> store_fields names st [(k, v)] a = Some b" and "z \<Longrightarrow> b = a"
  shows "store_fields names st (omit z k v) a = Some b"
  using assms by (simp add: omit_def)

lemma job_optional [codec]:
  "Payload j = [] \<Longrightarrow>
     store_fields job_fields set_job_field (omit (x = []) ''payload'' (json_bytes x) @ r) j =
     store_fields job_fields set_job_field r (j\<lparr>Payload := x\<rparr>)"
  "IdempotencyKey j = [] \<Longrightarrow> valid_utf8 s \<Longrightarrow>
     store_fields job_fields set_job_field (omit (s = []) ''idempotency_key'' (json_string s) @ r) j =
     store_fields job_fields set_job_field r (j\<lparr>IdempotencyKey := s\<rparr>)"
  "LeasedBy j = [] \<Longrightarrow> valid_utf8 s \<Longrightarrow>
     store_fields job_fields set_job_field (omit (s = []) ''leased_by'' (json_string s) @ r) j =
     store_fields job_fields set_job_field r (j\<lparr>LeasedBy := s\<rparr>)"
  by (rule store_omit; simp add: codec set_job_field_def)+

lemma job_optional_end [codec]:
  "LastError j = [] \<Longrightarrow> valid_utf8 s \<Longrightarrow>
     store_fields job_fields set_job_field (omit (s = []) ''last_error'' (json_string s)) j =
     Some (j\<lparr>LastError := s\<rparr>)"
  by (rule store_omit_end; simp add: codec set_job_field_def)

lemma job_optional_time [codec]:
  "omit_time ''lease_expires_at'' t = Some kvs \<Longrightarrow> LeaseExpiresAt j = 0 \<Longrightarrow>
     store_fields job_fields set_job_field (kvs @ r) j =
     store_fields job_fields set_job_field r (j\<lparr>LeaseExpiresAt := t\<rparr>)"
  by (rule store_omit_time, assumption; simp add: codec set_job_field_def)

lemma event_optional [codec]:
  "evJobID e = [] \<Longrightarrow> valid_utf8 s \<Longrightarrow>
     store_fields event_fields set_event_field (omit (s = []) ''id'' (json_string s) @ r) e =
     store_fields event_fields set_event_field r (e\<lparr>evJobID := s\<rparr>)"
  "evEpoch e = 0 \<Longrightarrow>
     store_fields event_fields set_event_field (omit (w = 0) ''e'' (json_nat (unat w)) @ r) e =
     store_fields event_fields set_event_field r (e\<lparr>evEpoch := w\<rparr>)"
  "evWorkerID e = [] \<Longrightarrow> valid_utf8 s \<Longrightarrow>
     store_fields event_fields set_event_field (omit (s = []) ''w'' (json_string s) @ r) e =
     store_fields event_fields set_event_field r (e\<lparr>evWorkerID := s\<rparr>)"
  "evAttempt e = 0 \<Longrightarrow> int64_ok i \<Longrightarrow>
     store_fields event_fields set_event_field (omit (i = 0) ''a'' (json_int i) @ r) e =
     store_fields event_fields set_event_field r (e\<lparr>evAttempt := i\<rparr>)"
  "evReason e = [] \<Longrightarrow> valid_utf8 s \<Longrightarrow>
     store_fields event_fields set_event_field (omit (s = []) ''r'' (json_string s) @ r) e =
     store_fields event_fields set_event_field r (e\<lparr>evReason := s\<rparr>)"
  "evNextState e = StateUnspecified \<Longrightarrow>
     store_fields event_fields set_event_field (omit (q = StateUnspecified) ''ns'' (json_nat (state_code q)) @ r) e =
     store_fields event_fields set_event_field r (e\<lparr>evNextState := q\<rparr>)"
  "\<not> evTimeout e \<Longrightarrow>
     store_fields event_fields set_event_field (omit (\<not> b) ''to'' (JBool b) @ r) e =
     store_fields event_fields set_event_field r (e\<lparr>evTimeout := b\<rparr>)"
  by (rule store_omit; simp add: codec set_event_field_def)+

lemma event_optional_end [codec]:
  "evReservedUpTo e = 0 \<Longrightarrow>
     store_fields event_fields set_event_field (omit (w = 0) ''ru'' (json_nat (unat w))) e =
     Some (e\<lparr>evReservedUpTo := w\<rparr>)"
  by (rule store_omit_end; simp add: codec set_event_field_def)

lemma event_optional_time [codec]:
  "omit_time ''lx'' t = Some kvs \<Longrightarrow> evLeaseExpiresAt e = 0 \<Longrightarrow>
     store_fields event_fields set_event_field (kvs @ r) e =
     store_fields event_fields set_event_field r (e\<lparr>evLeaseExpiresAt := t\<rparr>)"
  "omit_time ''el'' t = Some kvs \<Longrightarrow> evEligibleAt e = 0 \<Longrightarrow>
     store_fields event_fields set_event_field (kvs @ r) e =
     store_fields event_fields set_event_field r (e\<lparr>evEligibleAt := t\<rparr>)"
  by (rule store_omit_time, assumption; simp add: codec set_event_field_def)+

section \<open>Round trips\<close>

definition job_text_ok :: "job \<Rightarrow> bool" where
  "job_text_ok j \<longleftrightarrow>
     valid_utf8 (ID j) \<and> valid_utf8 (Queue j) \<and> valid_utf8 (Handler j) \<and> valid_utf8 (IdempotencyKey j) \<and>
     valid_utf8 (LeasedBy j) \<and> valid_utf8 (LastError j) \<and> int64_ok (MaxRetries j) \<and> int64_ok (Attempt j)"

definition event_text_ok :: "event \<Rightarrow> bool" where
  "event_text_ok e \<longleftrightarrow>
     valid_utf8 (evType e) \<and> valid_utf8 (evJobID e) \<and> valid_utf8 (evWorkerID e) \<and> valid_utf8 (evReason e) \<and>
     int64_ok (evAttempt e) \<and> (case evJob e of None \<Rightarrow> True | Some j \<Rightarrow> job_text_ok j)"

lemma get_job_json:
  assumes "job_text_ok j" and "job_json j = Some v"
  shows "get_job v None = Some (Some j)"
proof -
  obtain enq el lx where t: "json_time (EnqueuedAt j) = Some enq" "json_time (EligibleAt j) = Some el"
    "omit_time ''lease_expires_at'' (LeaseExpiresAt j) = Some lx"
    using assms(2) by (auto simp: job_json_def split: option.splits)
  note ok = assms(1) [unfolded job_text_ok_def]
  have "get_job v None = Some (Some (zero_job\<lparr>ID := ID j, Queue := Queue j, Handler := Handler j,
      Payload := Payload j, IdempotencyKey := IdempotencyKey j, Priority := Priority j,
      MaxRetries := MaxRetries j, Attempt := Attempt j, State := State j, Epoch := Epoch j,
      EnqueuedAt := EnqueuedAt j, EligibleAt := EligibleAt j, LeaseExpiresAt := LeaseExpiresAt j,
      LeasedBy := LeasedBy j, LastError := LastError j\<rparr>))"
    using assms(2) t ok
    by (auto simp: job_json_def get_job_def codec set_job_field_def get_time_json [OF t(1)] get_time_json [OF t(2)]
        job_optional_time [OF t(3)] zero_job_def)
  also have "\<dots> = Some (Some j)" by (simp add: zero_job_def)
  finally show ?thesis .
qed

lemma store_event_json:
  assumes "event_text_ok e" and "event_json e = Some v"
  shows "\<exists>kvs. v = JObj kvs \<and> store_fields event_fields set_event_field kvs zero_event = Some e"
proof -
  obtain jb lx el where t: "(case evJob e of None \<Rightarrow> Some [] | Some j \<Rightarrow> map_option (\<lambda>v. [(''job'', v)]) (job_json j)) = Some jb"
    "omit_time ''lx'' (evLeaseExpiresAt e) = Some lx" "omit_time ''el'' (evEligibleAt e) = Some el"
    using assms(2) by (auto simp: event_json_def split: option.splits)
  note ok = assms(1) [unfolded event_text_ok_def]
  have upd: "evJob a = None \<Longrightarrow> a\<lparr>evJob := None\<rparr> = a" for a :: event by (cases a) simp
  have jb: "evJob a = None \<Longrightarrow> store_fields event_fields set_event_field (jb @ r) a =
      store_fields event_fields set_event_field r (a\<lparr>evJob := evJob e\<rparr>)" for r a
    using t(1) ok get_job_json
    by (auto simp: codec set_event_field_def upd split: option.splits)
  have "\<exists>kvs. v = JObj kvs \<and> store_fields event_fields set_event_field kvs zero_event =
    Some (zero_event\<lparr>evType := evType e, evJob := evJob e, evJobID := evJobID e, evEpoch := evEpoch e,
      evWorkerID := evWorkerID e, evLeaseExpiresAt := evLeaseExpiresAt e, evAttempt := evAttempt e,
      evReason := evReason e, evNextState := evNextState e, evEligibleAt := evEligibleAt e,
      evTimeout := evTimeout e, evReservedUpTo := evReservedUpTo e\<rparr>)"
    using assms(2) t ok
    by (auto simp: event_json_def codec set_event_field_def [of "''t''"] jb
        event_optional_time(1) [OF t(2)] event_optional_time(2) [OF t(3)] zero_event_def)
  then show ?thesis by (cases e) (simp add: zero_event_def)
qed

lemma wf_members_append [simp]: "wf_members (xs @ ys) \<longleftrightarrow> wf_members xs \<and> wf_members ys"
  by (induction xs) auto

lemma wf_key: "k \<in> set (job_fields @ event_fields @ snapshot_fields) \<Longrightarrow> \<exists>s. k = escape s"
  using escape_safe [OF key_safe] by metis

lemma wf_literals [simp]:
  "wf_json (json_string s)" "wf_json (json_nat n)" "wf_json (json_int i)" "wf_json (json_bytes bs)"
proof -
  have "escape (b64_encode bs) = b64_encode bs"
    using b64_encode_safe [of bs] by (intro escape_safe) (simp add: list_all_iff)
  then show "wf_json (json_bytes bs)" by (auto simp: json_bytes_def intro: exI [of _ "b64_encode bs", OF sym])
qed (auto simp: json_string_def json_nat_def json_int_def)

lemma wf_json_time: "json_time t = Some v \<Longrightarrow> wf_json v"
  using escape_safe [OF format_time_safe, of t] by (auto simp: json_time_def) metis

lemma wf_omit [simp]:
  "k \<in> set (job_fields @ event_fields @ snapshot_fields) \<Longrightarrow> wf_json v \<Longrightarrow> wf_members (omit z k v)"
  using wf_key [of k] by (auto simp: omit_def)

lemma wf_omit_time:
  "omit_time k t = Some kvs \<Longrightarrow> k \<in> set (job_fields @ event_fields @ snapshot_fields) \<Longrightarrow> wf_members kvs"
  using wf_key [of k] by (auto simp: omit_time_def wf_json_time split: if_splits)

lemma wf_job_json: "job_json j = Some v \<Longrightarrow> wf_json v"
  by (auto simp: job_json_def codec wf_json_time wf_key wf_omit_time split: option.splits)

lemma wf_event_json: "event_json e = Some v \<Longrightarrow> wf_json v"
  by (auto simp: event_json_def codec wf_job_json wf_key wf_omit_time split: option.splits)

lemma of_to_bytes [simp]: "of_bytes (to_bytes s) = s"
proof -
  have "char_of (unat (word_of_nat (code c) :: byte)) = c" for c
    by (simp add: unat_of_nat)
  then show ?thesis by (simp add: of_bytes_def to_bytes_def comp_def)
qed

text \<open>What was encoded is decoded: recovery sees the events the broker logged.\<close>

lemma decode_encodeEvent:
  assumes "event_text_ok e" and "encodeEvent e = Some b"
  shows "decodeEvent b = Some e"
proof -
  obtain v where v: "event_json e = Some v" "b = to_bytes (render v)"
    using assms(2) by (auto simp: encodeEvent_def)
  obtain kvs where "v = JObj kvs" "store_fields event_fields set_event_field kvs zero_event = Some e"
    using store_event_json [OF assms(1) v(1)] by blast
  with v parse_json_render [OF wf_event_json [OF v(1)]] show ?thesis by (simp add: decodeEvent_def)
qed

text \<open>Instants of the years the broker can run in are printable.\<close>

definition time_ok :: "gotime \<Rightarrow> bool" where
  "time_ok t \<longleftrightarrow> 0 \<le> t \<and> t < 3650000 * day_nanos"

lemma year_bounds:
  assumes "civil_year z = (y, yd)" and "0 \<le> z" and "z < 3650000"
  shows "0 \<le> y \<and> y \<le> 9999"
proof -
  define x where "x = y - 1"
  have z: "z = 365 * x + x div 4 - x div 100 + x div 400 + int yd"
    using civil_year_range(1) [OF assms(1)] by (simp add: year_start_def x_def)
  have yd: "int yd < 366"
    using civil_year_range(2) [OF assms(1)] by (auto simp: month_lengths_def split: if_splits)
  have "x < 9999"
    using z assms(3) div_between [of 4 x] div_between [of 100 x] div_between [of 400 x] by linarith
  moreover have "- 1 \<le> x"
    using z assms(2) yd div_between [of 4 x] div_between [of 100 x] div_between [of 400 x] by linarith
  ultimately show ?thesis by (simp add: x_def)
qed

lemma format_time_ok: "time_ok t \<Longrightarrow> \<exists>s. format_time t = Some s"
proof -
  assume t: "time_ok t"
  obtain y yd where y: "civil_year (t div day_nanos) = (y, yd)" by fastforce
  have n: "day_nanos = 86400000000000" by (simp add: day_nanos_def duration_units)
  have "0 \<le> t div day_nanos" "t div day_nanos < 3650000"
    using t div_between [of 86400000000000 t] unfolding time_ok_def n by linarith+
  from year_bounds [OF y this] show ?thesis
    using y by (auto simp: format_time_def Let_def split: prod.splits)
qed

lemma json_time_ok: "time_ok t \<Longrightarrow> \<exists>v. json_time t = Some v"
  using format_time_ok [of t] by (auto simp: json_time_def)

lemma omit_time_ok: "time_ok t \<Longrightarrow> \<exists>kvs. omit_time k t = Some kvs"
  using json_time_ok [of t] by (auto simp: omit_time_def)

definition job_times_ok :: "job \<Rightarrow> bool" where
  "job_times_ok j \<longleftrightarrow> time_ok (EnqueuedAt j) \<and> time_ok (EligibleAt j) \<and> time_ok (LeaseExpiresAt j)"

definition event_times_ok :: "event \<Rightarrow> bool" where
  "event_times_ok e \<longleftrightarrow> time_ok (evLeaseExpiresAt e) \<and> time_ok (evEligibleAt e) \<and>
     (case evJob e of None \<Rightarrow> True | Some j \<Rightarrow> job_times_ok j)"

lemma job_json_ok: "job_times_ok j \<Longrightarrow> \<exists>v. job_json j = Some v"
  using json_time_ok [of "EnqueuedAt j"] json_time_ok [of "EligibleAt j"]
    omit_time_ok [of "LeaseExpiresAt j" "''lease_expires_at''"]
  by (auto simp: job_times_ok_def job_json_def)

text \<open>Encoding fails only for instants that have no textual form.\<close>

lemma encodeEvent_ok:
  assumes "event_times_ok e"
  shows "\<exists>b. encodeEvent e = Some b"
proof -
  obtain lx el where t: "omit_time ''lx'' (evLeaseExpiresAt e) = Some lx" "omit_time ''el'' (evEligibleAt e) = Some el"
    using assms omit_time_ok unfolding event_times_ok_def by blast
  have "\<exists>jb. (case evJob e of None \<Rightarrow> Some [] | Some j \<Rightarrow> map_option (\<lambda>v. [(''job'', v)]) (job_json j)) = Some jb"
    using assms job_json_ok by (fastforce simp: event_times_ok_def split: option.splits)
  then show ?thesis using t by (auto simp: encodeEvent_def event_json_def)
qed

section \<open>Snapshots are read back\<close>

lemma get_jobs_json:
  assumes "jobs_json js = Some vs" and "\<forall>j \<in> set js. \<exists>x. j = Some x \<and> job_text_ok x"
  shows "get_jobs vs = Some js \<and> list_all wf_json vs"
  using assms
proof (induction js arbitrary: vs)
  case (Cons j js)
  obtain x v ws where "j = Some x" "job_text_ok x" "job_json x = Some v" "jobs_json js = Some ws" "vs = v # ws"
    using Cons.prems by (auto split: option.splits)
  with Cons get_job_json [of x v] wf_job_json [of x v] show ?case by auto
qed simp

lemma decode_encodeSnapshot:
  assumes "\<forall>j \<in> set (snJobs s). \<exists>x. j = Some x \<and> job_text_ok x" and "encodeSnapshot s = Some b"
  shows "decodeSnapshot b = Some s"
proof -
  obtain vs where vs: "jobs_json (snJobs s) = Some vs"
    and b: "b = to_bytes (render (JObj [(''last_lsn'', json_nat (unat (snLastLSN s))),
            (''epoch_reserved_up_to'', json_nat (unat (snReservedUpTo s))), (''jobs'', JArr vs)]))"
    using assms(2) by (auto simp: encodeSnapshot_def split: option.splits)
  note js = get_jobs_json [OF vs assms(1)]
  have "parse_json (of_bytes b) = Some (JObj [(''last_lsn'', json_nat (unat (snLastLSN s))),
      (''epoch_reserved_up_to'', json_nat (unat (snReservedUpTo s))), (''jobs'', JArr vs)])"
    unfolding b of_to_bytes using js by (intro parse_json_render) (simp add: codec wf_key)
  with js show ?thesis
    by (simp add: decodeSnapshot_def codec set_snapshot_field_def)
qed

end
