(* ===== verification/Cv_Heap.thy ===== *)
theory Cv_Heap
  imports Cv_Prelude
begin

text \<open>
  The parts of Go's \<^verbatim>\<open>container/heap\<close> the scheduler uses, on a slice held as a list:
  \<open>heap_up\<close> and \<open>heap_down\<close> are its two sift loops, \<open>heap_Push\<close> and \<open>heap_Pop\<close> its
  operations, all over an arbitrary \<open>Less\<close>.  The locale \<open>less_order\<close> states what the
  package requires of \<open>Less\<close> (a strict weak order) and holds the correctness of the
  two loops; the locale \<open>pqueue\<close> is the contract its client, the schedule index,
  relies on.
\<close>

section \<open>The operations\<close>

definition swap :: "'a list \<Rightarrow> nat \<Rightarrow> nat \<Rightarrow> 'a list" where
  "swap xs i j = xs[i := xs ! j, j := xs ! i]"

text \<open>The parent of slot 0 is slot 0 in Go, since \<open>(0 - 1) / 2\<close> truncates to 0.\<close>

definition parent :: "nat \<Rightarrow> nat" where
  "parent j = (j - 1) div 2"

function heap_up :: "('a \<Rightarrow> 'a \<Rightarrow> bool) \<Rightarrow> 'a list \<Rightarrow> nat \<Rightarrow> 'a list" where
  "heap_up lt h j =
     (let i = parent j
      in if i = j \<or> \<not> lt (h ! j) (h ! i) then h else heap_up lt (swap h i j) i)"
  by pat_completeness auto
termination
  by (relation "measure (\<lambda>(lt, h, j). j)") (auto simp: parent_def)

function heap_down :: "('a \<Rightarrow> 'a \<Rightarrow> bool) \<Rightarrow> 'a list \<Rightarrow> nat \<Rightarrow> nat \<Rightarrow> 'a list" where
  "heap_down lt h i n =
     (let j1 = 2 * i + 1
      in if j1 \<ge> n then h
         else let j2 = j1 + 1; j = (if j2 < n \<and> lt (h ! j2) (h ! j1) then j2 else j1)
              in if \<not> lt (h ! j) (h ! i) then h else heap_down lt (swap h i j) j n)"
  by pat_completeness auto
termination
  by (relation "measure (\<lambda>(lt, h, i, n). n - i)") (auto simp: Let_def)

declare heap_up.simps [simp del] heap_down.simps [simp del]

definition heap_Push :: "('a \<Rightarrow> 'a \<Rightarrow> bool) \<Rightarrow> 'a list \<Rightarrow> 'a \<Rightarrow> 'a list" where
  "heap_Push lt h x = heap_up lt (h @ [x]) (length h)"

text \<open>
  \<open>None\<close> is the panic of the package on an empty heap (an index of -1).
\<close>

definition heap_Pop :: "('a \<Rightarrow> 'a \<Rightarrow> bool) \<Rightarrow> 'a list \<Rightarrow> ('a \<times> 'a list) option" where
  "heap_Pop lt h =
     (if h = [] then None
      else let n = length h - 1; h' = heap_down lt (swap h 0 n) 0 n
           in Some (h' ! n, take n h'))"

section \<open>The heap property\<close>

definition is_heap :: "('a \<Rightarrow> 'a \<Rightarrow> bool) \<Rightarrow> 'a list \<Rightarrow> bool" where
  "is_heap lt h \<longleftrightarrow> (\<forall>i. 0 < i \<and> i < length h \<longrightarrow> \<not> lt (h ! i) (h ! parent i))"

text \<open>
  The two intermediate states of the loops, for the first \<open>n\<close> slots: \<open>heap_but_up\<close>
  allows slot \<open>k\<close> to be less than its parent, \<open>heap_but_down\<close> allows a child of \<open>k\<close>
  to be less than \<open>k\<close>.  Both keep the order between the neighbours of \<open>k\<close>.
\<close>

definition heap_but_up :: "('a \<Rightarrow> 'a \<Rightarrow> bool) \<Rightarrow> 'a list \<Rightarrow> nat \<Rightarrow> bool" where
  "heap_but_up lt h k \<longleftrightarrow>
     (\<forall>i. 0 < i \<and> i < length h \<and> i \<noteq> k \<longrightarrow> \<not> lt (h ! i) (h ! parent i)) \<and>
     (\<forall>i. 0 < i \<and> i < length h \<and> parent i = k \<and> 0 < k \<longrightarrow> \<not> lt (h ! i) (h ! parent k))"

definition heap_but_down :: "('a \<Rightarrow> 'a \<Rightarrow> bool) \<Rightarrow> 'a list \<Rightarrow> nat \<Rightarrow> nat \<Rightarrow> bool" where
  "heap_but_down lt h n k \<longleftrightarrow>
     (\<forall>i. 0 < i \<and> i < n \<and> parent i \<noteq> k \<longrightarrow> \<not> lt (h ! i) (h ! parent i)) \<and>
     (\<forall>i. 0 < i \<and> i < n \<and> parent i = k \<and> 0 < k \<longrightarrow> \<not> lt (h ! i) (h ! parent k))"

lemma length_swap [simp]: "length (swap xs i j) = length xs"
  by (simp add: swap_def)

lemma mset_swap_heap: "i < length xs \<Longrightarrow> j < length xs \<Longrightarrow> mset (swap xs i j) = mset xs"
  by (simp add: swap_def mset_swap)

lemma nth_swap:
  "i < length xs \<Longrightarrow> j < length xs \<Longrightarrow> k < length xs \<Longrightarrow>
     swap xs i j ! k = (if k = j then xs ! i else if k = i then xs ! j else xs ! k)"
  by (simp add: swap_def nth_list_update)

lemma parent_less: "0 < j \<Longrightarrow> parent j < j"
  by (auto simp: parent_def)

lemma parent_eq_self: "parent j = j \<longleftrightarrow> j = 0"
  by (cases j) (auto simp: parent_def)

lemma parent_zero [simp]: "parent 0 = 0"
  by (simp add: parent_def)

lemma parent_eq_iff: "0 < i \<Longrightarrow> parent i = k \<longleftrightarrow> i = 2 * k + 1 \<or> i = 2 * k + 2"
  by (auto simp: parent_def)

lemma length_heap_up [simp]: "length (heap_up lt h j) = length h"
proof (induction lt h j rule: heap_up.induct)
  case (1 lt h j)
  then show ?case by (subst heap_up.simps) (simp add: Let_def)
qed

lemma mset_heap_up: "j < length h \<Longrightarrow> mset (heap_up lt h j) = mset h"
proof (induction lt h j rule: heap_up.induct)
  case (1 lt h j)
  have "parent j < length h" using "1.prems" parent_less [of j] by (cases "j = 0") auto
  with 1 show ?case by (subst heap_up.simps) (simp add: Let_def mset_swap_heap)
qed

lemma length_heap_down [simp]: "length (heap_down lt h i n) = length h"
proof (induction lt h i n rule: heap_down.induct)
  case (1 lt h i n)
  then show ?case by (subst heap_down.simps) (simp add: Let_def)
qed

lemma mset_heap_down: "n \<le> length h \<Longrightarrow> mset (heap_down lt h i n) = mset h"
proof (induction lt h i n rule: heap_down.induct)
  case (1 lt h i n)
  then show ?case by (subst heap_down.simps) (auto simp: Let_def mset_swap_heap)
qed

lemma heap_down_tail: "n \<le> length h \<Longrightarrow> n \<le> k \<Longrightarrow> k < length h \<Longrightarrow> heap_down lt h i n ! k = h ! k"
proof (induction lt h i n rule: heap_down.induct)
  case (1 lt h i n)
  then show ?case by (subst heap_down.simps) (auto simp: Let_def nth_swap)
qed

lemma heap_down_unfold:
  assumes "2 * k + 1 < n"
    and "j = (if 2 * k + 2 < n \<and> lt (h ! (2 * k + 2)) (h ! (2 * k + 1)) then 2 * k + 2 else 2 * k + 1)"
  shows "heap_down lt h k n =
    (if \<not> lt (h ! j) (h ! k) then h else heap_down lt (swap h k j) j n)"
  using assms(1) unfolding assms(2) by (subst heap_down.simps) (simp add: Let_def)

lemma mset_heap_Push: "mset (heap_Push lt h x) = add_mset x (mset h)"
  by (simp add: heap_Push_def mset_heap_up)

lemma heap_Pop_length: "heap_Pop lt h = Some (x, h') \<Longrightarrow> length h = Suc (length h')"
  by (auto simp: heap_Pop_def Let_def split: if_splits)

lemma heap_Pop_Nil [simp]: "heap_Pop lt [] = None"
  by (simp add: heap_Pop_def)

lemma heap_Pop_None_iff [simp]: "heap_Pop lt h = None \<longleftrightarrow> h = []"
  by (simp add: heap_Pop_def Let_def)

section \<open>Correctness over a strict weak order\<close>

locale less_order =
  fixes lt :: "'a \<Rightarrow> 'a \<Rightarrow> bool"
  assumes less_asym: "lt x y \<Longrightarrow> \<not> lt y x"
    and not_less_trans: "\<not> lt y x \<Longrightarrow> \<not> lt z y \<Longrightarrow> \<not> lt z x"
begin

lemma less_irrefl: "\<not> lt x x"
  using less_asym by blast

lemma heap_up_step:
  assumes but: "heap_but_up lt h k" and k: "0 < k" "k < length h"
    and ltk: "lt (h ! k) (h ! parent k)"
  shows "heap_but_up lt (swap h (parent k) k) (parent k)"
proof -
  have pk: "parent k < k" "parent k < length h" using k parent_less by (auto intro: less_trans)
  note nth = nth_swap [OF pk(2) k(2)]
  show ?thesis
    unfolding heap_but_up_def
  proof (intro conjI allI impI)
    fix i assume i: "0 < i \<and> i < length (swap h (parent k) k) \<and> i \<noteq> parent k"
    then have pi: "parent i < length h" using parent_less [of i] by simp
    show "\<not> lt (swap h (parent k) k ! i) (swap h (parent k) k ! parent i)"
    proof (cases "i = k \<or> parent i = k")
      case True
      with i pi pk but k less_asym [OF ltk] show ?thesis
        by (auto simp: nth heap_but_up_def dest: parent_less)
    next
      case False
      with i but have le: "\<not> lt (h ! i) (h ! parent i)" by (simp add: heap_but_up_def)
      then have "parent i = parent k \<Longrightarrow> \<not> lt (h ! i) (h ! k)"
        using not_less_trans [OF less_asym [OF ltk]] by simp
      with False le i pi pk show ?thesis by (auto simp: nth)
    qed
  next
    fix i assume i: "0 < i \<and> i < length (swap h (parent k) k) \<and> parent i = parent k \<and> 0 < parent k"
    then have ppk: "parent (parent k) < parent k" "parent (parent k) < length h"
      using parent_less [of "parent k"] pk by auto
    have up: "\<not> lt (h ! parent k) (h ! parent (parent k))"
      using but i pk by (simp add: heap_but_up_def)
    show "\<not> lt (swap h (parent k) k ! i) (swap h (parent k) k ! parent (parent k))"
    proof (cases "i = k")
      case True
      with i ppk pk up show ?thesis by (simp add: nth)
    next
      case False
      with i but have "\<not> lt (h ! i) (h ! parent k)" by (auto simp: heap_but_up_def)
      from not_less_trans [OF up this] False i ppk pk parent_less [of i] show ?thesis
        by (simp add: nth)
    qed
  qed
qed

lemma heap_up_is_heap:
  "heap_but_up lt h k \<Longrightarrow> k < length h \<Longrightarrow> is_heap lt (heap_up lt h k)"
proof (induction k arbitrary: h rule: less_induct)
  case (less k)
  show ?case
  proof (cases "k = 0 \<or> \<not> lt (h ! k) (h ! parent k)")
    case True
    then have "is_heap lt h"
      using less.prems by (auto simp: is_heap_def heap_but_up_def)
    with True show ?thesis by (subst heap_up.simps) (auto simp: Let_def parent_eq_self)
  next
    case False
    then have "parent k < k" "heap_but_up lt (swap h (parent k) k) (parent k)"
      using less.prems heap_up_step parent_less by auto
    then have "is_heap lt (heap_up lt (swap h (parent k) k) (parent k))"
      using less.IH less.prems by simp
    with False show ?thesis by (subst heap_up.simps) (simp add: Let_def parent_eq_self)
  qed
qed

lemma is_heap_Push:
  assumes "is_heap lt h"
  shows "is_heap lt (heap_Push lt h x)"
proof -
  have "heap_but_up lt (h @ [x]) (length h)"
    unfolding heap_but_up_def
  proof (intro conjI allI impI)
    fix i assume i: "0 < i \<and> i < length (h @ [x]) \<and> i \<noteq> length h"
    then have "i < length h" "parent i < length h" using parent_less [of i] by auto
    with i assms show "\<not> lt ((h @ [x]) ! i) ((h @ [x]) ! parent i)"
      by (simp add: is_heap_def nth_append)
  next
    fix i assume "0 < i \<and> i < length (h @ [x]) \<and> parent i = length h \<and> 0 < length h"
    then show "\<not> lt ((h @ [x]) ! i) ((h @ [x]) ! parent (length h))"
      using parent_less [of i] by auto
  qed
  then show ?thesis by (simp add: heap_Push_def heap_up_is_heap)
qed

lemma heap_root_least:
  assumes "is_heap lt h" and "i < length h"
  shows "\<not> lt (h ! i) (h ! 0)"
  using assms(2)
proof (induction i rule: less_induct)
  case (less i)
  show ?case
  proof (cases "i = 0")
    case True
    then show ?thesis by (simp add: less_irrefl)
  next
    case False
    then have p: "parent i < i" by (simp add: parent_less)
    with less have "\<not> lt (h ! parent i) (h ! 0)" by simp
    moreover from False less.prems assms(1) have "\<not> lt (h ! i) (h ! parent i)"
      by (simp add: is_heap_def)
    ultimately show ?thesis by (rule not_less_trans)
  qed
qed

lemma heap_down_step:
  assumes but: "heap_but_down lt h n k" and n: "n \<le> length h"
    and j: "j < n" "parent j = k" "0 < j" and ltk: "lt (h ! j) (h ! k)"
    and least: "\<And>i. 0 < i \<Longrightarrow> i < n \<Longrightarrow> parent i = k \<Longrightarrow> \<not> lt (h ! i) (h ! j)"
  shows "heap_but_down lt (swap h k j) n j"
proof -
  have kj: "k < j" "k < length h" "j < length h"
    using j n parent_less [of j] by auto
  note nth = nth_swap [OF kj(2,3)]
  show ?thesis
    unfolding heap_but_down_def
  proof (intro conjI allI impI)
    fix i assume i: "0 < i \<and> i < n \<and> parent i \<noteq> j"
    then have pi: "parent i < length h" "parent i \<noteq> i" "i < length h"
      using parent_less [of i] n by auto
    show "\<not> lt (swap h k j ! i) (swap h k j ! parent i)"
    proof (cases "parent i = k")
      case True
      with i pi kj least [of i] less_asym [OF ltk] show ?thesis by (auto simp: nth)
    next
      case False
      with i pi kj j but show ?thesis
        by (auto simp: nth heap_but_down_def)
    qed
  next
    fix i assume i: "0 < i \<and> i < n \<and> parent i = j \<and> 0 < j"
    then have "j < i" "i < length h" using parent_less [of i] n by auto
    moreover have "\<not> lt (h ! i) (h ! j)"
      using but i kj by (auto simp: heap_but_down_def)
    ultimately show "\<not> lt (swap h k j ! i) (swap h k j ! parent j)"
      using kj j by (simp add: nth)
  qed
qed

lemma heap_down_result:
  "heap_but_down lt h n k \<Longrightarrow> n \<le> length h \<Longrightarrow> is_heap lt (take n (heap_down lt h k n))"
proof (induction "n - k" arbitrary: h k rule: less_induct)
  case less
  have fin: "is_heap lt (take n h)"
    if "\<And>i. 0 < i \<Longrightarrow> i < n \<Longrightarrow> parent i = k \<Longrightarrow> \<not> lt (h ! i) (h ! k)"
    unfolding is_heap_def
  proof (intro allI impI)
    fix i assume "0 < i \<and> i < length (take n h)"
    with that less.prems parent_less [of i] show "\<not> lt (take n h ! i) (take n h ! parent i)"
      by (cases "parent i = k") (auto simp: heap_but_down_def)
  qed
  show ?case
  proof (cases "2 * k + 1 < n")
    case False
    then have "is_heap lt (take n h)"
      by (intro fin) (auto simp: parent_eq_iff)
    with False show ?thesis by (subst heap_down.simps) (simp add: Let_def)
  next
    case True
    define j where "j =
      (if 2 * k + 2 < n \<and> lt (h ! (2 * k + 2)) (h ! (2 * k + 1)) then 2 * k + 2 else 2 * k + 1)"
    note unfold = heap_down_unfold [where lt = lt and h = h, OF True j_def]
    have j: "j < n" "parent j = k" "0 < j" "k < j"
      using True by (auto simp: parent_eq_iff j_def)
    have least: "\<not> lt (h ! i) (h ! j)" if "0 < i" "i < n" "parent i = k" for i
      using that less_asym less_irrefl by (auto simp: parent_eq_iff j_def)
    show ?thesis
    proof (cases "lt (h ! j) (h ! k)")
      case True
      then have "heap_but_down lt (swap h k j) n j"
        using less.prems j least by (intro heap_down_step) auto
      moreover have "n - j < n - k" using j by linarith
      ultimately have "is_heap lt (take n (heap_down lt (swap h k j) j n))"
        using less.prems(2) less.hyps [of j "swap h k j"] by simp
      with True show ?thesis by (simp add: unfold)
    next
      case False
      have "is_heap lt (take n h)"
        using least False not_less_trans by (intro fin) blast
      with False show ?thesis by (simp add: unfold)
    qed
  qed
qed

lemma heap_Pop_root:
  assumes "h \<noteq> []"
  shows "heap_down lt (swap h 0 (length h - 1)) 0 (length h - 1) ! (length h - 1) = h ! 0"
  using assms by (simp add: heap_down_tail nth_swap)

lemma heap_Pop_mset:
  assumes "heap_Pop lt h = Some (x, h')"
  shows "mset h = add_mset x (mset h')"
proof -
  let ?n = "length h - 1"
  let ?d = "heap_down lt (swap h 0 ?n) 0 ?n"
  from assms have h: "h \<noteq> []" "x = ?d ! ?n" "h' = take ?n ?d"
    by (auto simp: heap_Pop_def Let_def split: if_splits)
  then have "?d = h' @ [x]"
    by (metis Suc_pred' append_eq_conv_conj diff_less length_greater_0_conv length_heap_down
        length_swap lessI take_Suc_conv_app_nth take_all_iff order_refl zero_less_one)
  moreover have "mset ?d = mset h"
    using h(1) by (simp add: mset_heap_down mset_swap_heap)
  ultimately show ?thesis by (metis mset_append mset.simps union_code add.commute add_mset_add_single)
qed

lemma heap_Pop_heap:
  assumes "is_heap lt h" and "heap_Pop lt h = Some (x, h')"
  shows "is_heap lt h'"
proof -
  let ?n = "length h - 1"
  have h: "h \<noteq> []" using assms(2) by (auto simp: heap_Pop_def)
  have "heap_but_down lt (swap h 0 ?n) ?n 0"
    unfolding heap_but_down_def
  proof (intro conjI allI impI)
    fix i assume i: "0 < i \<and> i < ?n \<and> parent i \<noteq> 0"
    then have "parent i < ?n" "i < length h" using parent_less [of i] by linarith+
    with i h assms(1) show "\<not> lt (swap h 0 ?n ! i) (swap h 0 ?n ! parent i)"
      by (simp add: nth_swap is_heap_def)
  qed simp
  then have "is_heap lt (take ?n (heap_down lt (swap h 0 ?n) 0 ?n))"
    by (rule heap_down_result) simp
  with assms(2) show ?thesis by (auto simp: heap_Pop_def Let_def split: if_splits)
qed

lemma heap_Pop_least:
  assumes "is_heap lt h" and "heap_Pop lt h = Some (x, h')" and "y \<in> set h"
  shows "\<not> lt y x"
proof -
  let ?n = "length h - 1"
  from assms(2) have ne: "h \<noteq> []" and "x = heap_down lt (swap h 0 ?n) 0 ?n ! ?n"
    by (auto simp: heap_Pop_def Let_def split: if_splits)
  then have "x = h ! 0" using heap_Pop_root [of h] by metis
  with ne assms(1,3) heap_root_least show ?thesis by (auto simp: in_set_conv_nth)
qed

end

section \<open>The contract of a priority queue\<close>

text \<open>
  What the schedule index asks of its two heaps: pushing and popping keep the
  invariant and change the contents by exactly one element, a pop of a non-empty
  queue returns, and what it returns is least.
\<close>

locale pqueue =
  fixes lt :: "'a \<Rightarrow> 'a \<Rightarrow> bool"
    and push :: "'q \<Rightarrow> 'a \<Rightarrow> 'q"
    and pop :: "'q \<Rightarrow> ('a \<times> 'q) option"
    and elems :: "'q \<Rightarrow> 'a multiset"
    and inv :: "'q \<Rightarrow> bool"
  assumes push_inv: "inv q \<Longrightarrow> inv (push q x)"
    and push_elems: "elems (push q x) = add_mset x (elems q)"
    and pop_none: "pop q = None \<longleftrightarrow> elems q = {#}"
    and pop_inv: "inv q \<Longrightarrow> pop q = Some (x, q') \<Longrightarrow> inv q'"
    and pop_elems: "pop q = Some (x, q') \<Longrightarrow> elems q = add_mset x (elems q')"
    and pop_least: "inv q \<Longrightarrow> pop q = Some (x, q') \<Longrightarrow> y \<in># elems q \<Longrightarrow> \<not> lt y x"
begin

lemma pop_some: "elems q \<noteq> {#} \<Longrightarrow> \<exists>x q'. pop q = Some (x, q')"
  using pop_none by (cases "pop q") auto

lemma pop_size: "pop q = Some (x, q') \<Longrightarrow> size (elems q') < size (elems q)"
  using pop_elems by fastforce

lemma pop_member: "pop q = Some (x, q') \<Longrightarrow> x \<in># elems q"
  using pop_elems by fastforce

end

text \<open>Go's heap over any strict weak order meets the contract.\<close>

sublocale less_order \<subseteq> pqueue lt "heap_Push lt" "heap_Pop lt" mset "is_heap lt"
proof unfold_locales
  show "heap_Pop lt q = None \<longleftrightarrow> mset q = {#}" for q
    by (simp add: heap_Pop_def Let_def)
  show "is_heap lt q \<Longrightarrow> heap_Pop lt q = Some (x, q') \<Longrightarrow> y \<in># mset q \<Longrightarrow> \<not> lt y x" for q x q' y
    by (rule heap_Pop_least) simp_all
qed (simp_all add: mset_heap_Push is_heap_Push heap_Pop_heap heap_Pop_mset)

end
