(* ===== verification/Cv_Index.thy ===== *)
theory Cv_Index
  imports Cv_Heap Cv_Job
begin

text \<open>
  The schedule index of \<^verbatim>\<open>internal/broker/index.go\<close>: per queue, a heap of jobs that can
  run now and a heap of jobs waiting out a delay or a backoff.  The index is derived
  state and its entries may be stale; what it promises its only client, the store's
  \<^verbatim>\<open>Lease\<close>, is the locale \<open>job_index\<close>, interpreted here on the definitions.
\<close>

section \<open>Entries and their two orders\<close>

record indexEntry =
  entryID :: string
  entryPriority :: priority
  entryEnqueuedAt :: gotime
  entryEligibleAt :: gotime

definition readyHeap_Less :: "indexEntry \<Rightarrow> indexEntry \<Rightarrow> bool" where
  "readyHeap_Less a b \<longleftrightarrow>
     (if entryPriority a \<noteq> entryPriority b then entryPriority a > entryPriority b
      else if entryEnqueuedAt a \<noteq> entryEnqueuedAt b then entryEnqueuedAt a < entryEnqueuedAt b
      else entryID a < entryID b)"

definition delayedHeap_Less :: "indexEntry \<Rightarrow> indexEntry \<Rightarrow> bool" where
  "delayedHeap_Less a b \<longleftrightarrow>
     (if entryEligibleAt a \<noteq> entryEligibleAt b then entryEligibleAt a < entryEligibleAt b
      else entryID a < entryID b)"

interpretation ready_heap: less_order readyHeap_Less
  by unfold_locales (auto simp: readyHeap_Less_def split: if_splits)

interpretation delayed_heap: less_order delayedHeap_Less
  by unfold_locales (auto simp: delayedHeap_Less_def split: if_splits)

section \<open>The index\<close>

record queueIndex =
  ready :: "indexEntry list"
  delayed :: "indexEntry list"

type_synonym scheduleIndex = "string \<rightharpoonup> queueIndex"

definition newScheduleIndex :: scheduleIndex where
  "newScheduleIndex = Map.empty"

text \<open>\<^verbatim>\<open>forQueue\<close> files an empty queue index under the name when there is none.\<close>

definition forQueue :: "scheduleIndex \<Rightarrow> string \<Rightarrow> queueIndex \<times> scheduleIndex" where
  "forQueue s name =
     (case s name of
        Some q \<Rightarrow> (q, s)
      | None \<Rightarrow> (let q = \<lparr>ready = [], delayed = []\<rparr> in (q, s(name \<mapsto> q))))"

definition entry_of :: "job \<Rightarrow> indexEntry" where
  "entry_of j = \<lparr>entryID = ID j, entryPriority = Priority j,
     entryEnqueuedAt = EnqueuedAt j, entryEligibleAt = EligibleAt j\<rparr>"

definition index_push :: "scheduleIndex \<Rightarrow> job \<Rightarrow> gotime \<Rightarrow> scheduleIndex" where
  "index_push s j now =
     (let e = entry_of j; (q, s') = forQueue s (Queue j)
      in if entryEligibleAt e > now
         then s'(Queue j \<mapsto> q\<lparr>delayed := heap_Push delayedHeap_Less (delayed q) e\<rparr>)
         else s'(Queue j \<mapsto> q\<lparr>ready := heap_Push readyHeap_Less (ready q) e\<rparr>))"

text \<open>The loop of \<^verbatim>\<open>promote\<close>, on one queue.\<close>

function promote_loop :: "queueIndex \<Rightarrow> gotime \<Rightarrow> queueIndex" where
  "promote_loop q now =
     (if delayed q = [] \<or> entryEligibleAt (delayed q ! 0) > now then q
      else case heap_Pop delayedHeap_Less (delayed q) of
          None \<Rightarrow> q
        | Some (e, d) \<Rightarrow>
            promote_loop (q\<lparr>delayed := d, ready := heap_Push readyHeap_Less (ready q) e\<rparr>) now)"
  by pat_completeness auto
termination
  by (relation "measure (\<lambda>(q, now). length (delayed q))") (auto dest: heap_Pop_length)

declare promote_loop.simps [simp del]

definition index_promote :: "scheduleIndex \<Rightarrow> string \<Rightarrow> gotime \<Rightarrow> scheduleIndex" where
  "index_promote s queue now =
     (case s queue of None \<Rightarrow> s | Some q \<Rightarrow> s(queue \<mapsto> promote_loop q now))"

definition index_pop :: "scheduleIndex \<Rightarrow> string \<Rightarrow> (indexEntry \<times> scheduleIndex) option" where
  "index_pop s queue =
     (case s queue of
        None \<Rightarrow> None
      | Some q \<Rightarrow>
          (case heap_Pop readyHeap_Less (ready q) of
             None \<Rightarrow> None
           | Some (e, r) \<Rightarrow> Some (e, s(queue \<mapsto> q\<lparr>ready := r\<rparr>))))"

text \<open>
  \<^verbatim>\<open>nextDeadline\<close> ranges over the map; \<open>names\<close> is the order in which the runtime
  visits its keys.  The zero time stands for "none yet", as in the source.
\<close>

fun nextDeadline_loop :: "scheduleIndex \<Rightarrow> string list \<Rightarrow> gotime \<Rightarrow> gotime" where
  "nextDeadline_loop s [] earliest = earliest"
| "nextDeadline_loop s (n # ns) earliest =
     (case s n of
        None \<Rightarrow> nextDeadline_loop s ns earliest
      | Some q \<Rightarrow>
          if delayed q = [] then nextDeadline_loop s ns earliest
          else if earliest = 0 \<or> entryEligibleAt (delayed q ! 0) < earliest
          then nextDeadline_loop s ns (entryEligibleAt (delayed q ! 0))
          else nextDeadline_loop s ns earliest)"

definition nextDeadline :: "scheduleIndex \<Rightarrow> string list \<Rightarrow> gotime option" where
  "nextDeadline s names =
     (let e = nextDeadline_loop s names 0 in if e \<noteq> 0 then Some e else None)"

section \<open>Abstraction: the entries filed under a queue\<close>

definition ready_of :: "scheduleIndex \<Rightarrow> string \<Rightarrow> indexEntry multiset" where
  "ready_of s n = (case s n of None \<Rightarrow> {#} | Some q \<Rightarrow> mset (ready q))"

definition delayed_of :: "scheduleIndex \<Rightarrow> string \<Rightarrow> indexEntry multiset" where
  "delayed_of s n = (case s n of None \<Rightarrow> {#} | Some q \<Rightarrow> mset (delayed q))"

definition filed :: "scheduleIndex \<Rightarrow> string \<Rightarrow> indexEntry multiset" where
  "filed s n = ready_of s n + delayed_of s n"

definition queue_ok :: "queueIndex \<Rightarrow> bool" where
  "queue_ok q \<longleftrightarrow> is_heap readyHeap_Less (ready q) \<and> is_heap delayedHeap_Less (delayed q)"

definition index_ok :: "scheduleIndex \<Rightarrow> bool" where
  "index_ok s \<longleftrightarrow> (\<forall>n q. s n = Some q \<longrightarrow> queue_ok q)"

lemma entry_of_simps [simp]:
  "entryID (entry_of j) = ID j" "entryPriority (entry_of j) = Priority j"
  "entryEnqueuedAt (entry_of j) = EnqueuedAt j" "entryEligibleAt (entry_of j) = EligibleAt j"
  by (simp_all add: entry_of_def)

lemma is_heap_Nil [simp]: "is_heap lt []"
  by (simp add: is_heap_def)

lemma index_ok_new: "index_ok newScheduleIndex"
  by (simp add: index_ok_def newScheduleIndex_def)

lemma filed_new [simp]: "filed newScheduleIndex n = {#}"
  by (simp add: filed_def ready_of_def delayed_of_def newScheduleIndex_def)

lemma index_push_cases:
  obtains q where "q = (case s (Queue j) of None \<Rightarrow> \<lparr>ready = [], delayed = []\<rparr> | Some q \<Rightarrow> q)"
    and "EligibleAt j > now \<Longrightarrow> index_push s j now =
      s(Queue j \<mapsto> q\<lparr>delayed := heap_Push delayedHeap_Less (delayed q) (entry_of j)\<rparr>)"
    and "\<not> EligibleAt j > now \<Longrightarrow> index_push s j now =
      s(Queue j \<mapsto> q\<lparr>ready := heap_Push readyHeap_Less (ready q) (entry_of j)\<rparr>)"
  by (rule that [OF refl])
    (auto simp: index_push_def forQueue_def Let_def split: option.splits)

lemma ready_of_push:
  "ready_of (index_push s j now) n =
     (if n = Queue j \<and> EligibleAt j \<le> now then add_mset (entry_of j) (ready_of s n) else ready_of s n)"
  by (rule index_push_cases [of s j now])
    (cases "EligibleAt j > now"; auto simp: ready_of_def mset_heap_Push split: option.splits)

lemma delayed_of_push:
  "delayed_of (index_push s j now) n =
     (if n = Queue j \<and> EligibleAt j > now then add_mset (entry_of j) (delayed_of s n) else delayed_of s n)"
  by (rule index_push_cases [of s j now])
    (cases "EligibleAt j > now"; auto simp: delayed_of_def mset_heap_Push split: option.splits)

lemma filed_push:
  "filed (index_push s j now) n =
     (if n = Queue j then add_mset (entry_of j) (filed s n) else filed s n)"
  by (auto simp: filed_def ready_of_push delayed_of_push)

lemma index_ok_push: "index_ok s \<Longrightarrow> index_ok (index_push s j now)"
  by (rule index_push_cases [of s j now])
    (cases "EligibleAt j > now";
      auto simp: index_ok_def queue_ok_def ready_heap.push_inv delayed_heap.push_inv
        split: option.splits if_splits)

lemma not_delayed_less: "\<not> delayedHeap_Less a b \<Longrightarrow> entryEligibleAt b \<le> entryEligibleAt a"
  by (auto simp: delayedHeap_Less_def split: if_splits)

lemma delayed_root_least:
  assumes "is_heap delayedHeap_Less h" and "e \<in> set h"
  shows "entryEligibleAt (h ! 0) \<le> entryEligibleAt e"
  using assms delayed_heap.heap_root_least not_delayed_less by (metis in_set_conv_nth)

lemma promote_loop_correct:
  "queue_ok q \<Longrightarrow>
     queue_ok (promote_loop q now) \<and>
     mset (ready (promote_loop q now)) =
       mset (ready q) + filter_mset (\<lambda>e. entryEligibleAt e \<le> now) (mset (delayed q)) \<and>
     mset (delayed (promote_loop q now)) =
       filter_mset (\<lambda>e. \<not> entryEligibleAt e \<le> now) (mset (delayed q))"
proof (induction q now rule: promote_loop.induct)
  case (1 q now)
  show ?case
  proof (cases "delayed q = [] \<or> entryEligibleAt (delayed q ! 0) > now")
    case True
    then have "\<forall>e \<in># mset (delayed q). \<not> entryEligibleAt e \<le> now"
      using "1.prems" delayed_root_least [of "delayed q"] by (fastforce simp: queue_ok_def)
    then have "filter_mset (\<lambda>e. entryEligibleAt e \<le> now) (mset (delayed q)) = {#}"
      "filter_mset (\<lambda>e. \<not> entryEligibleAt e \<le> now) (mset (delayed q)) = mset (delayed q)"
      by (auto simp: filter_mset_eq_conv)
    with True "1.prems" show ?thesis by (simp add: promote_loop.simps [of q now])
  next
    case False
    then obtain e d where pop: "heap_Pop delayedHeap_Less (delayed q) = Some (e, d)"
      by (cases "heap_Pop delayedHeap_Less (delayed q)") auto
    let ?q = "q\<lparr>delayed := d, ready := heap_Push readyHeap_Less (ready q) e\<rparr>"
    have root: "entryEligibleAt (delayed q ! 0) \<le> now" "delayed q ! 0 \<in># mset (delayed q)"
      using False by auto
    have split: "mset (delayed q) = add_mset e (mset d)"
      using pop by (rule delayed_heap.pop_elems)
    have "entryEligibleAt e \<le> entryEligibleAt (delayed q ! 0)"
      using "1.prems" delayed_heap.pop_least [OF _ pop root(2)] not_delayed_less
      by (simp add: queue_ok_def)
    with root(1) have elig: "entryEligibleAt e \<le> now" by simp
    have ok: "queue_ok ?q"
      using "1.prems" delayed_heap.pop_inv [OF _ pop] ready_heap.push_inv
      by (simp add: queue_ok_def)
    show ?thesis
      using "1.IH" [OF False pop refl ok] False pop elig
      by (simp add: promote_loop.simps [of q now] split mset_heap_Push)
  qed
qed

lemma index_ok_promote: "index_ok s \<Longrightarrow> index_ok (index_promote s queue now)"
  by (auto simp: index_ok_def index_promote_def promote_loop_correct split: option.splits if_splits)

lemma ready_of_promote:
  "index_ok s \<Longrightarrow> ready_of (index_promote s queue now) n =
     (if n = queue then ready_of s n + filter_mset (\<lambda>e. entryEligibleAt e \<le> now) (delayed_of s n)
      else ready_of s n)"
  by (auto simp: index_ok_def ready_of_def delayed_of_def index_promote_def promote_loop_correct
      split: option.splits)

lemma delayed_of_promote:
  "index_ok s \<Longrightarrow> delayed_of (index_promote s queue now) n =
     (if n = queue then filter_mset (\<lambda>e. \<not> entryEligibleAt e \<le> now) (delayed_of s n)
      else delayed_of s n)"
  by (auto simp: index_ok_def delayed_of_def index_promote_def promote_loop_correct
      split: option.splits)

lemma filed_promote: "index_ok s \<Longrightarrow> filed (index_promote s queue now) n = filed s n"
  by (simp add: filed_def ready_of_promote delayed_of_promote multiset_partition [symmetric])

lemma index_pop_None: "index_pop s queue = None \<longleftrightarrow> ready_of s queue = {#}"
  by (auto simp: index_pop_def ready_of_def split: option.splits)

lemma index_pop_Some:
  assumes "index_pop s queue = Some (e, s')"
  obtains q r where "s queue = Some q" "heap_Pop readyHeap_Less (ready q) = Some (e, r)"
    "s' = s(queue \<mapsto> q\<lparr>ready := r\<rparr>)"
  using assms by (auto simp: index_pop_def split: option.splits)

lemma index_ok_pop: "index_ok s \<Longrightarrow> index_pop s queue = Some (e, s') \<Longrightarrow> index_ok s'"
  by (erule index_pop_Some) (auto simp: index_ok_def queue_ok_def intro: ready_heap.pop_inv)

lemma ready_of_pop:
  assumes "index_pop s queue = Some (e, s')"
  shows "ready_of s n = (if n = queue then add_mset e (ready_of s' n) else ready_of s' n)"
  using assms by (rule index_pop_Some) (auto simp: ready_of_def ready_heap.pop_elems)

lemma delayed_of_pop:
  "index_pop s queue = Some (e, s') \<Longrightarrow> delayed_of s' n = delayed_of s n"
  by (erule index_pop_Some) (auto simp: delayed_of_def)

lemma filed_pop:
  "index_pop s queue = Some (e, s') \<Longrightarrow>
     filed s n = (if n = queue then add_mset e (filed s' n) else filed s' n)"
  by (simp add: filed_def ready_of_pop delayed_of_pop)

lemma index_pop_least:
  assumes "index_ok s" and "index_pop s queue = Some (e, s')" and "x \<in># ready_of s queue"
  shows "\<not> readyHeap_Less x e"
  using assms(2)
proof (rule index_pop_Some)
  fix q r assume q: "s queue = Some q" "heap_Pop readyHeap_Less (ready q) = Some (e, r)"
  with assms(1,3) show ?thesis
    by (intro ready_heap.pop_least [OF _ q(2)]) (auto simp: index_ok_def queue_ok_def ready_of_def)
qed

section \<open>The contract the store relies on\<close>

locale job_index =
  fixes push :: "'i \<Rightarrow> job \<Rightarrow> gotime \<Rightarrow> 'i"
    and promote :: "'i \<Rightarrow> string \<Rightarrow> gotime \<Rightarrow> 'i"
    and pop :: "'i \<Rightarrow> string \<Rightarrow> (indexEntry \<times> 'i) option"
    and now_ready :: "'i \<Rightarrow> string \<Rightarrow> indexEntry multiset"
    and entries :: "'i \<Rightarrow> string \<Rightarrow> indexEntry multiset"
    and ok :: "'i \<Rightarrow> bool"
  assumes push_ok: "ok i \<Longrightarrow> ok (push i j now)"
    and push_entries: "entries (push i j now) n =
          (if n = Queue j then add_mset (entry_of j) (entries i n) else entries i n)"
    and push_ready: "now_ready (push i j now) n =
          (if n = Queue j \<and> EligibleAt j \<le> now then add_mset (entry_of j) (now_ready i n)
           else now_ready i n)"
    and promote_ok: "ok i \<Longrightarrow> ok (promote i n now)"
    and promote_entries: "ok i \<Longrightarrow> entries (promote i n now) m = entries i m"
    and promote_ready: "ok i \<Longrightarrow> x \<in># entries i n \<Longrightarrow> entryEligibleAt x \<le> now \<Longrightarrow>
          x \<in># now_ready (promote i n now) n"
    and pop_None_iff: "pop i n = None \<longleftrightarrow> now_ready i n = {#}"
    and pop_ok: "ok i \<Longrightarrow> pop i n = Some (e, i') \<Longrightarrow> ok i'"
    and pop_entries: "pop i n = Some (e, i') \<Longrightarrow>
          entries i m = (if m = n then add_mset e (entries i' m) else entries i' m)"
    and pop_ready: "pop i n = Some (e, i') \<Longrightarrow>
          now_ready i m = (if m = n then add_mset e (now_ready i' m) else now_ready i' m)"
    and pop_order: "ok i \<Longrightarrow> pop i n = Some (e, i') \<Longrightarrow> x \<in># now_ready i n \<Longrightarrow> \<not> readyHeap_Less x e"
begin

text \<open>A pop after a promotion finds something whenever an eligible entry is filed.\<close>

lemma promoted_pop_some:
  assumes "ok i" and "x \<in># entries i n" and "entryEligibleAt x \<le> now"
  shows "\<exists>e i'. pop (promote i n now) n = Some (e, i')"
proof -
  have "x \<in># now_ready (promote i n now) n"
    using assms by (rule promote_ready)
  then have "pop (promote i n now) n \<noteq> None"
    by (auto simp: pop_None_iff)
  then show ?thesis by auto
qed

lemma promoted_pop_not_worse:
  assumes "ok i" and "x \<in># entries i n" and "entryEligibleAt x \<le> now"
    and "pop (promote i n now) n = Some (e, i')"
  shows "entryPriority x \<le> entryPriority e"
proof -
  have "\<not> readyHeap_Less x e"
    using promote_ok [OF assms(1)] assms(4) promote_ready [OF assms(1-3)] by (rule pop_order)
  then show ?thesis by (auto simp: readyHeap_Less_def split: if_splits)
qed

lemma pop_ready_size: "pop i n = Some (e, i') \<Longrightarrow> size (now_ready i' n) < size (now_ready i n)"
  using pop_ready [of i n e i' n] by simp

end

interpretation schedule: job_index index_push index_promote index_pop ready_of filed index_ok
proof unfold_locales
  fix i x n now
  assume "index_ok i" "x \<in># filed i n" "entryEligibleAt x \<le> now"
  then show "x \<in># ready_of (index_promote i n now) n"
    by (auto simp: filed_def ready_of_promote)
qed (simp_all add: index_ok_push filed_push ready_of_push index_ok_promote filed_promote
      index_pop_None index_ok_pop filed_pop ready_of_pop index_pop_least)

section \<open>The next deadline\<close>

lemma nextDeadline_loop_le_acc:
  "acc \<noteq> 0 \<Longrightarrow> \<forall>n q. s n = Some q \<and> delayed q \<noteq> [] \<longrightarrow> entryEligibleAt (delayed q ! 0) \<noteq> 0 \<Longrightarrow>
     nextDeadline_loop s ns acc \<noteq> 0 \<and> nextDeadline_loop s ns acc \<le> acc"
proof (induction ns arbitrary: acc)
  case (Cons n ns)
  show ?case
  proof (cases "s n")
    case None
    with Cons show ?thesis by simp
  next
    case (Some q)
    show ?thesis
    proof (cases "delayed q \<noteq> [] \<and> entryEligibleAt (delayed q ! 0) < acc")
      case True
      with Some Cons.prems have "entryEligibleAt (delayed q ! 0) \<noteq> 0" by blast
      from Cons.IH [OF this Cons.prems(2)] True Some Cons.prems(1) show ?thesis by simp
    next
      case False
      with Some Cons show ?thesis by auto
    qed
  qed
qed simp

lemma nextDeadline_loop_le:
  assumes nz: "\<forall>n q. s n = Some q \<and> delayed q \<noteq> [] \<longrightarrow> entryEligibleAt (delayed q ! 0) \<noteq> 0"
    and "n \<in> set ns" and q: "s n = Some q" "delayed q \<noteq> []"
  shows "nextDeadline_loop s ns acc \<noteq> 0 \<and>
    nextDeadline_loop s ns acc \<le> entryEligibleAt (delayed q ! 0)"
  using assms(2)
proof (induction ns arbitrary: acc)
  case (Cons m ns)
  show ?case
  proof (cases "m = n")
    case True
    have nz': "entryEligibleAt (delayed q ! 0) \<noteq> 0" using nz q by blast
    show ?thesis
    proof (cases "acc = 0 \<or> entryEligibleAt (delayed q ! 0) < acc")
      case True
      with \<open>m = n\<close> q nextDeadline_loop_le_acc [OF nz' nz, of ns] show ?thesis by simp
    next
      case False
      with \<open>m = n\<close> q nextDeadline_loop_le_acc [of acc, OF _ nz, of ns] show ?thesis by fastforce
    qed
  next
    case False
    with Cons show ?thesis by (auto split: option.splits)
  qed
qed simp

lemma nextDeadline_loop_attained:
  "nextDeadline_loop s ns acc = acc \<or>
     (\<exists>n q. n \<in> set ns \<and> s n = Some q \<and> delayed q \<noteq> [] \<and>
        nextDeadline_loop s ns acc = entryEligibleAt (delayed q ! 0))"
proof (induction ns arbitrary: acc)
  case (Cons n ns)
  show ?case
  proof (cases "s n")
    case None
    with Cons.IH [of acc] show ?thesis by auto
  next
    case (Some q)
    with Cons.IH [of acc] Cons.IH [of "entryEligibleAt (delayed q ! 0)"] show ?thesis
      by (cases "delayed q = []"; cases "acc = 0 \<or> entryEligibleAt (delayed q ! 0) < acc")
        (simp; metis)+
  qed
qed simp

end
