(* ===== verification/Cv_Store.thy ===== *)
theory Cv_Store
  imports Cv_Log Cv_Event Cv_Index
begin

text \<open>
  The job store of \<^verbatim>\<open>internal/broker/store.go\<close>: the state, \<^verbatim>\<open>apply\<close>, and every
  operation.  An operation takes and returns the store and the operating system; the
  clock, the random draws and the order in which Go visits a map are arguments.

  An operation that waits for durability has two critical sections: the one under the
  store's mutex (\<open>Submit_locked\<close>, \<open>Ack_locked\<close>, \<dots>) and, with the mutex released, the
  flush (\<open>commitDurable\<close>).  \<open>run_commit\<close> puts the two together; the theory of
  interleavings takes them apart.  Metrics are not modelled.
\<close>

section \<open>State\<close>

datatype store_error =
  ErrQueueRequired | ErrJobNotFound | ErrNotDeadLettered | ErrDirMissing
| ErrAppend wal_error | ErrReserve wal_error | ErrOpenLog wal_error | ErrReplayLog wal_error
| ErrEncodeEvent | ErrDecodeEvent nat | ErrApply string | ErrDurabilityLost wal_error
| ErrEncodeSnapshot | ErrSnapshotIO string errno | ErrTruncate wal_error | ErrCloseLog wal_error | Panic

record config =
  cfgDir :: string
  BackoffBase :: duration
  BackoffCap :: duration
  EpochBlockSize :: u64
  WALSegmentSize :: int

record store =
  sdir :: string
  snapDir :: string
  backoffBase :: duration
  backoffCap :: duration
  epochBlockSize :: u64
  log :: wal
  jobs :: "string \<rightharpoonup> job"
  idem :: "string \<rightharpoonup> string"
  leased :: "string set"
  index :: scheduleIndex
  lastLSN :: nat
  failed :: "store_error option"
  nextEpoch :: u64
  epochReservedUpTo :: u64
  notifyCh :: bool

record SubmitParams =
  pQueue :: string
  pHandler :: string
  pPayload :: bytes
  pIdempotencyKey :: string
  pPriority :: priority
  pMaxRetries :: int
  pDelay :: duration

definition walDirName :: string where "walDirName = ''wal''"
definition snapshotDirName :: string where "snapshotDirName = ''snapshots''"
definition snapshotPrefix :: string where "snapshotPrefix = ''snapshot-''"
definition snapshotSuffix :: string where "snapshotSuffix = ''.json''"
definition snapshotsKept :: nat where "snapshotsKept = 2"
definition defaultEpochBlockSize :: u64 where "defaultEpochBlockSize = 2 ^ 20"

text \<open>\<^verbatim>\<open>filepath.Join\<close> of a clean directory and a plain name.\<close>

definition path_Join :: "string \<Rightarrow> string \<Rightarrow> string" where "path_Join d n = d @ CHR ''/'' # n"

definition idemKey :: "string \<Rightarrow> string \<Rightarrow> string" where
  "idemKey queue key = queue @ CHR 0x00 # key"

section \<open>Applying events\<close>

definition apply_lease :: "event \<Rightarrow> job \<Rightarrow> job" where
  "apply_lease e j =
     j\<lparr>State := StateLeased, Epoch := evEpoch e, LeasedBy := evWorkerID e,
       LeaseExpiresAt := evLeaseExpiresAt e, Attempt := evAttempt e\<rparr>"

definition apply_ack :: "job \<Rightarrow> job" where
  "apply_ack j = j\<lparr>State := StateDone, LeasedBy := [], LeaseExpiresAt := 0\<rparr>"

definition apply_fail :: "event \<Rightarrow> job \<Rightarrow> job" where
  "apply_fail e j =
     j\<lparr>State := evNextState e, Attempt := evAttempt e, EligibleAt := evEligibleAt e,
       LastError := evReason e, LeasedBy := [], LeaseExpiresAt := 0\<rparr>"

definition apply_replay :: "event \<Rightarrow> job \<Rightarrow> job" where
  "apply_replay e j =
     j\<lparr>State := StatePending, Attempt := 0, EligibleAt := evEligibleAt e, LastError := [],
       LeasedBy := [], LeaseExpiresAt := 0\<rparr>"

definition store_apply :: "store \<Rightarrow> event \<Rightarrow> store_error + store" where
  "store_apply s e =
     (if evType e = eventSubmit then
        (case evJob e of
           None \<Rightarrow> Inl (ErrApply ''submit event has no job'')
         | Some j \<Rightarrow>
             Inr (s\<lparr>jobs := (jobs s)(ID j \<mapsto> j),
                    idem := (if IdempotencyKey j \<noteq> []
                             then (idem s)(idemKey (Queue j) (IdempotencyKey j) \<mapsto> ID j) else idem s)\<rparr>))
      else if evType e = eventLease then
        (case jobs s (evJobID e) of
           None \<Rightarrow> Inl (ErrApply ''lease for unknown job'')
         | Some j \<Rightarrow>
             Inr (s\<lparr>jobs := (jobs s)(evJobID e \<mapsto> apply_lease e j), leased := insert (ID j) (leased s)\<rparr>))
      else if evType e = eventAck then
        (case jobs s (evJobID e) of
           None \<Rightarrow> Inl (ErrApply ''ack for unknown job'')
         | Some j \<Rightarrow>
             Inr (s\<lparr>jobs := (jobs s)(evJobID e \<mapsto> apply_ack j), leased := leased s - {ID j}\<rparr>))
      else if evType e = eventFail then
        (case jobs s (evJobID e) of
           None \<Rightarrow> Inl (ErrApply ''fail for unknown job'')
         | Some j \<Rightarrow>
             Inr (s\<lparr>jobs := (jobs s)(evJobID e \<mapsto> apply_fail e j), leased := leased s - {ID j}\<rparr>))
      else if evType e = eventReplayJob then
        (case jobs s (evJobID e) of
           None \<Rightarrow> Inl (ErrApply ''replay for unknown job'')
         | Some j \<Rightarrow>
             Inr (s\<lparr>jobs := (jobs s)(evJobID e \<mapsto> apply_replay e j), leased := leased s - {ID j}\<rparr>))
      else if evType e = eventEpochReserve then Inr (s\<lparr>epochReservedUpTo := evReservedUpTo e\<rparr>)
      else Inl (ErrApply ''unknown event type''))"

section \<open>Writing\<close>

definition recordLocked :: "store \<Rightarrow> os \<Rightarrow> event \<Rightarrow> store_error option \<times> store \<times> os" where
  "recordLocked s os e =
     (case failed s of
        Some x \<Rightarrow> (Some x, s, os)
      | None \<Rightarrow>
          (case encodeEvent e of
             None \<Rightarrow> (Some ErrEncodeEvent, s, os)
           | Some payload \<Rightarrow>
               (case wal_Append (log s) os payload of
                  (Inl x, w, os') \<Rightarrow> (Some (ErrAppend x), s\<lparr>log := w\<rparr>, os')
                | (Inr lsn, w, os') \<Rightarrow>
                    (case store_apply (s\<lparr>log := w\<rparr>) e of
                       Inl x \<Rightarrow> (Some x, s\<lparr>log := w\<rparr>, os')
                     | Inr s' \<Rightarrow> (None, s'\<lparr>lastLSN := lsn\<rparr>, os')))))"

text \<open>
  \<^verbatim>\<open>commitDurable\<close>: the flush itself is the committer's, which runs \<^verbatim>\<open>WAL.Sync\<close> for all
  who wait; its failure poisons the store.
\<close>

definition commitDurable :: "store \<Rightarrow> os \<Rightarrow> store_error option \<times> store \<times> os" where
  "commitDurable s os =
     (case wal_Sync (log s) os of
        (None, w, os') \<Rightarrow> (None, s\<lparr>log := w\<rparr>, os')
      | (Some x, w, os') \<Rightarrow>
          (let f = (case failed s of None \<Rightarrow> ErrDurabilityLost x | Some y \<Rightarrow> y)
           in (Some f, s\<lparr>log := w, failed := Some f\<rparr>, os')))"

definition Failed :: "store \<Rightarrow> store_error option" where "Failed s = failed s"

text \<open>\<^verbatim>\<open>signal\<close> puts a token into a channel of capacity one unless one is there.\<close>

definition signal :: "store \<Rightarrow> store" where "signal s = s\<lparr>notifyCh := True\<rparr>"

text \<open>A locked section either answers at once or asks for a flush before its answer.\<close>

datatype 'a phase = Answer "store_error + 'a" | Flush 'a

definition run_commit :: "'a phase \<times> store \<times> os \<Rightarrow> (store_error + 'a) \<times> store \<times> os" where
  "run_commit p =
     (case p of
        (Answer r, s, os) \<Rightarrow> (r, s, os)
      | (Flush a, s, os) \<Rightarrow>
          (case commitDurable s os of
             (Some x, s', os') \<Rightarrow> (Inl x, s', os')
           | (None, s', os') \<Rightarrow> (Inr a, signal s', os')))"

section \<open>Fencing tokens\<close>

definition reserveEpochsLocked :: "store \<Rightarrow> os \<Rightarrow> store_error option \<times> store \<times> os" where
  "reserveEpochsLocked s os =
     (let e = zero_event\<lparr>evType := eventEpochReserve, evReservedUpTo := nextEpoch s + epochBlockSize s - 1\<rparr>
      in case encodeEvent e of
           None \<Rightarrow> (Some ErrEncodeEvent, s, os)
         | Some payload \<Rightarrow>
             (case wal_AppendSync (log s) os payload of
                (Inl x, w, os') \<Rightarrow> (Some (ErrReserve x), s\<lparr>log := w\<rparr>, os')
              | (Inr lsn, w, os') \<Rightarrow>
                  (case store_apply (s\<lparr>log := w\<rparr>) e of
                     Inl x \<Rightarrow> (Some x, s\<lparr>log := w\<rparr>, os')
                   | Inr s' \<Rightarrow> (None, s'\<lparr>lastLSN := lsn\<rparr>, os'))))"

definition nextEpochLocked :: "store \<Rightarrow> os \<Rightarrow> (store_error + u64) \<times> store \<times> os" where
  "nextEpochLocked s os =
     (let (r, s1, os1) = (if nextEpoch s > epochReservedUpTo s then reserveEpochsLocked s os else (None, s, os))
      in case r of
           Some x \<Rightarrow> (Inl x, s1, os1)
         | None \<Rightarrow> (Inr (nextEpoch s1), s1\<lparr>nextEpoch := nextEpoch s1 + 1\<rparr>, os1))"

definition holdsLease :: "job \<Rightarrow> u64 \<Rightarrow> bool" where
  "holdsLease j epoch \<longleftrightarrow> State j = StateLeased \<and> Epoch j = epoch"

section \<open>Transitions\<close>

definition Submit_locked ::
  "SubmitParams \<Rightarrow> int \<Rightarrow> bytes option \<Rightarrow> gotime \<Rightarrow> store \<Rightarrow> os \<Rightarrow> (job option \<times> bool) phase \<times> store \<times> os"
where
  "Submit_locked p0 nano rnd now s os =
     (if TrimSpace (pQueue p0) = [] then (Answer (Inl ErrQueueRequired), s, os)
      else
        let p = p0\<lparr>pHandler := (if pHandler p0 = [] then ''shell'' else pHandler p0),
                   pMaxRetries := (if pMaxRetries p0 < 0 then 0 else pMaxRetries p0)\<rparr>
        in case failed s of
             Some x \<Rightarrow> (Answer (Inl x), s, os)
           | None \<Rightarrow>
               (case (if pIdempotencyKey p \<noteq> [] then idem s (idemKey (pQueue p) (pIdempotencyKey p)) else None) of
                  Some i \<Rightarrow> (Answer (Inr (Clone (jobs s i), True)), s, os)
                | None \<Rightarrow>
                    (case NewID nano rnd of
                       None \<Rightarrow> (Answer (Inl Panic), s, os)
                     | Some i \<Rightarrow>
                         (let j = \<lparr>ID = i, Queue = pQueue p, Handler = pHandler p, Payload = pPayload p,
                                   IdempotencyKey = pIdempotencyKey p, Priority = pPriority p,
                                   MaxRetries = pMaxRetries p, Attempt = 0, State = StatePending, Epoch = 0,
                                   EnqueuedAt = now, EligibleAt = now + pDelay p, LeaseExpiresAt = 0,
                                   LeasedBy = [], LastError = []\<rparr>
                          in case recordLocked s os (zero_event\<lparr>evType := eventSubmit, evJob := Some j\<rparr>) of
                               (Some x, s1, os1) \<Rightarrow> (Answer (Inl x), s1, os1)
                             | (None, s1, os1) \<Rightarrow>
                                 (Flush (Clone (Some j), False), s1\<lparr>index := index_push (index s1) j now\<rparr>, os1)))))"

definition Submit ::
  "SubmitParams \<Rightarrow> int \<Rightarrow> bytes option \<Rightarrow> gotime \<Rightarrow> store \<Rightarrow> os \<Rightarrow> (store_error + job option \<times> bool) \<times> store \<times> os"
where
  "Submit p nano rnd now s os = run_commit (Submit_locked p nano rnd now s os)"

text \<open>
  The loop of \<^verbatim>\<open>Lease\<close> over the candidates of a queue.  Each round takes an entry off the
  ready heap, and what it files goes onto the delayed one.
\<close>

function lease_loop ::
  "string \<Rightarrow> string \<Rightarrow> duration \<Rightarrow> gotime \<Rightarrow> store \<Rightarrow> os \<Rightarrow> (store_error + job option) \<times> store \<times> os"
where
  "lease_loop queue workerID dur now s os =
     (case index_pop (index s) queue of
        None \<Rightarrow> (Inr None, s, os)
      | Some (cand, idx) \<Rightarrow>
          (let s0 = s\<lparr>index := idx\<rparr>
           in case jobs s (entryID cand) of
                None \<Rightarrow> lease_loop queue workerID dur now s0 os
              | Some j \<Rightarrow>
                  if \<not> Leasable (State j) then lease_loop queue workerID dur now s0 os
                  else if entryEligibleAt cand \<noteq> EligibleAt j then lease_loop queue workerID dur now s0 os
                  else if EligibleAt j > now
                  then lease_loop queue workerID dur now (s\<lparr>index := index_push idx j now\<rparr>) os
                  else (case nextEpochLocked s0 os of
                          (Inl x, s1, os1) \<Rightarrow> (Inl x, s1\<lparr>index := index_push (index s1) j now\<rparr>, os1)
                        | (Inr epoch, s1, os1) \<Rightarrow>
                            (case recordLocked s1 os1
                                    (zero_event\<lparr>evType := eventLease, evJobID := ID j, evEpoch := epoch,
                                       evWorkerID := workerID, evLeaseExpiresAt := now + dur,
                                       evAttempt := Attempt j + 1\<rparr>) of
                               (Some x, s2, os2) \<Rightarrow> (Inl x, s2\<lparr>index := index_push (index s2) j now\<rparr>, os2)
                             | (None, s2, os2) \<Rightarrow> (Inr (Clone (jobs s2 (entryID cand))), s2, os2)))))"
  by pat_completeness auto
termination
  by (relation "measure (\<lambda>(queue, workerID, dur, now, s, os). size (ready_of (index s) queue))")
    (auto simp: ready_of_push dest: schedule.pop_ready_size)

declare lease_loop.simps [simp del]

definition Lease ::
  "string \<Rightarrow> string \<Rightarrow> duration \<Rightarrow> gotime \<Rightarrow> store \<Rightarrow> os \<Rightarrow> (store_error + job option) \<times> store \<times> os"
where
  "Lease queue workerID dur now s os =
     lease_loop queue workerID dur now (s\<lparr>index := index_promote (index s) queue now\<rparr>) os"

definition Ack_locked :: "string \<Rightarrow> u64 \<Rightarrow> store \<Rightarrow> os \<Rightarrow> bool phase \<times> store \<times> os" where
  "Ack_locked jobID epoch s os =
     (case jobs s jobID of
        None \<Rightarrow> (Answer (Inl ErrJobNotFound), s, os)
      | Some j \<Rightarrow>
          if \<not> holdsLease j epoch then (Answer (Inr False), s, os)
          else (case recordLocked s os (zero_event\<lparr>evType := eventAck, evJobID := jobID, evEpoch := epoch\<rparr>) of
                  (Some x, s1, os1) \<Rightarrow> (Answer (Inl x), s1, os1)
                | (None, s1, os1) \<Rightarrow> (Flush True, s1, os1)))"

definition Ack :: "string \<Rightarrow> u64 \<Rightarrow> store \<Rightarrow> os \<Rightarrow> (store_error + bool) \<times> store \<times> os" where
  "Ack jobID epoch s os = run_commit (Ack_locked jobID epoch s os)"

text \<open>\<open>r\<close> is the raw draw of the backoff's jitter, which the source takes in any case.\<close>

definition failLocked ::
  "job \<Rightarrow> string \<Rightarrow> bool \<Rightarrow> gotime \<Rightarrow> nat \<Rightarrow> store \<Rightarrow> os \<Rightarrow> (store_error + bool) \<times> store \<times> os"
where
  "failLocked j reason timeout now r s os =
     (let attempt = Attempt j;
          delay = Backoff attempt (backoffBase s) (backoffCap s) r;
          nxt = (if attempt > MaxRetries j then StateDeadLetter else StateRetryWait);
          eligible = (if attempt > MaxRetries j then now else now + delay);
          e = zero_event\<lparr>evType := eventFail, evJobID := ID j, evEpoch := Epoch j, evAttempt := attempt,
                evReason := reason, evNextState := nxt, evEligibleAt := eligible, evTimeout := timeout\<rparr>
      in case recordLocked s os e of
           (Some x, s1, os1) \<Rightarrow> (Inl x, s1, os1)
         | (None, s1, os1) \<Rightarrow>
             (Inr (nxt = StateDeadLetter),
              if nxt = StateRetryWait then s1\<lparr>index := index_push (index s1) (apply_fail e j) now\<rparr> else s1, os1))"

definition Nack_locked ::
  "string \<Rightarrow> u64 \<Rightarrow> string \<Rightarrow> gotime \<Rightarrow> nat \<Rightarrow> store \<Rightarrow> os \<Rightarrow> (bool \<times> bool) phase \<times> store \<times> os"
where
  "Nack_locked jobID epoch reason0 now r s os =
     (case jobs s jobID of
        None \<Rightarrow> (Answer (Inl ErrJobNotFound), s, os)
      | Some j \<Rightarrow>
          if \<not> holdsLease j epoch then (Answer (Inr (False, False)), s, os)
          else
            let reason = (if reason0 = [] then ''handler reported failure'' else reason0)
            in case failLocked j reason False now r s os of
                 (Inl x, s1, os1) \<Rightarrow> (Answer (Inl x), s1, os1)
               | (Inr dead, s1, os1) \<Rightarrow> (Flush (True, dead), s1, os1))"

definition Nack ::
  "string \<Rightarrow> u64 \<Rightarrow> string \<Rightarrow> gotime \<Rightarrow> nat \<Rightarrow> store \<Rightarrow> os \<Rightarrow> (store_error + bool \<times> bool) \<times> store \<times> os"
where
  "Nack jobID epoch reason now r s os = run_commit (Nack_locked jobID epoch reason now r s os)"

definition Heartbeat ::
  "string \<Rightarrow> u64 \<Rightarrow> duration \<Rightarrow> gotime \<Rightarrow> store \<Rightarrow> (store_error + bool \<times> gotime) \<times> store"
where
  "Heartbeat jobID epoch dur now s =
     (case jobs s jobID of
        None \<Rightarrow> (Inl ErrJobNotFound, s)
      | Some j \<Rightarrow>
          if \<not> holdsLease j epoch then (Inr (False, 0), s)
          else (Inr (True, now + dur), s\<lparr>jobs := (jobs s)(jobID \<mapsto> j\<lparr>LeaseExpiresAt := now + dur\<rparr>)\<rparr>))"

text \<open>
  The sweep of \<^verbatim>\<open>ReclaimExpired\<close>: the ids are those of the map of leased jobs, in the
  order the runtime visits them; \<open>draw\<close> gives each job's backoff draw.
\<close>

fun reclaim_loop ::
  "(string \<Rightarrow> nat) \<Rightarrow> gotime \<Rightarrow> string list \<Rightarrow> string list \<Rightarrow> store \<Rightarrow> os \<Rightarrow>
     store_error option \<times> string list \<times> store \<times> os"
where
  "reclaim_loop draw now [] acc s os = (None, acc, s, os)"
| "reclaim_loop draw now (i # ids) acc s os =
     (case jobs s i of
        None \<Rightarrow> reclaim_loop draw now ids acc (s\<lparr>leased := leased s - {i}\<rparr>) os
      | Some j \<Rightarrow>
          if State j \<noteq> StateLeased then reclaim_loop draw now ids acc (s\<lparr>leased := leased s - {i}\<rparr>) os
          else if LeaseExpiresAt j > now then reclaim_loop draw now ids acc s os
          else (case failLocked j ''lease expired'' True now (draw i) s os of
                  (Inl x, s1, os1) \<Rightarrow> (Some x, acc, s1, os1)
                | (Inr dead, s1, os1) \<Rightarrow> reclaim_loop draw now ids (acc @ [i]) s1 os1))"

definition ReclaimExpired ::
  "(string \<Rightarrow> nat) \<Rightarrow> gotime \<Rightarrow> string list \<Rightarrow> store \<Rightarrow> os \<Rightarrow> (string list \<times> store_error option) \<times> store \<times> os"
where
  "ReclaimExpired draw now ids s os =
     (case reclaim_loop draw now ids [] s os of
        (Some x, acc, s1, os1) \<Rightarrow> ((acc, Some x), s1, os1)
      | (None, acc, s1, os1) \<Rightarrow>
          if acc = [] then (([], None), s1, os1)
          else (case commitDurable s1 os1 of
                  (Some x, s2, os2) \<Rightarrow> ((acc, Some x), s2, os2)
                | (None, s2, os2) \<Rightarrow> ((acc, None), signal s2, os2)))"

definition ReplayJob_locked :: "string \<Rightarrow> gotime \<Rightarrow> store \<Rightarrow> os \<Rightarrow> unit phase \<times> store \<times> os" where
  "ReplayJob_locked jobID now s os =
     (case jobs s jobID of
        None \<Rightarrow> (Answer (Inl ErrJobNotFound), s, os)
      | Some j \<Rightarrow>
          if State j \<noteq> StateDeadLetter then (Answer (Inl ErrNotDeadLettered), s, os)
          else
            let e = zero_event\<lparr>evType := eventReplayJob, evJobID := jobID, evEligibleAt := now\<rparr>
            in case recordLocked s os e of
                 (Some x, s1, os1) \<Rightarrow> (Answer (Inl x), s1, os1)
               | (None, s1, os1) \<Rightarrow>
                   (Flush (), s1\<lparr>index := index_push (index s1) (apply_replay e j) now\<rparr>, os1))"

definition ReplayJob :: "string \<Rightarrow> gotime \<Rightarrow> store \<Rightarrow> os \<Rightarrow> (store_error + unit) \<times> store \<times> os" where
  "ReplayJob jobID now s os = run_commit (ReplayJob_locked jobID now s os)"

section \<open>Queries\<close>

definition Get :: "string \<Rightarrow> store \<Rightarrow> job option \<times> bool" where
  "Get i s = (Clone (jobs s i), jobs s i \<noteq> None)"

text \<open>\<open>ids\<close>: the keys of the job map in the order they are visited.\<close>

definition ListJobs :: "string \<Rightarrow> job_state \<Rightarrow> int \<Rightarrow> string list \<Rightarrow> store \<Rightarrow> job list" where
  "ListJobs queue st limit ids s =
     (let out = filter (\<lambda>j. (queue = [] \<or> Queue j = queue) \<and> (st = StateUnspecified \<or> State j = st))
                  (List.map_filter (jobs s) ids);
          sorted = rev (sort_key ID out)
      in if limit > 0 \<and> int (length sorted) > limit then take (nat limit) sorted else sorted)"

record QueueStats =
  qsQueue :: string
  qsPending :: int
  qsLeased :: int
  qsRetryWait :: int
  qsDone :: int
  qsDeadLetter :: int

record Stats_result =
  stQueues :: "QueueStats list"
  stTotalJobs :: int
  stLastLSN :: nat

definition count_state :: "job_state \<Rightarrow> QueueStats \<Rightarrow> QueueStats" where
  "count_state st q =
     (case st of
        StatePending \<Rightarrow> q\<lparr>qsPending := qsPending q + 1\<rparr>
      | StateLeased \<Rightarrow> q\<lparr>qsLeased := qsLeased q + 1\<rparr>
      | StateRetryWait \<Rightarrow> q\<lparr>qsRetryWait := qsRetryWait q + 1\<rparr>
      | StateDone \<Rightarrow> q\<lparr>qsDone := qsDone q + 1\<rparr>
      | StateDeadLetter \<Rightarrow> q\<lparr>qsDeadLetter := qsDeadLetter q + 1\<rparr>
      | StateUnspecified \<Rightarrow> q)"

definition new_queue_stats :: "string \<Rightarrow> QueueStats" where
  "new_queue_stats n = \<lparr>qsQueue = n, qsPending = 0, qsLeased = 0, qsRetryWait = 0, qsDone = 0, qsDeadLetter = 0\<rparr>"

fun stats_loop :: "string \<Rightarrow> job list \<Rightarrow> (string \<times> QueueStats) list \<Rightarrow> int \<Rightarrow> (string \<times> QueueStats) list \<times> int" where
  "stats_loop queue [] byQueue tot = (byQueue, tot)"
| "stats_loop queue (j # js) byQueue tot =
     (if queue \<noteq> [] \<and> Queue j \<noteq> queue then stats_loop queue js byQueue tot
      else
        let q = (case map_of byQueue (Queue j) of None \<Rightarrow> new_queue_stats (Queue j) | Some q \<Rightarrow> q)
        in stats_loop queue js (AList.update (Queue j) (count_state (State j) q) byQueue) (tot + 1))"

definition Stats :: "string \<Rightarrow> string list \<Rightarrow> store \<Rightarrow> Stats_result" where
  "Stats queue ids s =
     (case stats_loop queue (List.map_filter (jobs s) ids) [] 0 of
        (byQueue, tot) \<Rightarrow>
          \<lparr>stQueues = sort_key qsQueue (map snd byQueue), stTotalJobs = tot, stLastLSN = lastLSN s\<rparr>)"

definition NextDelayedDeadline :: "string list \<Rightarrow> store \<Rightarrow> gotime option" where
  "NextDelayedDeadline names s = nextDeadline (index s) names"

end
