(* ===== verification/Cv_Store_Inv.thy ===== *)
theory Cv_Store_Inv
  imports Cv_Store
begin

text \<open>
  The invariant of the store's memory and its preservation by every operation: jobs
  are filed under their own identifiers, the set of leased jobs and the idempotency map
  agree with the jobs, every job that may run has a current entry in the schedule
  index, and no fencing token in use is at or above the next one.
\<close>

section \<open>What an event does to the memory\<close>

lemma event_types_distinct [simp]:
  "eventLease \<noteq> eventSubmit" "eventAck \<noteq> eventSubmit" "eventFail \<noteq> eventSubmit"
  "eventReplayJob \<noteq> eventSubmit" "eventEpochReserve \<noteq> eventSubmit"
  "eventAck \<noteq> eventLease" "eventFail \<noteq> eventLease" "eventReplayJob \<noteq> eventLease"
  "eventEpochReserve \<noteq> eventLease" "eventFail \<noteq> eventAck" "eventReplayJob \<noteq> eventAck"
  "eventEpochReserve \<noteq> eventAck" "eventReplayJob \<noteq> eventFail" "eventEpochReserve \<noteq> eventFail"
  "eventEpochReserve \<noteq> eventReplayJob"
  by (simp_all add: event_types)

lemma store_apply_log:
  "store_apply (s\<lparr>log := w\<rparr>) e = map_sum id (\<lambda>t. t\<lparr>log := w\<rparr>) (store_apply s e)"
  by (simp add: store_apply_def split: option.splits)

lemma store_apply_frame:
  assumes "store_apply s e = Inr s'"
  shows "log s' = log s" "index s' = index s" "failed s' = failed s" "nextEpoch s' = nextEpoch s"
    "epochBlockSize s' = epochBlockSize s" "lastLSN s' = lastLSN s" "backoffBase s' = backoffBase s"
    "backoffCap s' = backoffCap s" "snapDir s' = snapDir s" "sdir s' = sdir s" "notifyCh s' = notifyCh s"
  using assms by (auto simp: store_apply_def split: if_splits option.splits)

lemma log_same: "\<exists>w. s = s\<lparr>log := w\<rparr>" for s :: store
  by (rule exI [of _ "log s"]) simp

lemma recordLocked_error:
  "recordLocked s os e = (Some x, s', os') \<Longrightarrow> \<exists>w. s' = s\<lparr>log := w\<rparr>"
proof -
  assume rec: "recordLocked s os e = (Some x, s', os')"
  show ?thesis
  proof (cases "failed s = None \<and> encodeEvent e \<noteq> None")
    case False
    then have "s' = s" using rec by (auto simp: recordLocked_def split: option.splits)
    then show ?thesis using log_same by simp
  next
    case True
    then obtain payload where "encodeEvent e = Some payload" by auto
    with True rec show ?thesis
      by (auto simp: recordLocked_def split: prod.splits sum.splits)
  qed
qed

lemma recordLocked_done:
  assumes "recordLocked s os e = (None, s', os')"
  obtains payload lsn w t where "failed s = None" "encodeEvent e = Some payload"
    "wal_Append (log s) os payload = (Inr lsn, w, os')" "store_apply s e = Inr t"
    "s' = t\<lparr>log := w, lastLSN := lsn\<rparr>"
proof -
  obtain payload r w os1 where 1: "failed s = None" "encodeEvent e = Some payload"
    "wal_Append (log s) os payload = (r, w, os1)"
    using assms by (auto simp: recordLocked_def split: option.splits prod.splits)
  then obtain lsn t where 2: "r = Inr lsn" "store_apply s e = Inr t" "s' = t\<lparr>log := w, lastLSN := lsn\<rparr>" "os' = os1"
    using assms by (auto simp: recordLocked_def store_apply_log map_sum_def split: sum.splits)
  with 1 show thesis using that by blast
qed

section \<open>The invariant\<close>

definition jobs_ok :: "store \<Rightarrow> bool" where
  "jobs_ok s \<longleftrightarrow>
     (\<forall>i j. jobs s i = Some j \<longrightarrow> ID j = i) \<and>
     leased s = {i. \<exists>j. jobs s i = Some j \<and> State j = StateLeased} \<and>
     finite (dom (jobs s))"

definition idem_ok :: "store \<Rightarrow> bool" where
  "idem_ok s \<longleftrightarrow>
     (\<forall>k i. idem s k = Some i \<longrightarrow>
        (\<exists>j. jobs s i = Some j \<and> IdempotencyKey j \<noteq> [] \<and> k = idemKey (Queue j) (IdempotencyKey j))) \<and>
     (\<forall>i j. jobs s i = Some j \<and> IdempotencyKey j \<noteq> [] \<longrightarrow> idem s (idemKey (Queue j) (IdempotencyKey j)) = Some i)"

text \<open>Every job that may run has an entry that is still current.\<close>

definition scheduled :: "store \<Rightarrow> bool" where
  "scheduled s \<longleftrightarrow>
     index_ok (index s) \<and>
     (\<forall>i j. jobs s i = Some j \<and> Leasable (State j) \<longrightarrow> entry_of j \<in># filed (index s) (Queue j))"

definition epochs_ok :: "store \<Rightarrow> bool" where
  "epochs_ok s \<longleftrightarrow>
     (\<forall>i j. jobs s i = Some j \<longrightarrow> Epoch j < nextEpoch s) \<and>
     unat (nextEpoch s) \<le> unat (epochReservedUpTo s) + 1 \<and> 0 < epochBlockSize s"

definition store_ok :: "store \<Rightarrow> bool" where
  "store_ok s \<longleftrightarrow> jobs_ok s \<and> idem_ok s \<and> scheduled s \<and> epochs_ok s"

text \<open>The counters have room for another lease: 64-bit epochs, \<^verbatim>\<open>int\<close> attempts.\<close>

definition in_range :: "store \<Rightarrow> bool" where
  "in_range s \<longleftrightarrow>
     unat (nextEpoch s) + unat (epochBlockSize s) < 2 ^ 64 \<and>
     (\<forall>i j. jobs s i = Some j \<longrightarrow> int64_ok (Attempt j + 1))"

text \<open>Each part of the invariant looks at a few fields only.\<close>

lemma parts_log [simp]:
  "jobs_ok (s\<lparr>log := w\<rparr>) = jobs_ok s" "idem_ok (s\<lparr>log := w\<rparr>) = idem_ok s"
  "scheduled (s\<lparr>log := w\<rparr>) = scheduled s" "epochs_ok (s\<lparr>log := w\<rparr>) = epochs_ok s"
  by (simp_all add: jobs_ok_def idem_ok_def scheduled_def epochs_ok_def)

lemma parts_lastLSN [simp]:
  "jobs_ok (s\<lparr>lastLSN := l\<rparr>) = jobs_ok s" "idem_ok (s\<lparr>lastLSN := l\<rparr>) = idem_ok s"
  "scheduled (s\<lparr>lastLSN := l\<rparr>) = scheduled s" "epochs_ok (s\<lparr>lastLSN := l\<rparr>) = epochs_ok s"
  by (simp_all add: jobs_ok_def idem_ok_def scheduled_def epochs_ok_def)

lemma parts_failed [simp]:
  "jobs_ok (s\<lparr>failed := f\<rparr>) = jobs_ok s" "idem_ok (s\<lparr>failed := f\<rparr>) = idem_ok s"
  "scheduled (s\<lparr>failed := f\<rparr>) = scheduled s" "epochs_ok (s\<lparr>failed := f\<rparr>) = epochs_ok s"
  by (simp_all add: jobs_ok_def idem_ok_def scheduled_def epochs_ok_def)

lemma parts_notify [simp]:
  "jobs_ok (s\<lparr>notifyCh := b\<rparr>) = jobs_ok s" "idem_ok (s\<lparr>notifyCh := b\<rparr>) = idem_ok s"
  "scheduled (s\<lparr>notifyCh := b\<rparr>) = scheduled s" "epochs_ok (s\<lparr>notifyCh := b\<rparr>) = epochs_ok s"
  by (simp_all add: jobs_ok_def idem_ok_def scheduled_def epochs_ok_def)

lemma parts_index [simp]:
  "jobs_ok (s\<lparr>index := i\<rparr>) = jobs_ok s" "idem_ok (s\<lparr>index := i\<rparr>) = idem_ok s"
  "epochs_ok (s\<lparr>index := i\<rparr>) = epochs_ok s"
  by (simp_all add: jobs_ok_def idem_ok_def epochs_ok_def)

lemma store_ok_frame [simp]:
  "store_ok (s\<lparr>log := w\<rparr>) = store_ok s" "store_ok (s\<lparr>lastLSN := l\<rparr>) = store_ok s"
  "store_ok (s\<lparr>failed := f\<rparr>) = store_ok s" "store_ok (s\<lparr>notifyCh := b\<rparr>) = store_ok s"
  by (simp_all only: store_ok_def parts_log parts_lastLSN parts_failed parts_notify)

lemma store_ok_ID: "store_ok s \<Longrightarrow> jobs s i = Some j \<Longrightarrow> ID j = i"
  by (auto simp: store_ok_def jobs_ok_def)

lemma store_ok_push:
  assumes "store_ok s"
  shows "store_ok (s\<lparr>index := index_push (index s) j now\<rparr>)"
proof -
  have "scheduled (s\<lparr>index := index_push (index s) j now\<rparr>)"
    using assms by (auto simp: store_ok_def scheduled_def index_ok_push filed_push) metis
  then show ?thesis using assms by (simp add: store_ok_def)
qed

text \<open>
  Replacing one job by another version of itself.  Unless the new version may run, or
  its current entry has been filed, the rest of the invariant is about other jobs.
\<close>

lemma store_ok_update:
  assumes ok: "store_ok s" and j: "jobs s i = Some j"
    and same: "ID j' = ID j" "Queue j' = Queue j" "IdempotencyKey j' = IdempotencyKey j"
    and ep: "Epoch j' < nextEpoch s"
    and filed: "Leasable (State j') \<Longrightarrow> entry_of j' \<in># filed (index s) (Queue j)"
    and L: "L = (if State j' = StateLeased then insert i (leased s) else leased s - {i})"
  shows "store_ok (s\<lparr>jobs := (jobs s)(i \<mapsto> j'), leased := L\<rparr>)"
proof -
  have id: "ID j = i" using store_ok_ID [OF ok j] .
  have "jobs_ok (s\<lparr>jobs := (jobs s)(i \<mapsto> j'), leased := L\<rparr>)"
    using ok j same(1) id L by (auto simp: store_ok_def jobs_ok_def)
  moreover have "idem_ok (s\<lparr>jobs := (jobs s)(i \<mapsto> j'), leased := L\<rparr>)"
    using ok j same by (auto simp: store_ok_def idem_ok_def) (metis option.inject)+
  moreover have "scheduled (s\<lparr>jobs := (jobs s)(i \<mapsto> j'), leased := L\<rparr>)"
    using ok j same(2) filed by (auto simp: store_ok_def scheduled_def)
  moreover have "epochs_ok (s\<lparr>jobs := (jobs s)(i \<mapsto> j'), leased := L\<rparr>)"
    using ok ep by (auto simp: store_ok_def epochs_ok_def)
  ultimately show ?thesis by (simp add: store_ok_def)
qed

text \<open>A new job: its identifier is not in use, and neither is its idempotency key.\<close>

lemma store_ok_insert:
  assumes ok: "store_ok s" and new: "jobs s (ID j) = None" and st: "State j = StatePending" "Epoch j < nextEpoch s"
    and key: "IdempotencyKey j \<noteq> [] \<Longrightarrow> idem s (idemKey (Queue j) (IdempotencyKey j)) = None"
    and filed: "entry_of j \<in># filed (index s) (Queue j)"
  shows "store_ok (s\<lparr>jobs := (jobs s)(ID j \<mapsto> j),
    idem := (if IdempotencyKey j \<noteq> [] then (idem s)(idemKey (Queue j) (IdempotencyKey j) \<mapsto> ID j) else idem s)\<rparr>)"
    (is "store_ok ?s")
proof -
  have "jobs_ok ?s" using ok new st by (auto simp: store_ok_def jobs_ok_def)
  moreover have "idem_ok ?s"
  proof -
    have a: "\<exists>k. jobs s i = Some k \<and> IdempotencyKey k \<noteq> [] \<and> x = idemKey (Queue k) (IdempotencyKey k)"
      if "idem s x = Some i" for x i
      using ok that by (auto simp: store_ok_def idem_ok_def)
    have b: "idem s (idemKey (Queue k) (IdempotencyKey k)) = Some i"
      if "jobs s i = Some k" "IdempotencyKey k \<noteq> []" for i k
      using ok that by (auto simp: store_ok_def idem_ok_def)
    have c: "i \<noteq> ID j" if "idem s x = Some i" for x i using a [OF that] new by auto
    have d: "IdempotencyKey k = []"
      if "jobs s i = Some k" "idemKey (Queue k) (IdempotencyKey k) = idemKey (Queue j) (IdempotencyKey j)"
        "IdempotencyKey j \<noteq> []" for i k
      using b [OF that(1)] key [OF that(3)] that(2) by auto
    show ?thesis using a b c d by (auto simp: idem_ok_def)
  qed
  moreover have "scheduled ?s" using ok filed by (auto simp: store_ok_def scheduled_def)
  moreover have "epochs_ok ?s" using ok st by (auto simp: store_ok_def epochs_ok_def)
  ultimately show ?thesis by (simp add: store_ok_def)
qed

section \<open>Submitting\<close>

definition submitted_job :: "SubmitParams \<Rightarrow> string \<Rightarrow> gotime \<Rightarrow> job" where
  "submitted_job p i now =
     \<lparr>ID = i, Queue = pQueue p, Handler = (if pHandler p = [] then ''shell'' else pHandler p),
      Payload = pPayload p, IdempotencyKey = pIdempotencyKey p, Priority = pPriority p,
      MaxRetries = max 0 (pMaxRetries p), Attempt = 0, State = StatePending, Epoch = 0,
      EnqueuedAt = now, EligibleAt = now + pDelay p, LeaseExpiresAt = 0, LeasedBy = [], LastError = []\<rparr>"

lemma Submit_locked_cases:
  assumes "Submit_locked p nano rnd now s os = (ph, s', os')"
  obtains (refused) r where "ph = Answer (Inl r)" "\<exists>w. s' = s\<lparr>log := w\<rparr>"
  | (duplicate) i where "ph = Answer (Inr (jobs s i, True))" "s' = s" "os' = os" "failed s = None"
      "idem s (idemKey (pQueue p) (pIdempotencyKey p)) = Some i" "pIdempotencyKey p \<noteq> []"
  | (accepted) i s1 where "TrimSpace (pQueue p) \<noteq> []" "NewID nano rnd = Some i"
      "pIdempotencyKey p \<noteq> [] \<Longrightarrow> idem s (idemKey (pQueue p) (pIdempotencyKey p)) = None"
      "recordLocked s os (zero_event\<lparr>evType := eventSubmit, evJob := Some (submitted_job p i now)\<rparr>) = (None, s1, os')"
      "ph = Flush (Some (submitted_job p i now), False)"
      "s' = s1\<lparr>index := index_push (index s1) (submitted_job p i now) now\<rparr>"
proof -
  have max: "(if pMaxRetries p < 0 then 0 else pMaxRetries p) = max 0 (pMaxRetries p)" by simp
  show thesis
  proof (cases "TrimSpace (pQueue p) = [] \<or> failed s \<noteq> None")
    case True
    then have "s' = s \<and> (\<exists>r. ph = Answer (Inl r))"
      using assms by (auto simp: Submit_locked_def Let_def split: if_splits)
    then show thesis using log_same [of s] refused by blast
  next
    case False
    define look where "look = (if pIdempotencyKey p \<noteq> [] then idem s (idemKey (pQueue p) (pIdempotencyKey p)) else None)"
    show thesis
    proof (cases look)
      case (Some i)
      then have k: "pIdempotencyKey p \<noteq> []" "idem s (idemKey (pQueue p) (pIdempotencyKey p)) = Some i"
        by (simp_all add: look_def split: if_splits)
      moreover have "ph = Answer (Inr (jobs s i, True))" "s' = s" "os' = os"
        using assms False k by (auto simp: Submit_locked_def)
      ultimately show thesis using False duplicate by blast
    next
      case None
      show thesis
      proof (cases "NewID nano rnd")
        case None
        then have "s' = s \<and> (\<exists>r. ph = Answer (Inl r))"
          using assms False \<open>look = None\<close>
          by (auto simp: Submit_locked_def look_def Let_def split: if_splits)
        then show thesis using log_same [of s] refused by blast
      next
        case (Some i)
        let ?e = "zero_event\<lparr>evType := eventSubmit, evJob := Some (submitted_job p i now)\<rparr>"
        obtain r s1 os1 where rec: "recordLocked s os ?e = (r, s1, os1)" by (rule prod_cases3)
        have sub: "Submit_locked p nano rnd now s os =
          (case r of Some x \<Rightarrow> (Answer (Inl x), s1, os1)
           | None \<Rightarrow> (Flush (Some (submitted_job p i now), False), s1\<lparr>index := index_push (index s1) (submitted_job p i now) now\<rparr>, os1))"
          using False \<open>look = None\<close> Some rec
          by (simp add: Submit_locked_def look_def submitted_job_def max Let_def split: option.split if_splits)
        show thesis
        proof (cases r)
          case None
          have "pIdempotencyKey p \<noteq> [] \<Longrightarrow> idem s (idemKey (pQueue p) (pIdempotencyKey p)) = None"
            using \<open>look = None\<close> by (simp add: look_def split: if_splits)
          moreover have "ph = Flush (Some (submitted_job p i now), False)" "os1 = os'"
            "s' = s1\<lparr>index := index_push (index s1) (submitted_job p i now) now\<rparr>"
            using assms sub None by simp_all
          ultimately show thesis using rec False Some None accepted [of i s1] by blast
        next
          case (Some x)
          then have "ph = Answer (Inl x)" "s' = s1" using assms sub by simp_all
          with Some rec recordLocked_error refused show thesis by blast
        qed
      qed
    qed
  qed
qed

text \<open>Submission keeps the invariant, provided the identifier it draws is not in use.\<close>

lemma Submit_locked_ok:
  assumes ok: "store_ok s" and sub: "Submit_locked p nano rnd now s os = (ph, s', os')"
    and fresh: "\<And>i. NewID nano rnd = Some i \<Longrightarrow> jobs s i = None" and pos: "0 < nextEpoch s"
  shows "store_ok s'"
  using sub
proof (cases rule: Submit_locked_cases)
  case (accepted i s1)
  let ?j = "submitted_job p i now"
  obtain w lsn t where t: "store_apply s (zero_event\<lparr>evType := eventSubmit, evJob := Some ?j\<rparr>) = Inr t"
    "s1 = t\<lparr>log := w, lastLSN := lsn\<rparr>"
    using accepted(4) by (rule recordLocked_done)
  let ?p = "s\<lparr>index := index_push (index s) ?j now\<rparr>"
  let ?i = "\<lambda>s. s\<lparr>jobs := (jobs s)(ID ?j \<mapsto> ?j),
    idem := (if IdempotencyKey ?j \<noteq> [] then (idem s)(idemKey (Queue ?j) (IdempotencyKey ?j) \<mapsto> ID ?j) else idem s)\<rparr>"
  have "t = ?i s" using t(1) by (auto simp: store_apply_def)
  then have s': "s' = (?i ?p)\<lparr>log := w, lastLSN := lsn\<rparr>" using t(2) accepted(6) by simp
  have "store_ok (?i ?p)"
    using ok fresh [OF accepted(2)] accepted(3) pos
    by (intro store_ok_insert store_ok_push) (auto simp: submitted_job_def filed_push)
  then show ?thesis by (simp only: s' store_ok_frame)
qed (use ok in auto)

section \<open>Acknowledging, failing, replaying\<close>

lemma apply_on_job:
  assumes "jobs s (evJobID e) = Some j"
  shows "evType e = eventLease \<Longrightarrow> store_apply s e =
      Inr (s\<lparr>jobs := (jobs s)(evJobID e \<mapsto> apply_lease e j), leased := insert (ID j) (leased s)\<rparr>)"
    and "evType e = eventAck \<Longrightarrow> store_apply s e =
      Inr (s\<lparr>jobs := (jobs s)(evJobID e \<mapsto> apply_ack j), leased := leased s - {ID j}\<rparr>)"
    and "evType e = eventFail \<Longrightarrow> store_apply s e =
      Inr (s\<lparr>jobs := (jobs s)(evJobID e \<mapsto> apply_fail e j), leased := leased s - {ID j}\<rparr>)"
    and "evType e = eventReplayJob \<Longrightarrow> store_apply s e =
      Inr (s\<lparr>jobs := (jobs s)(evJobID e \<mapsto> apply_replay e j), leased := leased s - {ID j}\<rparr>)"
  using assms by (simp_all add: store_apply_def)

lemma apply_job_simps [simp]:
  "ID (apply_lease e j) = ID j" "ID (apply_ack j) = ID j" "ID (apply_fail e j) = ID j" "ID (apply_replay e j) = ID j"
  "Queue (apply_lease e j) = Queue j" "Queue (apply_ack j) = Queue j" "Queue (apply_fail e j) = Queue j"
  "Queue (apply_replay e j) = Queue j" "IdempotencyKey (apply_lease e j) = IdempotencyKey j"
  "IdempotencyKey (apply_ack j) = IdempotencyKey j" "IdempotencyKey (apply_fail e j) = IdempotencyKey j"
  "IdempotencyKey (apply_replay e j) = IdempotencyKey j" "Epoch (apply_lease e j) = evEpoch e"
  "Epoch (apply_ack j) = Epoch j" "Epoch (apply_fail e j) = Epoch j" "Epoch (apply_replay e j) = Epoch j"
  "State (apply_lease e j) = StateLeased" "State (apply_ack j) = StateDone" "State (apply_fail e j) = evNextState e"
  "State (apply_replay e j) = StatePending" "Attempt (apply_lease e j) = evAttempt e"
  "Attempt (apply_ack j) = Attempt j" "Attempt (apply_fail e j) = evAttempt e" "Attempt (apply_replay e j) = 0"
  "EligibleAt (apply_fail e j) = evEligibleAt e" "EligibleAt (apply_replay e j) = evEligibleAt e"
  "MaxRetries (apply_lease e j) = MaxRetries j" "MaxRetries (apply_ack j) = MaxRetries j"
  "MaxRetries (apply_fail e j) = MaxRetries j" "MaxRetries (apply_replay e j) = MaxRetries j"
  "Priority (apply_lease e j) = Priority j" "Priority (apply_ack j) = Priority j"
  "Priority (apply_fail e j) = Priority j" "Priority (apply_replay e j) = Priority j"
  by (simp_all add: apply_lease_def apply_ack_def apply_fail_def apply_replay_def)

lemma store_ok_epoch: "store_ok s \<Longrightarrow> jobs s i = Some j \<Longrightarrow> Epoch j < nextEpoch s"
  by (auto simp: store_ok_def epochs_ok_def)

lemma store_ok_leased: "store_ok s \<Longrightarrow> i \<in> leased s \<longleftrightarrow> (\<exists>j. jobs s i = Some j \<and> State j = StateLeased)"
  by (auto simp: store_ok_def jobs_ok_def)

lemma Ack_locked_cases:
  assumes "Ack_locked i ep s os = (ph, s', os')"
  obtains (unknown) "jobs s i = None" "ph = Answer (Inl ErrJobNotFound)" "s' = s" "os' = os"
  | (fenced) j where "jobs s i = Some j" "\<not> holdsLease j ep" "ph = Answer (Inr False)" "s' = s" "os' = os"
  | (refused) j x w where "jobs s i = Some j" "holdsLease j ep" "ph = Answer (Inl x)" "s' = s\<lparr>log := w\<rparr>"
  | (fin) j where "jobs s i = Some j" "holdsLease j ep" "ph = Flush True"
      "recordLocked s os (zero_event\<lparr>evType := eventAck, evJobID := i, evEpoch := ep\<rparr>) = (None, s', os')"
proof (cases "jobs s i")
  case None
  then show thesis using assms by (intro unknown) (auto simp: Ack_locked_def)
next
  case (Some j)
  show thesis
  proof (cases "holdsLease j ep")
    case False
    then show thesis using assms Some by (intro fenced [of j]) (auto simp: Ack_locked_def)
  next
    case True
    obtain r s1 os1 where rec: "recordLocked s os (zero_event\<lparr>evType := eventAck, evJobID := i, evEpoch := ep\<rparr>) = (r, s1, os1)"
      by (rule prod_cases3)
    show thesis
    proof (cases r)
      case None
      have "ph = Flush True" "s' = s1" "os' = os1" using assms Some True rec None by (auto simp: Ack_locked_def)
      then show thesis using rec None Some True fin by blast
    next
      case (Some x)
      have "ph = Answer (Inl x)" "s' = s1" using assms \<open>jobs s i = Some j\<close> True rec Some by (auto simp: Ack_locked_def)
      moreover obtain w where "s1 = s\<lparr>log := w\<rparr>" using recordLocked_error rec Some by blast
      ultimately show thesis using \<open>jobs s i = Some j\<close> True refused by blast
    qed
  qed
qed

text \<open>Recording an acknowledgement.\<close>

lemma record_ack:
  assumes "recordLocked s os (zero_event\<lparr>evType := eventAck, evJobID := i, evEpoch := ep\<rparr>) = (None, s', os')"
    and "jobs s i = Some j"
  shows "\<exists>w lsn. s' = s\<lparr>jobs := (jobs s)(i \<mapsto> apply_ack j), leased := leased s - {ID j}, log := w, lastLSN := lsn\<rparr>"
proof -
  let ?e = "zero_event\<lparr>evType := eventAck, evJobID := i, evEpoch := ep\<rparr>"
  obtain w lsn t where t: "store_apply s ?e = Inr t" "s' = t\<lparr>log := w, lastLSN := lsn\<rparr>"
    using assms(1) by (rule recordLocked_done)
  have "t = s\<lparr>jobs := (jobs s)(i \<mapsto> apply_ack j), leased := leased s - {ID j}\<rparr>"
    using t(1) apply_on_job(2) [of s ?e j] assms(2) by simp
  with t(2) show ?thesis by blast
qed

lemma Ack_locked_ok:
  assumes ok: "store_ok s" and "Ack_locked i ep s os = (ph, s', os')"
  shows "store_ok s'"
  using assms(2)
proof (cases rule: Ack_locked_cases)
  case (fin j)
  obtain w lsn where s': "s' = s\<lparr>jobs := (jobs s)(i \<mapsto> apply_ack j), leased := leased s - {ID j}, log := w, lastLSN := lsn\<rparr>"
    using record_ack [OF fin(4,1)] by blast
  have "store_ok (s\<lparr>jobs := (jobs s)(i \<mapsto> apply_ack j), leased := leased s - {ID j}\<rparr>)"
    using store_ok_epoch [OF ok fin(1)] store_ok_ID [OF ok fin(1)]
    by (intro store_ok_update [OF ok fin(1)]) simp_all
  then show ?thesis by (simp only: s' store_ok_frame)
qed (use ok in auto)

definition fail_event :: "job \<Rightarrow> string \<Rightarrow> bool \<Rightarrow> gotime \<Rightarrow> nat \<Rightarrow> store \<Rightarrow> event" where
  "fail_event j reason timeout now r s =
     zero_event\<lparr>evType := eventFail, evJobID := ID j, evEpoch := Epoch j, evAttempt := Attempt j,
       evReason := reason, evNextState := (if Attempt j > MaxRetries j then StateDeadLetter else StateRetryWait),
       evEligibleAt := (if Attempt j > MaxRetries j then now
                        else now + Backoff (Attempt j) (backoffBase s) (backoffCap s) r),
       evTimeout := timeout\<rparr>"

lemma fail_event_simps [simp]:
  "evType (fail_event j reason timeout now r s) = eventFail"
  "evJobID (fail_event j reason timeout now r s) = ID j"
  "evAttempt (fail_event j reason timeout now r s) = Attempt j"
  "evReason (fail_event j reason timeout now r s) = reason"
  "evJob (fail_event j reason timeout now r s) = None"
  "evEpoch (fail_event j reason timeout now r s) = Epoch j"
  by (simp_all add: fail_event_def zero_event_def)

text \<open>The job a failed delivery leaves behind, and the store that holds it.\<close>

definition failed_job :: "job \<Rightarrow> string \<Rightarrow> bool \<Rightarrow> gotime \<Rightarrow> nat \<Rightarrow> store \<Rightarrow> job" where
  "failed_job j reason timeout now r s = apply_fail (fail_event j reason timeout now r s) j"

lemma failLocked_cases:
  assumes "failLocked j reason timeout now r s os = (res, s', os')" and j: "jobs s (ID j) = Some j"
  obtains (refused) x w where "res = Inl x" "s' = s\<lparr>log := w\<rparr>"
  | (fin) w lsn payload where "res = Inr (Attempt j > MaxRetries j)" "failed s = None"
      "encodeEvent (fail_event j reason timeout now r s) = Some payload"
      "wal_Append (log s) os payload = (Inr lsn, w, os')"
      "s' = s\<lparr>jobs := (jobs s)(ID j \<mapsto> failed_job j reason timeout now r s), leased := leased s - {ID j},
              index := (if Attempt j > MaxRetries j then index s
                        else index_push (index s) (failed_job j reason timeout now r s) now),
              log := w, lastLSN := lsn\<rparr>"
proof -
  let ?e = "fail_event j reason timeout now r s"
  obtain q s1 os1 where rec: "recordLocked s os ?e = (q, s1, os1)" by (rule prod_cases3)
  have fl: "failLocked j reason timeout now r s os =
      (case q of Some x \<Rightarrow> (Inl x, s1, os1)
       | None \<Rightarrow> (Inr (Attempt j > MaxRetries j),
           if Attempt j > MaxRetries j then s1 else s1\<lparr>index := index_push (index s1) (apply_fail ?e j) now\<rparr>, os1))"
    using rec by (simp add: failLocked_def Let_def fail_event_def split: option.split)
  show thesis
  proof (cases q)
    case (Some x)
    have "res = Inl x" "s' = s1" using assms(1) fl Some by auto
    moreover obtain w where "s1 = s\<lparr>log := w\<rparr>" using recordLocked_error rec Some by blast
    ultimately show thesis using refused by blast
  next
    case None
    obtain payload w lsn t where t: "failed s = None" "encodeEvent ?e = Some payload"
      "wal_Append (log s) os payload = (Inr lsn, w, os1)" "store_apply s ?e = Inr t" "s1 = t\<lparr>log := w, lastLSN := lsn\<rparr>"
      using rec None recordLocked_done [of s os ?e s1 os1] by blast
    have t': "t = s\<lparr>jobs := (jobs s)(ID j \<mapsto> apply_fail ?e j), leased := leased s - {ID j}\<rparr>"
      using t(4) apply_on_job(3) [of s ?e j] j by simp
    have r: "res = Inr (Attempt j > MaxRetries j)" "os' = os1"
      and s': "s' = (if Attempt j > MaxRetries j then s1 else s1\<lparr>index := index_push (index s1) (apply_fail ?e j) now\<rparr>)"
      using assms(1) fl None by simp_all
    have "s' = s\<lparr>jobs := (jobs s)(ID j \<mapsto> failed_job j reason timeout now r s), leased := leased s - {ID j},
              index := (if Attempt j > MaxRetries j then index s
                        else index_push (index s) (failed_job j reason timeout now r s) now),
              log := w, lastLSN := lsn\<rparr>"
      using s' t(5) t' by (simp add: failed_job_def)
    then show thesis using r t by (intro fin) simp_all
  qed
qed

lemma failLocked_ok:
  assumes ok: "store_ok s" and "failLocked j reason timeout now r s os = (res, s', os')"
    and j: "jobs s (ID j) = Some j"
  shows "store_ok s'"
  using assms(2,3)
proof (cases rule: failLocked_cases)
  case (fin w lsn)
  let ?f = "failed_job j reason timeout now r s"
  let ?i = "if Attempt j > MaxRetries j then index s else index_push (index s) ?f now"
  have okp: "store_ok (s\<lparr>index := ?i\<rparr>)" using ok store_ok_push [OF ok, of ?f now] by auto
  have st: "State ?f = (if Attempt j > MaxRetries j then StateDeadLetter else StateRetryWait)"
    by (simp add: failed_job_def fail_event_def)
  have "store_ok ((s\<lparr>index := ?i\<rparr>)\<lparr>jobs := (jobs (s\<lparr>index := ?i\<rparr>))(ID j \<mapsto> ?f), leased := leased s - {ID j}\<rparr>)"
    using okp j store_ok_epoch [OF ok j] st
    by (intro store_ok_update [where j = j]) (auto simp: failed_job_def filed_push)
  moreover have "(s\<lparr>index := ?i\<rparr>)\<lparr>jobs := (jobs (s\<lparr>index := ?i\<rparr>))(ID j \<mapsto> ?f), leased := leased s - {ID j}\<rparr> =
      s\<lparr>jobs := (jobs s)(ID j \<mapsto> ?f), leased := leased s - {ID j}, index := ?i\<rparr>"
    by simp
  ultimately have "store_ok (s\<lparr>jobs := (jobs s)(ID j \<mapsto> ?f), leased := leased s - {ID j}, index := ?i\<rparr>)"
    by (rule back_subst)
  then show ?thesis by (simp only: fin store_ok_frame)
qed (use ok in auto)

end
