(* ===== verification/Cv_Memory.thy ===== *)
theory Cv_Memory
  imports Cv_Store_Inv
begin

text \<open>
  What the log of events denotes.  A \<open>memory\<close> is the part of the store that recovery
  rebuilds; \<open>mem_apply\<close> is the specification of \<^verbatim>\<open>apply\<close> on it, and \<open>store_apply_refines\<close>
  says that the code implements it.  \<open>history m0 es m\<close>: the events \<open>es\<close>, each valid where
  it stands, lead from the memory \<open>m0\<close> (empty, or a snapshot) to \<open>m\<close>.  \<open>sim m s\<close> relates that memory to the live
  store, which may have moved on in two ways the log does not see: heartbeats, and jobs
  taken back from workers by a restart.
\<close>

section \<open>The specification of apply\<close>

record memory =
  mjobs :: "string \<rightharpoonup> job"
  midem :: "string \<rightharpoonup> string"
  mreserved :: u64

definition mem_of :: "store \<Rightarrow> memory" where
  "mem_of s = \<lparr>mjobs = jobs s, midem = idem s, mreserved = epochReservedUpTo s\<rparr>"

definition empty_memory :: memory where
  "empty_memory = \<lparr>mjobs = Map.empty, midem = Map.empty, mreserved = 0\<rparr>"

definition job_event :: "event \<Rightarrow> (job \<Rightarrow> job) option" where
  "job_event e =
     map_of [(eventLease, apply_lease e), (eventAck, apply_ack), (eventFail, apply_fail e), (eventReplayJob, apply_replay e)]
       (evType e)"

definition add_job :: "job \<Rightarrow> memory \<Rightarrow> memory" where
  "add_job j m =
     m\<lparr>mjobs := (mjobs m)(ID j \<mapsto> j),
       midem := (if IdempotencyKey j \<noteq> []
                 then (midem m)(idemKey (Queue j) (IdempotencyKey j) \<mapsto> ID j) else midem m)\<rparr>"

definition mem_apply :: "event \<Rightarrow> memory \<Rightarrow> memory option" where
  "mem_apply e m =
     (if evType e = eventSubmit then map_option (\<lambda>j. add_job j m) (evJob e)
      else if evType e = eventEpochReserve then Some (m\<lparr>mreserved := evReservedUpTo e\<rparr>)
      else case (job_event e, mjobs m (evJobID e)) of
          (Some f, Some j) \<Rightarrow> Some (m\<lparr>mjobs := (mjobs m)(evJobID e \<mapsto> f j)\<rparr>)
        | _ \<Rightarrow> None)"

lemma store_apply_refines:
  "mem_apply e (mem_of s) = (case store_apply s e of Inl x \<Rightarrow> None | Inr s' \<Rightarrow> Some (mem_of s'))"
  by (simp add: mem_apply_def store_apply_def job_event_def mem_of_def add_job_def split: option.split)

lemma mem_of_frame [simp]:
  "mem_of (s\<lparr>log := w\<rparr>) = mem_of s" "mem_of (s\<lparr>lastLSN := l\<rparr>) = mem_of s" "mem_of (s\<lparr>index := i\<rparr>) = mem_of s"
  "mem_of (s\<lparr>leased := L\<rparr>) = mem_of s" "mem_of (s\<lparr>nextEpoch := n\<rparr>) = mem_of s"
  "mem_of (s\<lparr>failed := f\<rparr>) = mem_of s" "mem_of (s\<lparr>notifyCh := b\<rparr>) = mem_of s"
  by (simp_all add: mem_of_def)

section \<open>Valid events\<close>

definition valid_submit :: "memory \<Rightarrow> job \<Rightarrow> bool" where
  "valid_submit m j \<longleftrightarrow>
     mjobs m (ID j) = None \<and> State j = StatePending \<and> Epoch j = 0 \<and>
     (IdempotencyKey j \<noteq> [] \<longrightarrow> midem m (idemKey (Queue j) (IdempotencyKey j)) = None)"

definition valid_change :: "memory \<Rightarrow> event \<Rightarrow> job \<Rightarrow> bool" where
  "valid_change m e j \<longleftrightarrow>
     (if evType e = eventLease then Leasable (State j) \<or> State j = StateLeased
      else if evType e = eventReplayJob then State j = StateDeadLetter
      else State j = StateLeased) \<and>
     (evType e = eventLease \<longrightarrow> Epoch j < evEpoch e \<and> evEpoch e \<le> mreserved m) \<and>
     (evType e = eventAck \<longrightarrow> evEpoch e = Epoch j) \<and>
     (evType e = eventFail \<longrightarrow> evAttempt e = Attempt j \<and> evNextState e \<in> {StateRetryWait, StateDeadLetter})"

definition valid_event :: "memory \<Rightarrow> event \<Rightarrow> bool" where
  "valid_event m e \<longleftrightarrow>
     (if evType e = eventSubmit then (case evJob e of None \<Rightarrow> False | Some j \<Rightarrow> valid_submit m j)
      else if evType e = eventEpochReserve then mreserved m \<le> evReservedUpTo e
      else job_event e \<noteq> None \<and> (case mjobs m (evJobID e) of None \<Rightarrow> False | Some j \<Rightarrow> valid_change m e j))"

inductive history :: "memory \<Rightarrow> event list \<Rightarrow> memory \<Rightarrow> bool" for m0 where
  start: "history m0 [] m0"
| step: "history m0 es m \<Longrightarrow> valid_event m e \<Longrightarrow> mem_apply e m = Some m' \<Longrightarrow> history m0 (es @ [e]) m'"

inductive_cases history_snocE: "history m0 (es @ [e]) m"

lemma history_unique: "history m0 es m \<Longrightarrow> history m0 es m' \<Longrightarrow> m = m'"
proof (induction arbitrary: m' rule: history.induct)
  case start
  then show ?case by (auto elim: history.cases)
next
  case (step es m e m1)
  from step.prems obtain m2 where "history m0 es m2" "mem_apply e m2 = Some m'"
    by (cases rule: history.cases) auto
  with step show ?case by auto
qed

lemma history_prefix: "history m0 (es @ fs) m \<Longrightarrow> \<exists>m1. history m0 es m1"
proof (induction fs arbitrary: m rule: rev_induct)
  case (snoc f fs)
  then show ?case by (metis append_assoc history_snocE append_eq_append_conv_if)
qed auto

lemma history_take: "history m0 es m \<Longrightarrow> \<exists>m1. history m0 (take n es) m1"
  using history_prefix [of m0 "take n es" "drop n es"] by simp

text \<open>What every valid event keeps, a longer history keeps.\<close>

lemma history_stable:
  assumes stable: "\<And>m e m'. P m \<Longrightarrow> valid_event m e \<Longrightarrow> mem_apply e m = Some m' \<Longrightarrow> P m'"
    and "history m0 es m1" and "P m1" and "history m0 (es @ fs) m"
  shows "P m"
  using assms(4)
proof (induction fs arbitrary: m rule: rev_induct)
  case Nil
  then show ?case using assms(2,3) history_unique by auto
next
  case (snoc f fs)
  then obtain m1 where "history m0 (es @ fs) m1" "valid_event m1 f" "mem_apply f m1 = Some m"
    by (metis append_assoc history_snocE)
  with snoc.IH stable show ?case by blast
qed

text \<open>The three shapes of a valid event.\<close>

lemma valid_event_cases:
  assumes "valid_event m e" and "mem_apply e m = Some m'"
  obtains (submit) j where "evType e = eventSubmit" "evJob e = Some j" "valid_submit m j" "m' = add_job j m"
  | (reserve) "evType e = eventEpochReserve" "mreserved m \<le> evReservedUpTo e" "m' = m\<lparr>mreserved := evReservedUpTo e\<rparr>"
  | (change) f j where "job_event e = Some f" "mjobs m (evJobID e) = Some j" "valid_change m e j"
      "m' = m\<lparr>mjobs := (mjobs m)(evJobID e \<mapsto> f j)\<rparr>"
  using assms that by (auto simp: valid_event_def mem_apply_def split: if_splits option.splits)

lemma job_event_cases:
  assumes "job_event e = Some f"
  obtains "evType e = eventLease" "f = apply_lease e" | "evType e = eventAck" "f = apply_ack"
  | "evType e = eventFail" "f = apply_fail e" | "evType e = eventReplayJob" "f = apply_replay e"
  using assms by (auto simp: job_event_def split: if_splits)

text \<open>The fields of a job that are settled when it is submitted.\<close>

definition same_spec :: "job \<Rightarrow> job \<Rightarrow> bool" where
  "same_spec j k \<longleftrightarrow>
     ID j = ID k \<and> Queue j = Queue k \<and> Handler j = Handler k \<and> Payload j = Payload k \<and>
     IdempotencyKey j = IdempotencyKey k \<and> Priority j = Priority k \<and> MaxRetries j = MaxRetries k \<and>
     EnqueuedAt j = EnqueuedAt k"

lemma same_spec_refl [simp]: "same_spec j j"
  by (simp add: same_spec_def)

lemma same_spec_trans: "same_spec i j \<Longrightarrow> same_spec j k \<Longrightarrow> same_spec i k"
  by (simp add: same_spec_def)

lemma same_spec_sym: "same_spec i j \<Longrightarrow> same_spec j i"
  by (simp add: same_spec_def)

lemma same_spec_apply [simp]:
  "same_spec j (apply_lease e j)" "same_spec j (apply_ack j)" "same_spec j (apply_fail e j)" "same_spec j (apply_replay e j)"
  by (simp_all add: same_spec_def apply_lease_def apply_ack_def apply_fail_def apply_replay_def)

lemma job_event_spec: "job_event e = Some f \<Longrightarrow> same_spec j (f j)"
  by (erule job_event_cases) simp_all

text \<open>A valid event keeps every job, with its settled fields, and keeps a done job as it is.\<close>

lemma valid_event_keeps_job:
  assumes "valid_event m e" and "mem_apply e m = Some m'" and j: "mjobs m i = Some j"
  shows "\<exists>j'. mjobs m' i = Some j' \<and> same_spec j j'"
  using assms(1,2)
proof (cases rule: valid_event_cases)
  case (submit k)
  then show ?thesis using j by (auto simp: add_job_def valid_submit_def)
next
  case (change f k)
  then show ?thesis using j job_event_spec [OF change(1), of j] by auto
qed (use j in auto)

lemma valid_event_keeps_done:
  assumes "valid_event m e" and "mem_apply e m = Some m'" and j: "mjobs m i = Some j" "State j = StateDone"
  shows "mjobs m' i = Some j"
  using assms(1,2)
proof (cases rule: valid_event_cases)
  case (submit k)
  then show ?thesis using j by (auto simp: add_job_def valid_submit_def)
next
  case (change f k)
  then show ?thesis using j by (auto simp: valid_change_def split: if_splits)
qed (use j in auto)

lemma valid_event_reserved:
  assumes "valid_event m e" and "mem_apply e m = Some m'"
  shows "mreserved m \<le> mreserved m'"
  using assms by (cases rule: valid_event_cases) (auto simp: add_job_def)

section \<open>The memory is well formed\<close>

definition mem_ok :: "memory \<Rightarrow> bool" where
  "mem_ok m \<longleftrightarrow>
     (\<forall>i j. mjobs m i = Some j \<longrightarrow> ID j = i \<and> Epoch j \<le> mreserved m) \<and> finite (dom (mjobs m)) \<and>
     (\<forall>k i. midem m k = Some i \<longrightarrow>
        (\<exists>j. mjobs m i = Some j \<and> IdempotencyKey j \<noteq> [] \<and> k = idemKey (Queue j) (IdempotencyKey j))) \<and>
     (\<forall>i j. mjobs m i = Some j \<and> IdempotencyKey j \<noteq> [] \<longrightarrow> midem m (idemKey (Queue j) (IdempotencyKey j)) = Some i)"

lemma mem_ok_add_job:
  assumes ok: "mem_ok m" and v: "valid_submit m j"
  shows "mem_ok (add_job j m)"
proof -
  have a: "\<exists>k. mjobs m i = Some k \<and> IdempotencyKey k \<noteq> [] \<and> x = idemKey (Queue k) (IdempotencyKey k)"
    if "midem m x = Some i" for x i
    using ok that by (auto simp: mem_ok_def)
  have b: "midem m (idemKey (Queue k) (IdempotencyKey k)) = Some i"
    if "mjobs m i = Some k" "IdempotencyKey k \<noteq> []" for i k
    using ok that by (auto simp: mem_ok_def)
  have c: "i \<noteq> ID j" if "midem m x = Some i" for x i using a [OF that] v by (auto simp: valid_submit_def)
  have d: "IdempotencyKey k = []"
    if "mjobs m i = Some k" "idemKey (Queue k) (IdempotencyKey k) = idemKey (Queue j) (IdempotencyKey j)"
      "IdempotencyKey j \<noteq> []" for i k
    using b [OF that(1)] v that(2,3) by (auto simp: valid_submit_def)
  have "ID k = i \<and> Epoch k \<le> mreserved m" if "mjobs m i = Some k" for i k
    using ok that by (auto simp: mem_ok_def)
  then show ?thesis
    using ok v a b c d by (auto simp: mem_ok_def add_job_def valid_submit_def)
qed

lemma mem_ok_change:
  assumes ok: "mem_ok m" and j: "mjobs m i = Some j" and sp: "same_spec j j'" and ep: "Epoch j' \<le> mreserved m"
  shows "mem_ok (m\<lparr>mjobs := (mjobs m)(i \<mapsto> j')\<rparr>)"
  using assms by (auto simp: mem_ok_def same_spec_def) (metis option.inject)+

lemma mem_ok_apply:
  assumes ok: "mem_ok m" and "valid_event m e" and "mem_apply e m = Some m'"
  shows "mem_ok m'"
  using assms(2,3)
proof (cases rule: valid_event_cases)
  case (submit j)
  then show ?thesis using mem_ok_add_job [OF ok] by simp
next
  case reserve
  then show ?thesis using ok by (auto simp: mem_ok_def) (meson order_trans)
next
  case (change f j)
  have ep: "Epoch j \<le> mreserved m" using ok change(2) by (auto simp: mem_ok_def)
  have "Epoch (f j) \<le> mreserved m"
    using change(1) by (cases rule: job_event_cases) (use ep change(3) in \<open>auto simp: valid_change_def\<close>)
  then show ?thesis using mem_ok_change [OF ok change(2) job_event_spec [OF change(1)]] change(4) by simp
qed

lemma mem_ok_empty: "mem_ok empty_memory"
  by (simp add: mem_ok_def empty_memory_def)

lemma history_mem_ok: "history m0 es m \<Longrightarrow> mem_ok m0 \<Longrightarrow> mem_ok m"
  by (induction rule: history.induct) (auto simp: mem_ok_apply)

lemmas event_types_distinct_sym [simp] = event_types_distinct [symmetric]

section \<open>The live store\<close>

text \<open>
  \<open>job_sim k j\<close>: the log says \<open>k\<close>, the store holds \<open>j\<close>.  A job that is neither leased
  nor done is exactly what the log says.
\<close>

definition job_sim :: "job \<Rightarrow> job \<Rightarrow> bool" where
  "job_sim k j \<longleftrightarrow>
     same_spec k j \<and> Attempt k = Attempt j \<and> Epoch k = Epoch j \<and>
     (if State k = StateLeased then State j \<in> {StateLeased, StateRetryWait}
      else if State k = StateDone then State j = StateDone else j = k)"

lemma job_sim_refl [simp]: "job_sim j j"
  by (simp add: job_sim_def)

definition sim :: "memory \<Rightarrow> store \<Rightarrow> bool" where
  "sim m s \<longleftrightarrow>
     dom (mjobs m) = dom (jobs s) \<and>
     (\<forall>i k j. mjobs m i = Some k \<longrightarrow> jobs s i = Some j \<longrightarrow> job_sim k j) \<and>
     midem m = idem s \<and> mreserved m = epochReservedUpTo s"

lemma sim_frame [simp]:
  "sim m (s\<lparr>log := w\<rparr>) = sim m s" "sim m (s\<lparr>lastLSN := l\<rparr>) = sim m s" "sim m (s\<lparr>index := i\<rparr>) = sim m s"
  "sim m (s\<lparr>leased := L\<rparr>) = sim m s" "sim m (s\<lparr>nextEpoch := n\<rparr>) = sim m s"
  "sim m (s\<lparr>failed := f\<rparr>) = sim m s" "sim m (s\<lparr>notifyCh := b\<rparr>) = sim m s"
  by (simp_all add: sim_def)

lemma sim_live:
  assumes "sim m s" and "jobs s i = Some j"
  obtains k where "mjobs m i = Some k" "job_sim k j"
proof -
  have "i \<in> dom (mjobs m)" using assms by (auto simp: sim_def)
  then show thesis using assms that unfolding sim_def by blast
qed

lemma sim_logged:
  assumes "sim m s" and "mjobs m i = Some k"
  obtains j where "jobs s i = Some j" "job_sim k j"
proof -
  have "i \<in> dom (jobs s)" using assms by (auto simp: sim_def)
  then show thesis using assms that unfolding sim_def by blast
qed

lemma sim_update:
  assumes "sim m s" and "jobs s i = Some j" and "mjobs m i = Some k" and "job_sim k' j'"
  shows "sim (m\<lparr>mjobs := (mjobs m)(i \<mapsto> k')\<rparr>) (s\<lparr>jobs := (jobs s)(i \<mapsto> j')\<rparr>)"
  using assms by (auto simp: sim_def)

lemma job_sim_leased: "job_sim k j \<Longrightarrow> State j = StateLeased \<Longrightarrow> State k = StateLeased"
  by (auto simp: job_sim_def split: if_splits)

lemma job_sim_leasable: "job_sim k j \<Longrightarrow> Leasable (State j) \<Longrightarrow> Leasable (State k) \<or> State k = StateLeased"
  by (auto simp: job_sim_def split: if_splits)

lemma job_sim_dead: "job_sim k j \<Longrightarrow> State j = StateDeadLetter \<Longrightarrow> k = j"
  by (auto simp: job_sim_def split: if_splits)

lemma job_sim_apply:
  assumes "job_sim k j"
  shows "job_sim (apply_lease e k) (apply_lease e j)" and "job_sim (apply_ack k) (apply_ack j)"
    and "evNextState e \<in> {StateRetryWait, StateDeadLetter} \<Longrightarrow> job_sim (apply_fail e k) (apply_fail e j)"
    and "job_sim (apply_replay e k) (apply_replay e j)"
proof -
  have sp: "same_spec k j" "Attempt k = Attempt j" "Epoch k = Epoch j" using assms by (auto simp: job_sim_def)
  then have "apply_fail e k = apply_fail e j" "apply_replay e k = apply_replay e j"
    by (cases k; cases j; simp add: same_spec_def apply_fail_def apply_replay_def)+
  then show "evNextState e \<in> {StateRetryWait, StateDeadLetter} \<Longrightarrow> job_sim (apply_fail e k) (apply_fail e j)"
    and "job_sim (apply_replay e k) (apply_replay e j)"
    by (auto simp: job_sim_def)
  show "job_sim (apply_lease e k) (apply_lease e j)" "job_sim (apply_ack k) (apply_ack j)"
    using sp by (auto simp: job_sim_def same_spec_def apply_lease_def apply_ack_def)
qed

text \<open>A heartbeat, and a restart, change what the log does not say.\<close>

lemma job_sim_both_leased:
  "State k = StateLeased \<Longrightarrow> State j = StateLeased \<Longrightarrow>
     job_sim k j \<longleftrightarrow> same_spec k j \<and> Attempt k = Attempt j \<and> Epoch k = Epoch j"
  by (simp add: job_sim_def)

lemma job_sim_heartbeat:
  assumes "job_sim k j" and "State j = StateLeased"
  shows "job_sim k (j\<lparr>LeaseExpiresAt := t\<rparr>)"
proof -
  have "State k = StateLeased" using job_sim_leased [OF assms] .
  then show ?thesis using assms by (simp add: job_sim_both_leased same_spec_def)
qed

lemma sim_apply:
  assumes sim: "sim m s" and ap: "store_apply s e = Inr s'" and v: "valid_event m e"
  shows "\<exists>m'. mem_apply e m = Some m' \<and> sim m' s'"
proof -
  obtain m' where m': "mem_apply e m = Some m'"
    using v by (auto simp: mem_apply_def valid_event_def split: if_splits option.splits)
  from v m' have "sim m' s'"
  proof (cases rule: valid_event_cases)
    case (submit j)
    have "s' = s\<lparr>jobs := (jobs s)(ID j \<mapsto> j),
        idem := (if IdempotencyKey j \<noteq> [] then (idem s)(idemKey (Queue j) (IdempotencyKey j) \<mapsto> ID j) else idem s)\<rparr>"
      using ap submit by (auto simp: store_apply_def)
    then show ?thesis using sim submit(3,4) by (auto simp: sim_def add_job_def valid_submit_def)
  next
    case reserve
    then have "s' = s\<lparr>epochReservedUpTo := evReservedUpTo e\<rparr>" using ap by (simp add: store_apply_def)
    then show ?thesis using sim reserve(3) by (simp add: sim_def)
  next
    case (change f k)
    obtain j where j: "jobs s (evJobID e) = Some j" "job_sim k j" using sim_logged [OF sim change(2)] by blast
    have "\<exists>g L. s' = s\<lparr>jobs := (jobs s)(evJobID e \<mapsto> g), leased := L\<rparr> \<and> job_sim (f k) g"
      using change(1)
    proof (cases rule: job_event_cases)
      case 1
      then show ?thesis using ap apply_on_job(1) [OF j(1)] job_sim_apply(1) [OF j(2)] by auto
    next
      case 2
      then show ?thesis using ap apply_on_job(2) [OF j(1)] job_sim_apply(2) [OF j(2)] by auto
    next
      case 3
      then have "evNextState e \<in> {StateRetryWait, StateDeadLetter}" using change(3) by (simp add: valid_change_def)
      then show ?thesis using 3 ap apply_on_job(3) [OF j(1)] job_sim_apply(3) [OF j(2)] by auto
    next
      case 4
      then show ?thesis using ap apply_on_job(4) [OF j(1)] job_sim_apply(4) [OF j(2)] by auto
    qed
    then obtain g L where "s' = s\<lparr>jobs := (jobs s)(evJobID e \<mapsto> g), leased := L\<rparr>" "job_sim (f k) g" by blast
    then show ?thesis using sim_update [OF sim j(1) change(2)] change(4) by simp
  qed
  with m' show ?thesis by blast
qed

end
