(* ===== verification/Cv_Store_Steps.thy ===== *)
theory Cv_Store_Steps
  imports Cv_Store_Inv
begin

text \<open>
  The remaining operations keep the invariant of \<open>Cv_Store_Inv\<close>, and with them every
  interleaving of the store's critical sections, as the step relation \<open>store_step\<close>.
\<close>

section \<open>Nack, heartbeat, reclaim, replay\<close>

lemma Nack_locked_cases:
  assumes "Nack_locked i ep reason now r s os = (ph, s', os')"
  obtains (unknown) "jobs s i = None" "ph = Answer (Inl ErrJobNotFound)" "s' = s" "os' = os"
  | (fenced) j where "jobs s i = Some j" "\<not> holdsLease j ep" "ph = Answer (Inr (False, False))" "s' = s" "os' = os"
  | (held) j res where "jobs s i = Some j" "holdsLease j ep"
      "failLocked j (if reason = [] then ''handler reported failure'' else reason) False now r s os = (res, s', os')"
      "ph = (case res of Inl x \<Rightarrow> Answer (Inl x) | Inr dead \<Rightarrow> Flush (True, dead))"
proof (cases "jobs s i")
  case None
  then show thesis using assms by (intro unknown) (auto simp: Nack_locked_def)
next
  case (Some j)
  show thesis
  proof (cases "holdsLease j ep")
    case False
    then show thesis using assms Some by (intro fenced [of j]) (auto simp: Nack_locked_def)
  next
    case True
    obtain res s1 os1 where fl:
      "failLocked j (if reason = [] then ''handler reported failure'' else reason) False now r s os = (res, s1, os1)"
      by (rule prod_cases3)
    have "ph = (case res of Inl x \<Rightarrow> Answer (Inl x) | Inr dead \<Rightarrow> Flush (True, dead)) \<and> s1 = s' \<and> os1 = os'"
      using assms Some True fl by (cases res) (simp_all add: Nack_locked_def Let_def)
    with fl Some True held show thesis by blast
  qed
qed

lemma Nack_locked_ok:
  assumes ok: "store_ok s" and "Nack_locked i ep reason now r s os = (ph, s', os')"
  shows "store_ok s'"
  using assms(2)
proof (cases rule: Nack_locked_cases)
  case (held j res)
  then show ?thesis using failLocked_ok [OF ok held(3)] store_ok_ID [OF ok held(1)] by simp
qed (use ok in simp_all)

lemma Heartbeat_ok:
  assumes ok: "store_ok s" and hb: "Heartbeat i ep dur now s = (res, s')"
  shows "store_ok s'"
proof (cases "\<exists>j. jobs s i = Some j \<and> holdsLease j ep")
  case False
  then have "s' = s" using hb by (auto simp: Heartbeat_def split: option.splits if_splits)
  then show ?thesis using ok by simp
next
  case True
  then obtain j where j: "jobs s i = Some j" "holdsLease j ep" by blast
  let ?j = "j\<lparr>LeaseExpiresAt := now + dur\<rparr>"
  have lease: "i \<in> leased s" using j store_ok_leased [OF ok] by (auto simp: holdsLease_def)
  have s': "s' = s\<lparr>jobs := (jobs s)(i \<mapsto> ?j), leased := insert i (leased s)\<rparr>"
    using hb j lease by (auto simp: Heartbeat_def insert_absorb)
  show ?thesis unfolding s'
    by (rule store_ok_update [OF ok j(1)]) (use j(2) store_ok_epoch [OF ok j(1)] in \<open>auto simp: holdsLease_def\<close>)
qed

lemma leased_drop:
  assumes "store_ok s" and "\<nexists>j. jobs s i = Some j \<and> State j = StateLeased"
  shows "s\<lparr>leased := leased s - {i}\<rparr> = s"
proof -
  have "i \<notin> leased s" using store_ok_leased [OF assms(1)] assms(2) by blast
  then show ?thesis by simp
qed

text \<open>
  The sweep, one id at a time: either nothing happens to the store, or the job's lease
  has run out and the job goes through \<^verbatim>\<open>failLocked\<close>.
\<close>

lemma reclaim_loop_Cons:
  assumes "store_ok s"
  shows "reclaim_loop draw now (i # ids) acc s os =
    (if \<exists>j. jobs s i = Some j \<and> State j = StateLeased \<and> LeaseExpiresAt j \<le> now
     then (case failLocked (the (jobs s i)) ''lease expired'' True now (draw i) s os of
             (Inl x, s1, os1) \<Rightarrow> (Some x, acc, s1, os1)
           | (Inr dead, s1, os1) \<Rightarrow> reclaim_loop draw now ids (acc @ [i]) s1 os1)
     else reclaim_loop draw now ids acc s os)"
proof (cases "jobs s i")
  case None
  then show ?thesis using leased_drop [OF assms, of i] by simp
next
  case (Some j)
  then show ?thesis using leased_drop [OF assms, of i] by (cases "State j = StateLeased") auto
qed

declare reclaim_loop.simps(2) [simp del]

text \<open>So a transitive relation that holds across each reclaim holds across the sweep.\<close>

lemma reclaim_loop_rule:
  assumes "store_ok s" and "reclaim_loop draw now ids acc s os = (res, acc', s', os')"
    and refl: "\<And>s os. R s os s os"
    and trans: "\<And>s os s1 os1 s2 os2. R s os s1 os1 \<Longrightarrow> R s1 os1 s2 os2 \<Longrightarrow> R s os s2 os2"
    and step: "\<And>s os j i q s1 os1. store_ok s \<Longrightarrow> jobs s (ID j) = Some j \<Longrightarrow> State j = StateLeased \<Longrightarrow>
      LeaseExpiresAt j \<le> now \<Longrightarrow> failLocked j ''lease expired'' True now (draw i) s os = (q, s1, os1) \<Longrightarrow>
      (res = None \<Longrightarrow> \<exists>dead. q = Inr dead) \<Longrightarrow> R s os s1 os1"
  shows "R s os s' os'"
  using assms(1,2)
proof (induction ids arbitrary: acc s os)
  case Nil
  then show ?case using refl by simp
next
  case (Cons i ids)
  note ok = Cons.prems(1)
  show ?case
  proof (cases "\<exists>j. jobs s i = Some j \<and> State j = StateLeased \<and> LeaseExpiresAt j \<le> now")
    case False
    then have "reclaim_loop draw now (i # ids) acc s os = reclaim_loop draw now ids acc s os"
      by (simp only: reclaim_loop_Cons [OF ok] if_False)
    with Cons show ?thesis by metis
  next
    case True
    then obtain j where j: "jobs s i = Some j" "State j = StateLeased" "LeaseExpiresAt j \<le> now" by blast
    obtain q s1 os1 where fl: "failLocked j ''lease expired'' True now (draw i) s os = (q, s1, os1)"
      by (rule prod_cases3)
    have id: "jobs s (ID j) = Some j" using store_ok_ID [OF ok j(1)] j(1) by simp
    have loop: "reclaim_loop draw now (i # ids) acc s os =
        (case q of Inl x \<Rightarrow> (Some x, acc, s1, os1) | Inr dead \<Rightarrow> reclaim_loop draw now ids (acc @ [i]) s1 os1)"
      using True j fl by (simp add: reclaim_loop_Cons [OF ok] split: sum.split)
    then have R: "R s os s1 os1"
      using Cons.prems(2) by (intro step [OF ok id j(2,3) fl]) (auto split: sum.splits)
    show ?thesis
    proof (cases q)
      case (Inl x)
      then show ?thesis using loop Cons.prems(2) R by simp
    next
      case (Inr dead)
      then show ?thesis using loop Cons.prems(2) Cons.IH [OF failLocked_ok [OF ok fl id]] trans [OF R] by simp
    qed
  qed
qed

lemma reclaim_loop_ok:
  assumes "store_ok s" and "reclaim_loop draw now ids acc s os = (res, acc', s', os')"
  shows "store_ok s'"
  using reclaim_loop_rule [OF assms, where R = "\<lambda>s os s' os'. store_ok s \<longrightarrow> store_ok s'"] failLocked_ok assms(1)
  by blast

lemma ReplayJob_locked_cases:
  assumes "ReplayJob_locked i now s os = (ph, s', os')"
  obtains (unknown) "jobs s i = None" "ph = Answer (Inl ErrJobNotFound)" "s' = s" "os' = os"
  | (wrong) j where "jobs s i = Some j" "State j \<noteq> StateDeadLetter" "ph = Answer (Inl ErrNotDeadLettered)" "s' = s" "os' = os"
  | (refused) j x w where "jobs s i = Some j" "ph = Answer (Inl x)" "s' = s\<lparr>log := w\<rparr>"
  | (fin) j s1 where "jobs s i = Some j" "State j = StateDeadLetter" "ph = Flush ()"
      "recordLocked s os (zero_event\<lparr>evType := eventReplayJob, evJobID := i, evEligibleAt := now\<rparr>) = (None, s1, os')"
      "s' = s1\<lparr>index := index_push (index s1)
          (apply_replay (zero_event\<lparr>evType := eventReplayJob, evJobID := i, evEligibleAt := now\<rparr>) j) now\<rparr>"
proof (cases "jobs s i")
  case None
  then show thesis using assms by (intro unknown) (auto simp: ReplayJob_locked_def)
next
  case (Some j)
  let ?e = "zero_event\<lparr>evType := eventReplayJob, evJobID := i, evEligibleAt := now\<rparr>"
  show thesis
  proof (cases "State j = StateDeadLetter")
    case False
    then show thesis using assms Some by (intro wrong [of j]) (auto simp: ReplayJob_locked_def)
  next
    case True
    obtain r s1 os1 where rec: "recordLocked s os ?e = (r, s1, os1)" by (rule prod_cases3)
    show thesis
    proof (cases r)
      case None
      have "ph = Flush ()" "os1 = os'" "s' = s1\<lparr>index := index_push (index s1) (apply_replay ?e j) now\<rparr>"
        using assms Some True rec None by (simp_all add: ReplayJob_locked_def Let_def)
      then show thesis using rec None Some True fin by blast
    next
      case (Some x)
      have "ph = Answer (Inl x)" "s1 = s'"
        using assms \<open>jobs s i = Some j\<close> True rec Some by (simp_all add: ReplayJob_locked_def Let_def)
      moreover obtain w where "s1 = s\<lparr>log := w\<rparr>" using recordLocked_error rec Some by blast
      ultimately show thesis using \<open>jobs s i = Some j\<close> refused by blast
    qed
  qed
qed

lemma ReplayJob_locked_ok:
  assumes ok: "store_ok s" and "ReplayJob_locked i now s os = (ph, s', os')"
  shows "store_ok s'"
  using assms(2)
proof (cases rule: ReplayJob_locked_cases)
  case (fin j s1)
  let ?e = "zero_event\<lparr>evType := eventReplayJob, evJobID := i, evEligibleAt := now\<rparr>"
  let ?j = "apply_replay ?e j"
  let ?i = "index_push (index s) ?j now"
  obtain w lsn t where t: "store_apply s ?e = Inr t" "s1 = t\<lparr>log := w, lastLSN := lsn\<rparr>"
    using fin(4) by (rule recordLocked_done)
  have t': "t = s\<lparr>jobs := (jobs s)(i \<mapsto> ?j), leased := leased s - {ID j}\<rparr>"
    using t(1) apply_on_job(4) [of s ?e j] fin(1) by simp
  have "store_ok ((s\<lparr>index := ?i\<rparr>)\<lparr>jobs := (jobs (s\<lparr>index := ?i\<rparr>))(i \<mapsto> ?j), leased := leased s - {ID j}\<rparr>)"
    using store_ok_push [OF ok, of ?j now] fin(1) store_ok_epoch [OF ok fin(1)] store_ok_ID [OF ok fin(1)]
    by (intro store_ok_update [where j = j]) (auto simp: filed_push)
  moreover have "s' = ((s\<lparr>index := ?i\<rparr>)\<lparr>jobs := (jobs (s\<lparr>index := ?i\<rparr>))(i \<mapsto> ?j), leased := leased s - {ID j}\<rparr>)
      \<lparr>log := w, lastLSN := lsn\<rparr>"
    using fin(5) t(2) t' by simp
  ultimately show ?thesis by (simp only: store_ok_frame)
qed (use ok in auto)

section \<open>Leasing\<close>

lemma reserveEpochs_cases:
  assumes "reserveEpochsLocked s os = (r, s', os')"
  obtains (refused) x w where "r = Some x" "s' = s\<lparr>log := w\<rparr>"
  | (fin) w lsn payload where "r = None"
      "encodeEvent (zero_event\<lparr>evType := eventEpochReserve, evReservedUpTo := nextEpoch s + epochBlockSize s - 1\<rparr>) = Some payload"
      "wal_AppendSync (log s) os payload = (Inr lsn, w, os')"
      "s' = s\<lparr>epochReservedUpTo := nextEpoch s + epochBlockSize s - 1, log := w, lastLSN := lsn\<rparr>"
proof -
  let ?e = "zero_event\<lparr>evType := eventEpochReserve, evReservedUpTo := nextEpoch s + epochBlockSize s - 1\<rparr>"
  have app: "store_apply (s\<lparr>log := w\<rparr>) ?e =
      Inr (s\<lparr>log := w, epochReservedUpTo := nextEpoch s + epochBlockSize s - 1\<rparr>)" for w
    by (simp add: store_apply_def)
  show thesis
  proof (cases "encodeEvent ?e")
    case None
    then have "r \<noteq> None" "s' = s" using assms by (auto simp: reserveEpochsLocked_def Let_def)
    then show thesis using log_same [of s] refused by blast
  next
    case (Some payload)
    obtain q w os1 where aps: "wal_AppendSync (log s) os payload = (q, w, os1)" by (rule prod_cases3)
    show thesis
    proof (cases q)
      case (Inl x)
      then show thesis using assms Some aps by (intro refused [of "ErrReserve x" w]) (auto simp: reserveEpochsLocked_def)
    next
      case (Inr lsn)
      have "r = None" "os1 = os'"
        "s' = s\<lparr>epochReservedUpTo := nextEpoch s + epochBlockSize s - 1, log := w, lastLSN := lsn\<rparr>"
        using assms Some aps Inr app [of w] by (auto simp: reserveEpochsLocked_def Let_def)
      then show thesis using Some aps Inr by (intro fin) simp_all
    qed
  qed
qed

lemma nextEpoch_reserve:
  assumes "unat (n :: u64) + unat k < 2 ^ 64" and "0 < k"
  shows "unat (n + k - 1) = unat n + unat k - 1" and "unat (n + 1) = unat n + 1"
proof -
  have k: "1 \<le> unat k" using assms(2) by (simp add: word_less_nat_alt)
  have nk: "unat (n + k) = unat n + unat k"
    using assms(1) by (subst unat_word_ariths) simp
  then have "1 \<le> n + k" using k by (simp add: word_le_nat_alt)
  then have "unat (n + k - 1) = unat (n + k) - unat (1 :: u64)" by (rule unat_sub)
  then show "unat (n + k - 1) = unat n + unat k - 1" using nk by simp
  have "unat n + 1 < 2 ^ 64" using assms(1) k by linarith
  then show "unat (n + 1) = unat n + 1" by (subst unat_word_ariths) simp
qed

text \<open>
  The fencing token handed out is the next one, it lies within what the log has
  reserved, and nothing but the counters and the log changes.
\<close>

lemma nextEpochLocked_cases:
  assumes "nextEpochLocked s os = (res, s', os')"
    and range: "unat (nextEpoch s) + unat (epochBlockSize s) < 2 ^ 64" and block: "0 < epochBlockSize s"
  obtains (refused) x w where "res = Inl x" "s' = s\<lparr>log := w\<rparr>"
  | (issued) w lsn u where "res = Inr (nextEpoch s)" "nextEpoch s \<le> u" "epochReservedUpTo s \<le> u \<or> epochReservedUpTo s < nextEpoch s"
      "s' = s\<lparr>epochReservedUpTo := u, nextEpoch := nextEpoch s + 1, log := w, lastLSN := lsn\<rparr>"
proof (cases "nextEpoch s > epochReservedUpTo s")
  case False
  then have "res = Inr (nextEpoch s)" "s' = s\<lparr>nextEpoch := nextEpoch s + 1\<rparr>"
    using assms(1) by (simp_all add: nextEpochLocked_def)
  then show thesis using False
    by (intro issued [where u = "epochReservedUpTo s" and w = "log s" and lsn = "lastLSN s"]) (auto simp: not_less)
next
  case True
  obtain r s1 os1 where rs: "reserveEpochsLocked s os = (r, s1, os1)" by (rule prod_cases3)
  then show thesis
  proof (cases rule: reserveEpochs_cases)
    case (refused x w)
    then show thesis using assms(1) True rs that(1) [of x w] by (simp add: nextEpochLocked_def)
  next
    case (fin w lsn payload)
    let ?u = "nextEpoch s + epochBlockSize s - 1"
    have "unat ?u = unat (nextEpoch s) + unat (epochBlockSize s) - 1"
      using nextEpoch_reserve(1) [OF range block] .
    moreover have "1 \<le> unat (epochBlockSize s)" using block by (simp add: word_less_nat_alt)
    ultimately have "nextEpoch s \<le> ?u" by (simp add: word_le_nat_alt)
    moreover have "res = Inr (nextEpoch s)"
      "s' = s\<lparr>epochReservedUpTo := ?u, nextEpoch := nextEpoch s + 1, log := w, lastLSN := lsn\<rparr>"
      using assms(1) True rs fin by (auto simp: nextEpochLocked_def)
    ultimately show thesis using True by (intro issued) auto
  qed
qed

lemma index_pop_stale:
  assumes ok: "store_ok s" and pop: "index_pop (index s) queue = Some (cand, idx)"
    and j: "jobs s i = Some j" "Leasable (State j)" and ne: "entry_of j \<noteq> cand"
  shows "entry_of j \<in># filed idx (Queue j)"
proof -
  have "entry_of j \<in># filed (index s) (Queue j)" using ok j by (auto simp: store_ok_def scheduled_def)
  then show ?thesis using filed_pop [OF pop, of "Queue j"] ne by (auto split: if_splits)
qed

text \<open>An entry that is no job's current one can be dropped.\<close>

lemma store_ok_skip:
  assumes ok: "store_ok s" and pop: "index_pop (index s) queue = Some (cand, idx)"
    and stale: "\<And>j. jobs s (entryID cand) = Some j \<Longrightarrow> Leasable (State j) \<Longrightarrow> entryEligibleAt cand \<noteq> EligibleAt j"
  shows "store_ok (s\<lparr>index := idx\<rparr>)"
proof -
  have "entry_of j \<in># filed idx (Queue j)" if j: "jobs s i = Some j" "Leasable (State j)" for i j
  proof (rule index_pop_stale [OF ok pop j])
    show "entry_of j \<noteq> cand" using stale [of j] j store_ok_ID [OF ok j(1)] by auto
  qed
  moreover have "index_ok idx" using ok pop index_ok_pop by (auto simp: store_ok_def scheduled_def)
  ultimately have "scheduled (s\<lparr>index := idx\<rparr>)" by (auto simp: scheduled_def)
  then show ?thesis using ok by (simp add: store_ok_def)
qed

lemma store_ok_repush:
  assumes ok: "store_ok s" and pop: "index_pop (index s) queue = Some (cand, idx)"
    and j: "jobs s (entryID cand) = Some j"
  shows "store_ok (s\<lparr>index := index_push idx j now\<rparr>)"
proof -
  have "entry_of k \<in># filed (index_push idx j now) (Queue k)" if k: "jobs s i = Some k" "Leasable (State k)" for i k
  proof (cases "entry_of k = cand")
    case True
    then have "i = entryID cand" using store_ok_ID [OF ok k(1)] by auto
    then have "k = j" using j k(1) by simp
    then show ?thesis by (simp add: filed_push)
  next
    case False
    then show ?thesis using index_pop_stale [OF ok pop k] by (auto simp: filed_push)
  qed
  moreover have "index_ok idx" using ok pop index_ok_pop by (auto simp: store_ok_def scheduled_def)
  ultimately have "scheduled (s\<lparr>index := index_push idx j now\<rparr>)"
    by (auto simp: scheduled_def index_ok_push)
  then show ?thesis using ok by (simp add: store_ok_def)
qed

definition lease_event :: "job \<Rightarrow> u64 \<Rightarrow> string \<Rightarrow> gotime \<Rightarrow> event" where
  "lease_event j epoch workerID expiry =
     zero_event\<lparr>evType := eventLease, evJobID := ID j, evEpoch := epoch, evWorkerID := workerID,
       evLeaseExpiresAt := expiry, evAttempt := Attempt j + 1\<rparr>"

lemma lease_event_simps [simp]:
  "evType (lease_event j ep w x) = eventLease" "evJobID (lease_event j ep w x) = ID j"
  "evEpoch (lease_event j ep w x) = ep" "evAttempt (lease_event j ep w x) = Attempt j + 1"
  "evJob (lease_event j ep w x) = None" "evWorkerID (lease_event j ep w x) = w"
  by (simp_all add: lease_event_def zero_event_def)

lemma store_ok_counters:
  assumes "store_ok s" and "nextEpoch s \<le> n" and "unat n \<le> unat u + 1"
  shows "store_ok (s\<lparr>epochReservedUpTo := u, nextEpoch := n\<rparr>)"
proof -
  have "epochs_ok (s\<lparr>epochReservedUpTo := u, nextEpoch := n\<rparr>)"
    using assms by (auto simp: store_ok_def epochs_ok_def) (meson order_less_le_trans)
  then show ?thesis using assms(1) by (auto simp: store_ok_def jobs_ok_def idem_ok_def scheduled_def)
qed

text \<open>Handing out a job whose entry has just been taken off the index keeps the invariant.\<close>

lemma store_ok_lease:
  assumes ok: "store_ok s" and pop: "index_pop (index s) queue = Some (cand, idx)"
    and j: "jobs s (entryID cand) = Some j" and range: "in_range s" and u: "nextEpoch s \<le> u"
  shows "store_ok (s\<lparr>index := idx, epochReservedUpTo := u, nextEpoch := nextEpoch s + 1,
    jobs := (jobs s)(entryID cand \<mapsto> apply_lease (lease_event j (nextEpoch s) w x) j),
    leased := insert (entryID cand) (leased s)\<rparr>)" (is "store_ok ?s")
proof -
  let ?i = "entryID cand"
  have id: "ID j = ?i" using store_ok_ID [OF ok j] .
  have block: "0 < epochBlockSize s" using ok by (simp add: store_ok_def epochs_ok_def)
  have n: "unat (nextEpoch s + 1) = unat (nextEpoch s) + 1"
    using range block nextEpoch_reserve(2) [of "nextEpoch s" "epochBlockSize s"] by (simp add: in_range_def)
  have "jobs_ok ?s" using ok id by (auto simp: store_ok_def jobs_ok_def)
  moreover have "idem_ok ?s"
    using ok j by (auto simp: store_ok_def idem_ok_def) (metis option.inject)+
  moreover have "entry_of k \<in># filed idx (Queue k)"
    if k: "jobs s i = Some k" "Leasable (State k)" "i \<noteq> ?i" for i k
    using store_ok_ID [OF ok k(1)] k(3) by (intro index_pop_stale [OF ok pop k(1,2)]) auto
  then have "scheduled ?s"
    using ok pop index_ok_pop by (auto simp: store_ok_def scheduled_def)
  moreover have "epochs_ok ?s"
    using ok n u block by (auto simp: store_ok_def epochs_ok_def word_less_nat_alt word_le_nat_alt) fastforce
  ultimately show ?thesis by (simp add: store_ok_def)
qed

text \<open>
  The loop drops stale entries until it meets one that is some due job's current entry,
  or none is left.  No due job loses its entry on the way.
\<close>

definition due :: "store \<Rightarrow> indexEntry \<Rightarrow> gotime \<Rightarrow> bool" where
  "due s cand now \<longleftrightarrow>
     (\<exists>j. jobs s (entryID cand) = Some j \<and> Leasable (State j) \<and> entryEligibleAt cand = EligibleAt j \<and>
        EligibleAt j \<le> now)"

definition keeps_due :: "store \<Rightarrow> string \<Rightarrow> gotime \<Rightarrow> scheduleIndex \<Rightarrow> bool" where
  "keeps_due s queue now q \<longleftrightarrow>
     (\<forall>e. e \<in># ready_of (index s) queue \<and> due s e now \<longrightarrow> e \<in># ready_of q queue)"

text \<open>Nothing is filed in \<open>q\<close> but what was filed before, or jobs under their own queue.\<close>

definition thinned :: "store \<Rightarrow> scheduleIndex \<Rightarrow> bool" where
  "thinned s q \<longleftrightarrow>
     (\<forall>n e. e \<in># filed q n \<longrightarrow> e \<in># filed (index s) n \<or> (\<exists>i j. jobs s i = Some j \<and> Queue j = n \<and> e = entry_of j))"

lemma thinned_refl [simp]: "thinned s (index s)"
  by (simp add: thinned_def)

lemma thinned_trans: "thinned s q \<Longrightarrow> thinned (s\<lparr>index := q\<rparr>) q' \<Longrightarrow> thinned s q'"
  unfolding thinned_def by simp blast

lemma thinned_pop:
  assumes "index_pop q queue = Some (cand, idx)" and "thinned s q"
  shows "thinned s idx" and "jobs s i = Some j \<Longrightarrow> thinned s (index_push idx j now)"
proof -
  have "e \<in># filed q n" if "e \<in># filed idx n" for e n
    using filed_pop [OF assms(1), of n] that by auto
  then show th: "thinned s idx" using assms(2) by (auto simp: thinned_def)
  show "thinned s (index_push idx j now)" if "jobs s i = Some j"
    using th that by (auto simp: thinned_def filed_push split: if_splits)
qed

lemma lease_loop_skip:
  assumes ok: "store_ok s" and pop: "index_pop (index s) queue = Some (cand, idx)" and stale: "\<not> due s cand now"
  obtains q where "lease_loop queue w dur now s os = lease_loop queue w dur now (s\<lparr>index := q\<rparr>) os"
    "store_ok (s\<lparr>index := q\<rparr>)" "ready_of q queue = ready_of idx queue" "keeps_due s queue now q"
    "thinned s q"
proof -
  have keep: "keeps_due s queue now q" if "ready_of q queue = ready_of idx queue" for q
    using ready_of_pop [OF pop, of queue] stale that by (auto simp: keeps_due_def)
  note thin = thinned_pop [OF pop thinned_refl]
  show thesis
  proof (cases "\<exists>j. jobs s (entryID cand) = Some j \<and> Leasable (State j) \<and> entryEligibleAt cand = EligibleAt j")
    case False
    then have "lease_loop queue w dur now s os = lease_loop queue w dur now (s\<lparr>index := idx\<rparr>) os"
      using pop by (auto simp: lease_loop.simps [of queue w dur now s os] Let_def split: option.split)
    moreover have "store_ok (s\<lparr>index := idx\<rparr>)" using False by (intro store_ok_skip [OF ok pop]) blast
    ultimately show thesis using keep thin(1) that by blast
  next
    case True
    then obtain j where j: "jobs s (entryID cand) = Some j" "Leasable (State j)" "entryEligibleAt cand = EligibleAt j"
      by blast
    then have late: "now < EligibleAt j" using stale by (auto simp: due_def)
    then have "lease_loop queue w dur now s os = lease_loop queue w dur now (s\<lparr>index := index_push idx j now\<rparr>) os"
      using pop j by (simp add: lease_loop.simps [of queue w dur now s os])
    moreover have "store_ok (s\<lparr>index := index_push idx j now\<rparr>)" using store_ok_repush [OF ok pop j(1)] .
    moreover have "ready_of (index_push idx j now) queue = ready_of idx queue" using late by (simp add: ready_of_push)
    ultimately show thesis using keep thin(2) [OF j(1)] that by blast
  qed
qed

lemma lease_loop_to_due:
  assumes "store_ok s"
  shows "\<exists>q. store_ok (s\<lparr>index := q\<rparr>) \<and> keeps_due s queue now q \<and> thinned s q \<and>
    lease_loop queue w dur now s os = lease_loop queue w dur now (s\<lparr>index := q\<rparr>) os \<and>
    (\<forall>cand idx. index_pop q queue = Some (cand, idx) \<longrightarrow> due s cand now)"
  using assms
proof (induction "size (ready_of (index s) queue)" arbitrary: s rule: less_induct)
  case less
  show ?case
  proof (cases "\<exists>cand idx. index_pop (index s) queue = Some (cand, idx) \<and> \<not> due s cand now")
    case False
    have "s\<lparr>index := index s\<rparr> = s" by simp
    then show ?thesis using False less.prems by (intro exI [of _ "index s"]) (auto simp: keeps_due_def)
  next
    case True
    then obtain cand idx where pop: "index_pop (index s) queue = Some (cand, idx)" "\<not> due s cand now" by blast
    obtain q where q: "lease_loop queue w dur now s os = lease_loop queue w dur now (s\<lparr>index := q\<rparr>) os"
      "store_ok (s\<lparr>index := q\<rparr>)" "ready_of q queue = ready_of idx queue" "keeps_due s queue now q"
      "thinned s q"
      using lease_loop_skip [OF less.prems pop] by blast
    have "size (ready_of (index (s\<lparr>index := q\<rparr>)) queue) < size (ready_of (index s) queue)"
      using q(3) schedule.pop_ready_size [OF pop(1)] by simp
    from less.hyps [OF this q(2)] obtain q' where q': "store_ok (s\<lparr>index := q'\<rparr>)"
      "keeps_due (s\<lparr>index := q\<rparr>) queue now q'" "thinned (s\<lparr>index := q\<rparr>) q'"
      "lease_loop queue w dur now (s\<lparr>index := q\<rparr>) os = lease_loop queue w dur now (s\<lparr>index := q'\<rparr>) os"
      "\<forall>cand idx. index_pop q' queue = Some (cand, idx) \<longrightarrow> due s cand now"
      by (auto simp: due_def)
    moreover have "keeps_due s queue now q'" using q(4) q'(2) by (simp add: keeps_due_def due_def)
    moreover have "thinned s q'" using thinned_trans q(5) q'(3) by blast
    ultimately show ?thesis using q(1) by (intro exI [of _ q']) simp
  qed
qed

text \<open>What happens at a due entry.\<close>

lemma lease_loop_due:
  assumes pop: "index_pop (index s) queue = Some (cand, idx)" and due: "due s cand now"
    and ok: "store_ok s"
  obtains j where "jobs s (entryID cand) = Some j" "Leasable (State j)" "entryEligibleAt cand = EligibleAt j"
    "EligibleAt j \<le> now" "ID j = entryID cand"
    "lease_loop queue w dur now s os =
      (case nextEpochLocked (s\<lparr>index := idx\<rparr>) os of
         (Inl x, s1, os1) \<Rightarrow> (Inl x, s1\<lparr>index := index_push (index s1) j now\<rparr>, os1)
       | (Inr epoch, s1, os1) \<Rightarrow>
           (case recordLocked s1 os1 (lease_event j epoch w (now + dur)) of
              (Some x, s2, os2) \<Rightarrow> (Inl x, s2\<lparr>index := index_push (index s2) j now\<rparr>, os2)
            | (None, s2, os2) \<Rightarrow> (Inr (jobs s2 (entryID cand)), s2, os2)))"
proof -
  obtain j where j: "jobs s (entryID cand) = Some j" "Leasable (State j)" "entryEligibleAt cand = EligibleAt j"
    "EligibleAt j \<le> now"
    using due by (auto simp: due_def)
  show thesis
    by (rule that [OF j store_ok_ID [OF ok j(1)]], subst lease_loop.simps)
      (use pop j in \<open>simp add: lease_event_def split: sum.split option.split prod.split\<close>)
qed

lemma store_ok_promote:
  assumes "store_ok s"
  shows "store_ok (s\<lparr>index := index_promote (index s) queue now\<rparr>)"
proof -
  have "scheduled (s\<lparr>index := index_promote (index s) queue now\<rparr>)"
    using assms by (auto simp: store_ok_def scheduled_def index_ok_promote filed_promote)
  then show ?thesis using assms by (simp add: store_ok_def)
qed

lemma due_index [simp]: "due (s\<lparr>index := q\<rparr>) e now = due s e now"
  by (simp add: due_def)

text \<open>
  Where \<^verbatim>\<open>Lease\<close> stops: at an index \<open>q\<close> that has lost no due job's entry and whose first
  ready entry, if there is one, is due.
\<close>

lemma Lease_stop:
  assumes ok: "store_ok s"
  obtains q where "store_ok (s\<lparr>index := q\<rparr>)" "thinned s q"
    "Lease queue w dur now s os = lease_loop queue w dur now (s\<lparr>index := q\<rparr>) os"
    "\<And>cand idx. index_pop q queue = Some (cand, idx) \<Longrightarrow> due s cand now"
    "\<And>i k. jobs s i = Some k \<Longrightarrow> Queue k = queue \<Longrightarrow> Leasable (State k) \<Longrightarrow> EligibleAt k \<le> now \<Longrightarrow>
       entry_of k \<in># ready_of q queue"
proof -
  let ?s = "s\<lparr>index := index_promote (index s) queue now\<rparr>"
  have th: "thinned s (index ?s)"
    using ok filed_promote by (auto simp: thinned_def store_ok_def scheduled_def)
  obtain q where q: "store_ok (?s\<lparr>index := q\<rparr>)" "keeps_due ?s queue now q" "thinned ?s q"
    "lease_loop queue w dur now ?s os = lease_loop queue w dur now (?s\<lparr>index := q\<rparr>) os"
    "\<forall>cand idx. index_pop q queue = Some (cand, idx) \<longrightarrow> due ?s cand now"
    using lease_loop_to_due [OF store_ok_promote [OF ok, of queue now], of queue now w dur os] by blast
  have "entry_of k \<in># ready_of q queue"
    if k: "jobs s i = Some k" "Queue k = queue" "Leasable (State k)" "EligibleAt k \<le> now" for i k
  proof -
    have "entry_of k \<in># filed (index s) queue" "index_ok (index s)"
      using ok k by (auto simp: store_ok_def scheduled_def)
    then have "entry_of k \<in># ready_of (index ?s) queue"
      using schedule.promote_ready [of "index s" "entry_of k" queue now] k(4) by simp
    moreover have "due ?s (entry_of k) now"
      using k store_ok_ID [OF ok k(1)] by (auto simp: due_def)
    ultimately show ?thesis using q(2) by (simp add: keeps_due_def)
  qed
  moreover have "thinned s q" using thinned_trans th q(3) by simp
  ultimately show thesis using that [of q] q by (simp add: Lease_def)
qed

text \<open>The outcomes of \<^verbatim>\<open>Lease\<close> on a store that satisfies the invariant.\<close>

lemma Lease_cases:
  assumes ok: "store_ok s" and range: "in_range s" and lease: "Lease queue w dur now s os = (res, s', os')"
  obtains (empty) q where "res = Inr None" "s' = s\<lparr>index := q\<rparr>" "os' = os" "store_ok s'" "thinned s q"
      "\<And>i k. jobs s i = Some k \<Longrightarrow> Queue k = queue \<Longrightarrow> Leasable (State k) \<Longrightarrow> now < EligibleAt k"
  | (refused) x where "res = Inl x" "store_ok s'" "jobs s' = jobs s" "leased s' = leased s" "idem s' = idem s"
      "thinned s (index s')" "nextEpoch s \<le> nextEpoch s'"
      "unat (nextEpoch s') \<le> unat (nextEpoch s) + 1" "epochBlockSize s' = epochBlockSize s"
  | (leased) q cand idx j s1 os1 u l n where
      "store_ok s'" "index_pop q queue = Some (cand, idx)" "thinned s q"
      "jobs s (entryID cand) = Some j" "Leasable (State j)" "EligibleAt j \<le> now" "ID j = entryID cand"
      "nextEpochLocked (s\<lparr>index := idx\<rparr>) os = (Inr (nextEpoch s), s1, os1)"
      "recordLocked s1 os1 (lease_event j (nextEpoch s) w (now + dur)) = (None, s', os')"
      "res = Inr (Some (apply_lease (lease_event j (nextEpoch s) w (now + dur)) j))" "nextEpoch s \<le> u"
      "s' = s\<lparr>index := idx, epochReservedUpTo := u, nextEpoch := nextEpoch s + 1,
         jobs := (jobs s)(entryID cand \<mapsto> apply_lease (lease_event j (nextEpoch s) w (now + dur)) j),
         leased := insert (entryID cand) (leased s), log := l, lastLSN := n\<rparr>"
      "\<And>i k. jobs s i = Some k \<Longrightarrow> Queue k = queue \<Longrightarrow> Leasable (State k) \<Longrightarrow> EligibleAt k \<le> now \<Longrightarrow>
         \<not> readyHeap_Less (entry_of k) cand"
proof -
  obtain q where q: "store_ok (s\<lparr>index := q\<rparr>)" and thin: "thinned s q" and q1:
    "Lease queue w dur now s os = lease_loop queue w dur now (s\<lparr>index := q\<rparr>) os"
    "\<And>cand idx. index_pop q queue = Some (cand, idx) \<Longrightarrow> due s cand now"
    "\<And>i k. jobs s i = Some k \<Longrightarrow> Queue k = queue \<Longrightarrow> Leasable (State k) \<Longrightarrow> EligibleAt k \<le> now \<Longrightarrow>
       entry_of k \<in># ready_of q queue"
    by (rule Lease_stop [OF ok, of queue w dur now os]) blast
  let ?s = "s\<lparr>index := q\<rparr>"
  show thesis
  proof (cases "index_pop q queue")
    case None
    then have "res = Inr None" "s' = ?s" "os' = os"
      using lease q1(1) by (simp_all add: lease_loop.simps [of queue w dur now ?s os])
    moreover have "now < EligibleAt k" if "jobs s i = Some k" "Queue k = queue" "Leasable (State k)" for i k
      using q1(3) [OF that] None by (auto simp: index_pop_None not_le [symmetric])
    ultimately show thesis using q thin empty by blast
  next
    case (Some p)
    then obtain cand idx where pop: "index_pop q queue = Some (cand, idx)" by (cases p) auto
    then have due: "due ?s cand now" using q1(2) by simp
    obtain j where j: "jobs s (entryID cand) = Some j" "Leasable (State j)" "EligibleAt j \<le> now" "ID j = entryID cand"
      and loop: "lease_loop queue w dur now ?s os =
        (case nextEpochLocked (s\<lparr>index := idx\<rparr>) os of
           (Inl x, s1, os1) \<Rightarrow> (Inl x, s1\<lparr>index := index_push (index s1) j now\<rparr>, os1)
         | (Inr epoch, s1, os1) \<Rightarrow>
             (case recordLocked s1 os1 (lease_event j epoch w (now + dur)) of
                (Some x, s2, os2) \<Rightarrow> (Inl x, s2\<lparr>index := index_push (index s2) j now\<rparr>, os2)
              | (None, s2, os2) \<Rightarrow> (Inr (jobs s2 (entryID cand)), s2, os2)))"
      using lease_loop_due [of ?s queue cand idx now w dur os] pop due q by auto
    have okp: "store_ok (s\<lparr>index := index_push idx j now\<rparr>)"
      using store_ok_repush [OF q, of queue cand idx j now] pop j(1) by simp
    note thp = thinned_pop(2) [OF pop thin j(1)]
    have block: "0 < epochBlockSize s" using ok by (simp add: store_ok_def epochs_ok_def)
    obtain r s1 os1 where ne: "nextEpochLocked (s\<lparr>index := idx\<rparr>) os = (r, s1, os1)" by (rule prod_cases3)
    have "unat (nextEpoch (s\<lparr>index := idx\<rparr>)) + unat (epochBlockSize (s\<lparr>index := idx\<rparr>)) < 2 ^ 64"
      "0 < epochBlockSize (s\<lparr>index := idx\<rparr>)"
      using range block by (simp_all add: in_range_def)
    with ne show thesis
    proof (cases rule: nextEpochLocked_cases)
      case (refused x w')
      then have "res = Inl x" "s' = s\<lparr>index := index_push idx j now, log := w'\<rparr>"
        using lease q1(1) loop ne by auto
      moreover from this okp have "store_ok s'" by (simp only: store_ok_frame)
      moreover have "jobs s' = jobs s" "leased s' = leased s" "idem s' = idem s" "thinned s (index s')"
        "nextEpoch s \<le> nextEpoch s'" "unat (nextEpoch s') \<le> unat (nextEpoch s) + 1"
        "epochBlockSize s' = epochBlockSize s"
        using calculation(2) thp by simp_all
      ultimately show thesis using that(2) by blast
    next
      case (issued w1 n1 u)
      have n: "unat (nextEpoch s + 1) = unat (nextEpoch s) + 1"
        using range block nextEpoch_reserve(2) [of "nextEpoch s" "epochBlockSize s"] by (simp add: in_range_def)
      have ok1: "store_ok (s1\<lparr>index := index_push idx j now\<rparr>)"
      proof -
        have "store_ok ((s\<lparr>index := index_push idx j now\<rparr>)\<lparr>epochReservedUpTo := u, nextEpoch := nextEpoch s + 1\<rparr>)"
          using n issued(2) by (intro store_ok_counters okp) (auto simp: word_less_nat_alt word_le_nat_alt)
        moreover have "s1\<lparr>index := index_push idx j now\<rparr> =
            (s\<lparr>index := index_push idx j now\<rparr>)\<lparr>epochReservedUpTo := u, nextEpoch := nextEpoch s + 1\<rparr>\<lparr>log := w1, lastLSN := n1\<rparr>"
          by (simp add: issued(4))
        ultimately show ?thesis by (simp only: store_ok_frame)
      qed
      obtain y s2 os2 where rec: "recordLocked s1 os1 (lease_event j (nextEpoch s) w (now + dur)) = (y, s2, os2)"
        by (rule prod_cases3)
      show thesis
      proof (cases y)
        case (Some x)
        obtain w2 where "s2 = s1\<lparr>log := w2\<rparr>" using recordLocked_error rec Some by blast
        moreover have "res = Inl x" "s' = s2\<lparr>index := index_push (index s2) j now\<rparr>"
          using lease q1(1) loop ne issued(1) rec Some by simp_all
        ultimately have "res = Inl x" and s'': "s' = s1\<lparr>index := index_push idx j now, log := w2\<rparr>"
          using issued(4) by simp_all
        moreover from this ok1 have "store_ok s'" by (simp only: store_ok_frame)
        moreover have "nextEpoch s \<le> nextEpoch s'" "unat (nextEpoch s') \<le> unat (nextEpoch s) + 1"
          "epochBlockSize s' = epochBlockSize s"
          using n s'' issued(4) by (simp_all add: word_le_nat_alt)
        moreover have "jobs s' = jobs s" "leased s' = leased s" "idem s' = idem s" "thinned s (index s')"
          using s'' issued(4) thp by simp_all
        ultimately show thesis using that(2) by blast
      next
        case None
        let ?e = "lease_event j (nextEpoch s) w (now + dur)"
        obtain w2 n2 t where t: "store_apply s1 ?e = Inr t" "s2 = t\<lparr>log := w2, lastLSN := n2\<rparr>"
          using rec None recordLocked_done [of s1 os1 ?e s2 os2] by blast
        have "t = s1\<lparr>jobs := (jobs s1)(entryID cand \<mapsto> apply_lease ?e j), leased := insert (entryID cand) (leased s1)\<rparr>"
          using t(1) apply_on_job(1) [of s1 ?e j] j issued(4) by simp
        then have s': "s2 = s\<lparr>index := idx, epochReservedUpTo := u, nextEpoch := nextEpoch s + 1,
            jobs := (jobs s)(entryID cand \<mapsto> apply_lease ?e j),
            leased := insert (entryID cand) (leased s), log := w2, lastLSN := n2\<rparr>"
          using t(2) issued(4) by simp
        have eqs: "res = Inr (jobs s2 (entryID cand))" "s' = s2" "os' = os2"
          using lease q1(1) loop ne issued(1) rec None by auto
        have "store_ok (?s\<lparr>index := idx, epochReservedUpTo := u, nextEpoch := nextEpoch ?s + 1,
            jobs := (jobs ?s)(entryID cand \<mapsto> apply_lease (lease_event j (nextEpoch ?s) w (now + dur)) j),
            leased := insert (entryID cand) (leased ?s)\<rparr>)"
          using q pop j range issued(2) by (intro store_ok_lease [where queue = queue]) (simp_all add: in_range_def)
        then have ok2: "store_ok s'" unfolding eqs s' by simp
        have ne': "nextEpochLocked (s\<lparr>index := idx\<rparr>) os = (Inr (nextEpoch s), s1, os1)" using ne issued(1) by simp
        have rec': "recordLocked s1 os1 ?e = (None, s', os')" using rec None eqs(2,3) by simp
        have res: "res = Inr (Some (apply_lease ?e j))" using eqs(1) s' by simp
        have u: "nextEpoch s \<le> u" using issued(2) by simp
        have least: "\<not> readyHeap_Less (entry_of k) cand"
          if "jobs s i = Some k" "Queue k = queue" "Leasable (State k)" "EligibleAt k \<le> now" for i k
          using index_pop_least [OF _ pop q1(3) [OF that]] q by (simp add: store_ok_def scheduled_def)
        show thesis by (rule that(3) [OF ok2 pop thin j ne' rec' res u _ least]) (simp only: eqs(2) s')
      qed
    qed
  qed
qed

lemma Lease_ok:
  assumes "store_ok s" and "in_range s" and "Lease queue w dur now s os = (res, s', os')"
  shows "store_ok s'"
  using assms by (cases rule: Lease_cases) simp_all


text \<open>What a successful lease hands out.\<close>

lemma Lease_Some:
  assumes "store_ok s" and "in_range s" and "Lease queue w dur now s os = (Inr (Some l), s', os')"
  obtains j where "jobs s (ID j) = Some j" "Leasable (State j)" "EligibleAt j \<le> now" "ID l = ID j"
    "l = apply_lease (lease_event j (nextEpoch s) w (now + dur)) j" "jobs s' = (jobs s)(ID j \<mapsto> l)"
    "nextEpoch s' = nextEpoch s + 1" "Epoch l = nextEpoch s"
  using assms
proof (cases rule: Lease_cases)
  case (leased q cand idx j s1 os1 u lw n)
  show thesis
  proof (rule that)
    show "l = apply_lease (lease_event j (nextEpoch s) w (now + dur)) j" using leased(10) by simp
    then show "ID l = ID j" "Epoch l = nextEpoch s" "jobs s' = (jobs s)(ID j \<mapsto> l)"
      using leased(7,12) by (simp_all add: apply_lease_def)
  qed (use leased in simp_all)
qed simp_all

end
