(* ===== verification/Cv_Recover.thy ===== *)
theory Cv_Recover
  imports Cv_Store
begin

text \<open>
  Opening, snapshotting and closing the store (\<^verbatim>\<open>Open\<close>, \<^verbatim>\<open>Snapshot\<close>, \<^verbatim>\<open>Close\<close> and their
  helpers in \<^verbatim>\<open>store.go\<close>).  \<open>visit\<close> gives the order in which the runtime ranges over a
  map of jobs.
\<close>

section \<open>Files\<close>

definition snapshot_lsn :: "string \<times> dirent \<Rightarrow> (string \<times> nat) option" where
  "snapshot_lsn e =
     (case e of
        (name, SubDir) \<Rightarrow> None
      | (name, RegFile f) \<Rightarrow>
          if prefix snapshotPrefix name \<and> suffix snapshotSuffix name
          then map_option (Pair name)
                 (ParseUint (let r = drop (length snapshotPrefix) name in take (length r - length snapshotSuffix) r))
          else None)"

definition listSnapshots :: "os \<Rightarrow> string \<Rightarrow> (store_error + string list) \<times> os" where
  "listSnapshots os dir =
     (case os_readdir os dir of
        (Inl x, os') \<Rightarrow> (Inl (ErrSnapshotIO ''broker: read snapshot dir'' x), os')
      | (Inr entries, os') \<Rightarrow> (Inr (map fst (sort_key snd (List.map_filter snapshot_lsn entries))), os'))"

definition writeFileSync :: "os \<Rightarrow> string \<Rightarrow> string \<Rightarrow> bytes \<Rightarrow> store_error option \<times> os" where
  "writeFileSync os dir name data =
     (case os_create_trunc os dir name of
        (Some x, os1) \<Rightarrow> (Some (ErrSnapshotIO ''broker: create'' x), os1)
      | (None, os1) \<Rightarrow>
          (case os_write os1 dir name data of
             (Some x, os2) \<Rightarrow> (Some (ErrSnapshotIO ''broker: write'' x), snd (io_plain os2))
           | (None, os2) \<Rightarrow>
               (case os_fsync os2 dir name of
                  (Some x, os3) \<Rightarrow> (Some (ErrSnapshotIO ''broker: sync'' x), snd (io_plain os3))
                | (None, os3) \<Rightarrow>
                    (case io_plain os3 of
                       (Some x, os4) \<Rightarrow> (Some (ErrSnapshotIO ''close'' x), os4)
                     | (None, os4) \<Rightarrow> (None, os4)))))"

section \<open>Snapshots\<close>

fun prune_loop :: "string \<Rightarrow> string list \<Rightarrow> os \<Rightarrow> store_error option \<times> os" where
  "prune_loop dir [] os = (None, os)"
| "prune_loop dir (n # ns) os =
     (case os_remove os dir n of
        (Some x, os1) \<Rightarrow>
          if x = ENOENT then prune_loop dir ns os1
          else (Some (ErrSnapshotIO ''broker: prune snapshot'' x), os1)
      | (None, os1) \<Rightarrow> prune_loop dir ns os1)"

definition pruneSnapshots :: "store \<Rightarrow> os \<Rightarrow> store_error option \<times> os" where
  "pruneSnapshots s os =
     (case listSnapshots os (snapDir s) of
        (Inl x, os1) \<Rightarrow> (Some x, os1)
      | (Inr names, os1) \<Rightarrow>
          if length names \<le> snapshotsKept then (None, os1)
          else prune_loop (snapDir s) (take (length names - snapshotsKept) names) os1)"

text \<open>
  \<^verbatim>\<open>Snapshot\<close> collects the counters and the pointers to the jobs under the read lock,
  and reads the jobs themselves when it marshals them, after the lock is released: the
  two parts are separate, and the second may run in a later state of the store.
\<close>

definition Snapshot_collect :: "((string \<rightharpoonup> job) \<Rightarrow> string list) \<Rightarrow> store \<Rightarrow> nat \<times> u64 \<times> string list" where
  "Snapshot_collect visit s = (lastLSN s, epochReservedUpTo s, visit (jobs s))"

definition snapshotName :: "nat \<Rightarrow> string" where
  "snapshotName lsn = snapshotPrefix @ pad20 lsn @ snapshotSuffix"

definition Snapshot_write ::
  "nat \<times> u64 \<times> string list \<Rightarrow> store \<Rightarrow> os \<Rightarrow> store_error option \<times> store \<times> os"
where
  "Snapshot_write col s os =
     (case col of (lsn, reserved, ids) \<Rightarrow>
        let js = sort_key ID (List.map_filter (jobs s) ids);
            snap = \<lparr>snLastLSN = word_of_nat lsn, snReservedUpTo = reserved, snJobs = map Some js\<rparr>;
            final = snapshotName lsn;
            tmp = final @ ''.tmp''
        in case encodeSnapshot snap of
             None \<Rightarrow> (Some ErrEncodeSnapshot, s, os)
           | Some data \<Rightarrow>
               (case writeFileSync os (snapDir s) tmp data of
                  (Some x, os1) \<Rightarrow> (Some x, s, os1)
                | (None, os1) \<Rightarrow>
                    (case os_rename os1 (snapDir s) tmp final of
                       (Some x, os2) \<Rightarrow> (Some (ErrSnapshotIO ''broker: rename snapshot'' x), s, os2)
                     | (None, os2) \<Rightarrow>
                         (case syncDir os2 (snapDir s) of
                            (Some x, os3) \<Rightarrow> (Some (ErrSnapshotIO ''broker: sync snapshot dir'' x), s, os3)
                          | (None, os3) \<Rightarrow>
                              (case wal_TruncateBefore (log s) os3 (lsn + 1) of
                                 (Some x, w, os4) \<Rightarrow> (Some (ErrTruncate x), s\<lparr>log := w\<rparr>, os4)
                               | (None, w, os4) \<Rightarrow>
                                   (case pruneSnapshots s os4 of (r, os5) \<Rightarrow> (r, s\<lparr>log := w\<rparr>, os5)))))))"

definition Snapshot :: "((string \<rightharpoonup> job) \<Rightarrow> string list) \<Rightarrow> store \<Rightarrow> os \<Rightarrow> store_error option \<times> store \<times> os" where
  "Snapshot visit s os = Snapshot_write (Snapshot_collect visit s) s os"

text \<open>Restoring a snapshot's jobs; a nil job would be dereferenced, hence the \<open>None\<close>.\<close>

fun load_jobs :: "job option list \<Rightarrow> store \<Rightarrow> store option" where
  "load_jobs [] s = Some s"
| "load_jobs (None # js) s = None"
| "load_jobs (Some j # js) s =
     load_jobs js
       (s\<lparr>jobs := (jobs s)(ID j \<mapsto> j),
          idem := (if IdempotencyKey j \<noteq> []
                   then (idem s)(idemKey (Queue j) (IdempotencyKey j) \<mapsto> ID j) else idem s),
          leased := (if State j = StateLeased then insert (ID j) (leased s) else leased s)\<rparr>)"

text \<open>\<open>names\<close> newest first.\<close>

fun load_loop :: "string list \<Rightarrow> store \<Rightarrow> os \<Rightarrow> (store_error + nat) \<times> store \<times> os" where
  "load_loop [] s os = (Inr 0, s, os)"
| "load_loop (n # ns) s os =
     (case os_open os (snapDir s) n of
        (Some x, os1) \<Rightarrow> load_loop ns s os1
      | (None, os1) \<Rightarrow>
          (case os_read os1 (snapDir s) n of (data, rdfail, os2) \<Rightarrow>
             if rdfail then load_loop ns s os2
             else (case decodeSnapshot data of
                     None \<Rightarrow> load_loop ns s os2
                   | Some snap \<Rightarrow>
                       (case load_jobs (snJobs snap) s of
                          None \<Rightarrow> (Inl Panic, s, os2)
                        | Some s' \<Rightarrow>
                            (Inr (unat (snLastLSN snap)), s'\<lparr>epochReservedUpTo := snReservedUpTo snap\<rparr>, os2)))))"

definition loadLatestSnapshot :: "store \<Rightarrow> os \<Rightarrow> (store_error + nat) \<times> store \<times> os" where
  "loadLatestSnapshot s os =
     (case listSnapshots os (snapDir s) of
        (Inl x, os1) \<Rightarrow> (Inl x, s, os1)
      | (Inr names, os1) \<Rightarrow> load_loop (rev names) s os1)"

section \<open>Recovery\<close>

definition recover_job :: "gotime \<Rightarrow> job \<Rightarrow> job" where
  "recover_job now j =
     (if State j \<noteq> StateLeased then j
      else j\<lparr>State := StateRetryWait, LeasedBy := [], LeaseExpiresAt := 0, EligibleAt := now,
             LastError := ''broker restarted while job was leased''\<rparr>)"

definition recoverLeasedLocked :: "gotime \<Rightarrow> store \<Rightarrow> store" where
  "recoverLeasedLocked now s = s\<lparr>jobs := map_option (recover_job now) \<circ> jobs s, leased := {}\<rparr>"

fun rebuild_loop :: "gotime \<Rightarrow> job list \<Rightarrow> scheduleIndex \<Rightarrow> scheduleIndex" where
  "rebuild_loop now [] i = i"
| "rebuild_loop now (j # js) i = rebuild_loop now js (if Leasable (State j) then index_push i j now else i)"

definition rebuildIndexLocked :: "((string \<rightharpoonup> job) \<Rightarrow> string list) \<Rightarrow> gotime \<Rightarrow> store \<Rightarrow> store" where
  "rebuildIndexLocked visit now s =
     s\<lparr>index := rebuild_loop now (List.map_filter (jobs s) (visit (jobs s))) newScheduleIndex\<rparr>"

definition replay_event :: "nat \<Rightarrow> bytes \<Rightarrow> store \<Rightarrow> store_error + store" where
  "replay_event lsn payload s =
     (case decodeEvent payload of
        None \<Rightarrow> Inl (ErrDecodeEvent lsn)
      | Some e \<Rightarrow>
          (case store_apply s e of Inl x \<Rightarrow> Inl x | Inr s' \<Rightarrow> Inr (s'\<lparr>lastLSN := lsn\<rparr>)))"

fun replay_store_error :: "store_error replay_err \<Rightarrow> store_error" where
  "replay_store_error (ReplayWal x) = ErrReplayLog x"
| "replay_store_error (ReplayFn x) = x"

definition new_store :: "config \<Rightarrow> wal \<Rightarrow> store" where
  "new_store cfg w =
     \<lparr>sdir = cfgDir cfg, snapDir = path_Join (cfgDir cfg) snapshotDirName,
      backoffBase = (if BackoffBase cfg \<le> 0 then DefaultBackoffBase else BackoffBase cfg),
      backoffCap = (if BackoffCap cfg \<le> 0 then DefaultBackoffCap else BackoffCap cfg),
      epochBlockSize = (if EpochBlockSize cfg = 0 then defaultEpochBlockSize else EpochBlockSize cfg),
      log = w, jobs = Map.empty, idem = Map.empty, leased = {}, index = newScheduleIndex,
      lastLSN = 0, failed = None, nextEpoch = 0, epochReservedUpTo = 0, notifyCh = False\<rparr>"

definition finish_open :: "((string \<rightharpoonup> job) \<Rightarrow> string list) \<Rightarrow> gotime \<Rightarrow> store \<Rightarrow> store" where
  "finish_open visit now s =
     (let s1 = rebuildIndexLocked visit now (recoverLeasedLocked now s)
      in s1\<lparr>nextEpoch := epochReservedUpTo s1 + 1\<rparr>)"

definition Open :: "((string \<rightharpoonup> job) \<Rightarrow> string list) \<Rightarrow> config \<Rightarrow> gotime \<Rightarrow> os \<Rightarrow> (store_error + store) \<times> os" where
  "Open visit cfg now os =
     (if cfgDir cfg = [] then (Inl ErrDirMissing, os)
      else case io_plain os of
          (Some x, os1) \<Rightarrow> (Inl (ErrSnapshotIO ''broker: create snapshot dir'' x), os1)
        | (None, os1) \<Rightarrow>
            (case wal_Open \<lparr>optDir = path_Join (cfgDir cfg) walDirName, optMaxSegmentSize = WALSegmentSize cfg\<rparr> os1 of
               (Inl x, os2) \<Rightarrow> (Inl (ErrOpenLog x), os2)
             | (Inr w, os2) \<Rightarrow>
                 (case loadLatestSnapshot (new_store cfg w) os2 of
                    (Inl x, s, os3) \<Rightarrow> (case wal_Close w os3 of (_, _, os4) \<Rightarrow> (Inl x, os4))
                  | (Inr snapLSN, s, os3) \<Rightarrow>
                      (case wal_Replay w os3 (snapLSN + 1) replay_event (s\<lparr>lastLSN := snapLSN\<rparr>) of
                         (Inl x, w', os4) \<Rightarrow>
                           (case wal_Close w' os4 of (_, _, os5) \<Rightarrow> (Inl (replay_store_error x), os5))
                       | (Inr s', w', os4) \<Rightarrow> (Inr (finish_open visit now (s'\<lparr>log := w'\<rparr>)), os4)))))"

definition OpenStore :: "((string \<rightharpoonup> job) \<Rightarrow> string list) \<Rightarrow> string \<Rightarrow> gotime \<Rightarrow> os \<Rightarrow> (store_error + store) \<times> os" where
  "OpenStore visit dir now os =
     Open visit \<lparr>cfgDir = dir, BackoffBase = 0, BackoffCap = 0, EpochBlockSize = 0, WALSegmentSize = 0\<rparr> now os"

definition store_Close :: "store \<Rightarrow> os \<Rightarrow> store_error option \<times> store \<times> os" where
  "store_Close s os =
     (case wal_Close (log s) os of
        (Some x, w, os') \<Rightarrow> (Some (ErrCloseLog x), s\<lparr>log := w\<rparr>, os')
      | (None, w, os') \<Rightarrow> (None, s\<lparr>log := w\<rparr>, os'))"

end
