(* ===== verification/Cv_Lifecycle.thy ===== *)
theory Cv_Lifecycle
  imports Cv_Memory Cv_Store_Steps Cv_Recover
begin

text \<open>
  Interleavings.  \<open>job_step\<close> is the life cycle of a job as a state machine; \<open>store_step\<close>
  is one critical section of the store, whatever its outcome.  Every run of critical
  sections, in any order and with any I/O failures, keeps the invariant of the store
  and moves every job along its life cycle.
\<close>

section \<open>The life of a job\<close>

inductive job_step :: "job \<Rightarrow> job \<Rightarrow> bool" where
  lease: "Leasable (State j) \<Longrightarrow> evAttempt e = Attempt j + 1 \<Longrightarrow> Epoch j < evEpoch e \<Longrightarrow> job_step j (apply_lease e j)"
| extend: "State j = StateLeased \<Longrightarrow> job_step j (j\<lparr>LeaseExpiresAt := t\<rparr>)"
| ack: "State j = StateLeased \<Longrightarrow> job_step j (apply_ack j)"
| retry: "State j = StateLeased \<Longrightarrow> Attempt j \<le> MaxRetries j \<Longrightarrow> evAttempt e = Attempt j \<Longrightarrow>
    evNextState e = StateRetryWait \<Longrightarrow> job_step j (apply_fail e j)"
| bury: "State j = StateLeased \<Longrightarrow> MaxRetries j < Attempt j \<Longrightarrow> evAttempt e = Attempt j \<Longrightarrow>
    evNextState e = StateDeadLetter \<Longrightarrow> job_step j (apply_fail e j)"
| revive: "State j = StateDeadLetter \<Longrightarrow> job_step j (apply_replay e j)"

abbreviation job_steps :: "job \<Rightarrow> job \<Rightarrow> bool" where "job_steps \<equiv> job_step\<^sup>*\<^sup>*"

lemma job_step_spec: "job_step j k \<Longrightarrow> same_spec j k"
proof (induction rule: job_step.induct)
  case (extend j t)
  then show ?case by (simp add: same_spec_def)
qed simp_all

lemma job_steps_spec: "job_steps j k \<Longrightarrow> same_spec j k"
  by (induction rule: rtranclp_induct) (auto intro: same_spec_trans job_step_spec)

lemma job_step_epoch: "job_step j k \<Longrightarrow> Epoch j \<le> Epoch k"
  by (erule job_step.cases) (simp_all add: less_imp_le)

lemma job_steps_epoch: "job_steps j k \<Longrightarrow> Epoch j \<le> Epoch k"
  by (induction rule: rtranclp_induct) (auto intro: order_trans job_step_epoch)

lemma job_step_done: "job_step j k \<Longrightarrow> State j \<noteq> StateDone"
  by (erule job_step.cases) auto

lemma job_steps_done: "job_steps j k \<Longrightarrow> State j = StateDone \<Longrightarrow> k = j"
  by (erule converse_rtranclpE) (auto dest: job_step_done)

text \<open>The bookkeeping of deliveries: a job is delivered at most \<open>MaxRetries + 1\<close> times.\<close>

definition life_ok :: "job \<Rightarrow> bool" where
  "life_ok j \<longleftrightarrow>
     0 \<le> MaxRetries j \<and> 0 \<le> Attempt j \<and> Attempt j \<le> MaxRetries j + 1 \<and> State j \<noteq> StateUnspecified \<and>
     (Leasable (State j) \<longrightarrow> Attempt j \<le> MaxRetries j) \<and>
     (State j \<in> {StateLeased, StateRetryWait, StateDone} \<longrightarrow> 1 \<le> Attempt j) \<and>
     (State j = StatePending \<longrightarrow> Attempt j = 0) \<and>
     (State j = StateDeadLetter \<longrightarrow> Attempt j = MaxRetries j + 1)"

lemma life_ok_step: "job_step j k \<Longrightarrow> life_ok j \<Longrightarrow> life_ok k"
  by (erule job_step.cases) (auto simp: life_ok_def)

lemma life_ok_steps: "job_steps j k \<Longrightarrow> life_ok j \<Longrightarrow> life_ok k"
  by (induction rule: rtranclp_induct) (auto intro: life_ok_step)

section \<open>How a store may change\<close>

definition entry_ok :: "(string \<rightharpoonup> job) \<Rightarrow> string \<Rightarrow> indexEntry \<Rightarrow> bool" where
  "entry_ok js q e \<longleftrightarrow>
     (\<exists>j. js (entryID e) = Some j \<and> Queue j = q \<and> entryPriority e = Priority j \<and> entryEnqueuedAt e = EnqueuedAt j)"

definition entries_ok :: "store \<Rightarrow> bool" where
  "entries_ok s \<longleftrightarrow> (\<forall>q e. e \<in># filed (index s) q \<longrightarrow> entry_ok (jobs s) q e)"

definition new_job :: "job \<Rightarrow> bool" where
  "new_job j \<longleftrightarrow> (\<exists>p i now. j = submitted_job p i now)"

text \<open>
  Jobs are never lost and only follow their life cycle, new ones start as submitted,
  and whatever is newly filed in the index belongs to a job of that queue.
\<close>

definition evolves :: "store \<Rightarrow> store \<Rightarrow> bool" where
  "evolves s s' \<longleftrightarrow>
     (\<forall>i j. jobs s i = Some j \<longrightarrow> (\<exists>k. jobs s' i = Some k \<and> job_steps j k)) \<and>
     (\<forall>i k. jobs s i = None \<and> jobs s' i = Some k \<longrightarrow> (\<exists>j. new_job j \<and> job_steps j k)) \<and>
     (\<forall>q e. e \<in># filed (index s') q \<longrightarrow> e \<in># filed (index s) q \<or> entry_ok (jobs s') q e)"

lemma evolves_refl [simp]: "evolves s s"
  by (auto simp: evolves_def)

lemma entry_ok_steps:
  assumes "entry_ok js q e" and "\<And>i j. js i = Some j \<Longrightarrow> \<exists>k. js' i = Some k \<and> job_steps j k"
  shows "entry_ok js' q e"
proof -
  obtain j where j: "js (entryID e) = Some j" "Queue j = q" "entryPriority e = Priority j" "entryEnqueuedAt e = EnqueuedAt j"
    using assms(1) by (auto simp: entry_ok_def)
  obtain k where "js' (entryID e) = Some k" "job_steps j k" using assms(2) [OF j(1)] by blast
  with j job_steps_spec [of j k] show ?thesis by (auto simp: entry_ok_def same_spec_def)
qed

lemma evolves_trans:
  assumes 1: "evolves s s1" and 2: "evolves s1 s2"
  shows "evolves s s2"
proof -
  have "\<exists>k. jobs s2 i = Some k \<and> job_steps j k" if "jobs s i = Some j" for i j
    using 1 2 that unfolding evolves_def by (meson rtranclp_trans)
  moreover have "\<exists>j. new_job j \<and> job_steps j k" if "jobs s i = None" "jobs s2 i = Some k" for i k
  proof (cases "jobs s1 i")
    case None
    then show ?thesis using 2 that by (auto simp: evolves_def)
  next
    case (Some l)
    obtain j where "new_job j" "job_steps j l" using 1 \<open>jobs s i = None\<close> Some unfolding evolves_def by blast
    moreover have "job_steps l k" using 2 that(2) Some unfolding evolves_def by (metis option.inject)
    ultimately show ?thesis by (meson rtranclp_trans)
  qed
  moreover have "e \<in># filed (index s) q \<or> entry_ok (jobs s2) q e" if "e \<in># filed (index s2) q" for q e
    using 1 2 that entry_ok_steps [of "jobs s1" q e "jobs s2"] unfolding evolves_def by blast
  ultimately show ?thesis by (auto simp: evolves_def)
qed

lemma evolves_entries: "evolves s s' \<Longrightarrow> entries_ok s \<Longrightarrow> entries_ok s'"
  using entry_ok_steps [of "jobs s" _ _ "jobs s'"] unfolding evolves_def entries_ok_def by blast

text \<open>Everything but the jobs and the index is free to change.\<close>

lemma evolves_frame:
  "evolves s s1 \<Longrightarrow> jobs s2 = jobs s1 \<Longrightarrow> index s2 = index s1 \<Longrightarrow> evolves s s2"
  by (simp add: evolves_def)

lemma evolves_same: "jobs s' = jobs s \<Longrightarrow> index s' = index s \<Longrightarrow> evolves s s'"
  using evolves_frame [OF evolves_refl] by blast

lemma evolves_index:
  assumes "thinned s (index s')" and "jobs s' = jobs s" and "jobs_ok s"
  shows "evolves s s'"
proof -
  have "e \<in># filed (index s) q \<or> entry_ok (jobs s) q e" if "e \<in># filed (index s') q" for q e
  proof -
    consider "e \<in># filed (index s) q" | i j where "jobs s i = Some j" "Queue j = q" "e = entry_of j"
      using assms(1) \<open>e \<in># filed (index s') q\<close> unfolding thinned_def by blast
    then show ?thesis using assms(3) by cases (auto simp: entry_ok_def jobs_ok_def)
  qed
  then show ?thesis using assms(2) by (auto simp: evolves_def)
qed

lemma evolves_job:
  assumes "store_ok s" and "jobs s i = Some j" and "job_step j k"
    and "jobs s' = (jobs s)(i \<mapsto> k)" and "index s' = index s \<or> index s' = index_push (index s) k now"
  shows "evolves s s'"
proof -
  have "ID k = i" using job_step_spec [OF assms(3)] store_ok_ID [OF assms(1,2)] by (simp add: same_spec_def)
  then have "e \<in># filed (index s) q \<or> entry_ok (jobs s') q e" if "e \<in># filed (index s') q" for q e
    using that assms(4,5) by (auto simp: filed_push entry_ok_def split: if_splits)
  then show ?thesis using assms(2-4) by (auto simp: evolves_def)
qed

section \<open>The operations\<close>

lemma recordLocked_jobs:
  assumes "recordLocked s os e = (None, s', os')" and "jobs s (evJobID e) = Some j" and "job_event e = Some f"
  shows "jobs s' = (jobs s)(evJobID e \<mapsto> f j)" and "index s' = index s" and "nextEpoch s' = nextEpoch s"
proof -
  obtain t w l where t: "store_apply s e = Inr t" "s' = t\<lparr>log := w, lastLSN := l\<rparr>"
    using assms(1) by (rule recordLocked_done)
  have "mem_apply e (mem_of s) = Some (mem_of t)" using t(1) by (simp add: store_apply_refines)
  moreover have "evType e \<noteq> eventSubmit" "evType e \<noteq> eventEpochReserve"
    using assms(3) by (auto simp: job_event_def event_types_distinct [symmetric] split: if_splits)
  ultimately have "jobs t = (jobs s)(evJobID e \<mapsto> f j)"
    using assms(2,3) by (simp add: mem_apply_def mem_of_def)
  then show "jobs s' = (jobs s)(evJobID e \<mapsto> f j)" "index s' = index s" "nextEpoch s' = nextEpoch s"
    using t store_apply_frame [OF t(1)] by simp_all
qed

lemma job_event_simps [simp]:
  "evType e = eventLease \<Longrightarrow> job_event e = Some (apply_lease e)"
  "evType e = eventAck \<Longrightarrow> job_event e = Some apply_ack"
  "evType e = eventFail \<Longrightarrow> job_event e = Some (apply_fail e)"
  "evType e = eventReplayJob \<Longrightarrow> job_event e = Some (apply_replay e)"
  by (simp_all add: job_event_def)

lemma Submit_locked_evolves:
  assumes ok: "store_ok s" and "Submit_locked p nano rnd now s os = (ph, s', os')"
    and fresh: "\<And>i. NewID nano rnd = Some i \<Longrightarrow> jobs s i = None"
  shows "evolves s s'"
  using assms(2)
proof (cases rule: Submit_locked_cases)
  case (refused r)
  then show ?thesis using evolves_same [of s' s] by auto
next
  case (accepted i s1)
  let ?j = "submitted_job p i now"
  obtain t w l where t: "store_apply s (zero_event\<lparr>evType := eventSubmit, evJob := Some ?j\<rparr>) = Inr t"
    "s1 = t\<lparr>log := w, lastLSN := l\<rparr>"
    using accepted(4) by (rule recordLocked_done)
  have id: "ID ?j = i" by (simp add: submitted_job_def)
  have "jobs t = (jobs s)(i \<mapsto> ?j)" using t(1) id by (auto simp: store_apply_def)
  then have js: "jobs s' = (jobs s)(i \<mapsto> ?j)" "index s' = index_push (index s) ?j now"
    using t accepted(6) store_apply_frame(2) [OF t(1)] by simp_all
  moreover have "new_job ?j" by (auto simp: new_job_def)
  ultimately show ?thesis
    using fresh [OF accepted(2)] id by (auto simp: evolves_def filed_push entry_ok_def split: if_splits)
qed simp

lemma Ack_locked_evolves:
  assumes ok: "store_ok s" and "Ack_locked i ep s os = (ph, s', os')"
  shows "evolves s s'"
  using assms(2)
proof (cases rule: Ack_locked_cases)
  case (refused j x w)
  then show ?thesis by (simp add: evolves_same)
next
  case (fin j)
  have "job_step j (apply_ack j)" using fin(2) by (auto simp: holdsLease_def intro: job_step.ack)
  with fin recordLocked_jobs [OF fin(4), of j apply_ack] show ?thesis
    by (intro evolves_job [OF ok fin(1)]) auto
qed simp_all

lemma failLocked_evolves:
  assumes ok: "store_ok s" and fl: "failLocked j reason timeout now r s os = (res, s', os')"
    and j: "jobs s (ID j) = Some j" and lease: "State j = StateLeased"
  shows "evolves s s'"
  using fl j
proof (cases rule: failLocked_cases)
  case (refused x w)
  then show ?thesis by (simp add: evolves_same)
next
  case (fin w lsn payload)
  have "job_step j (failed_job j reason timeout now r s)"
  proof (cases "Attempt j > MaxRetries j")
    case True
    then show ?thesis unfolding failed_job_def using lease by (intro job_step.bury) (auto simp: fail_event_def)
  next
    case False
    then show ?thesis unfolding failed_job_def using lease by (intro job_step.retry) (auto simp: fail_event_def)
  qed
  with fin show ?thesis by (intro evolves_job [OF ok j]) auto
qed

lemma Nack_locked_evolves:
  assumes ok: "store_ok s" and "Nack_locked i ep reason now r s os = (ph, s', os')"
  shows "evolves s s'"
  using assms(2)
proof (cases rule: Nack_locked_cases)
  case (held j res)
  then show ?thesis
    using failLocked_evolves [OF ok held(3)] store_ok_ID [OF ok held(1)] by (simp add: holdsLease_def)
qed simp_all

lemma Heartbeat_evolves:
  assumes ok: "store_ok s" and hb: "Heartbeat i ep dur now s = (res, s')"
  shows "evolves s s'"
proof (cases "\<exists>j. jobs s i = Some j \<and> holdsLease j ep")
  case False
  then have "s' = s" using hb by (auto simp: Heartbeat_def split: option.splits if_splits)
  then show ?thesis by simp
next
  case True
  then obtain j where j: "jobs s i = Some j" "holdsLease j ep" by blast
  then have "job_step j (j\<lparr>LeaseExpiresAt := now + dur\<rparr>)" by (auto simp: holdsLease_def intro: job_step.extend)
  then show ?thesis using hb j by (intro evolves_job [OF ok j(1)]) (auto simp: Heartbeat_def)
qed

lemma reclaim_loop_evolves:
  assumes "store_ok s" and "reclaim_loop draw now ids acc s os = (res, acc', s', os')"
  shows "evolves s s'"
  by (rule reclaim_loop_rule [OF assms, where R = "\<lambda>s os s' os'. evolves s s'"])
    (auto intro: evolves_trans failLocked_evolves)

lemma ReplayJob_locked_evolves:
  assumes ok: "store_ok s" and "ReplayJob_locked i now s os = (ph, s', os')"
  shows "evolves s s'"
  using assms(2)
proof (cases rule: ReplayJob_locked_cases)
  case (refused j x w)
  then show ?thesis by (simp add: evolves_same)
next
  case (fin j s1)
  let ?e = "zero_event\<lparr>evType := eventReplayJob, evJobID := i, evEligibleAt := now\<rparr>"
  have "job_step j (apply_replay ?e j)" using fin(2) by (rule job_step.revive)
  with fin recordLocked_jobs [OF fin(4), of j "apply_replay ?e"] show ?thesis
    by (intro evolves_job [OF ok fin(1)]) auto
qed simp_all

lemma Lease_evolves:
  assumes ok: "store_ok s" and "in_range s" and "Lease queue w dur now s os = (res, s', os')"
  shows "evolves s s'"
  using assms
proof (cases rule: Lease_cases)
  case (empty q)
  then show ?thesis using ok by (intro evolves_index) (auto simp: store_ok_def)
next
  case (refused x)
  then show ?thesis using ok by (intro evolves_index) (auto simp: store_ok_def)
next
  case (leased q cand idx j s1 os1 u l n)
  let ?s = "s\<lparr>index := idx\<rparr>" and ?k = "apply_lease (lease_event j (nextEpoch s) w (now + dur)) j"
  have ev: "evolves s ?s"
    using thinned_pop(1) [OF leased(2,3)] ok by (intro evolves_index) (auto simp: store_ok_def)
  have "job_step j ?k" using leased(5) store_ok_epoch [OF ok leased(4)] by (intro job_step.lease) simp_all
  then have "evolves ?s s'" using leased(4) unfolding leased(12) by (auto simp: evolves_def)
  with ev show ?thesis by (rule evolves_trans)
qed

section \<open>Critical sections\<close>

definition fresh_id :: "store \<Rightarrow> int \<Rightarrow> bytes option \<Rightarrow> bool" where
  "fresh_id s nano rnd \<longleftrightarrow> (case NewID nano rnd of None \<Rightarrow> True | Some i \<Rightarrow> jobs s i = None)"

inductive store_step :: "store \<times> os \<Rightarrow> store \<times> os \<Rightarrow> bool" where
  submit: "Submit_locked p nano rnd now s os = (ph, s', os') \<Longrightarrow> fresh_id s nano rnd \<Longrightarrow> store_step (s, os) (s', os')"
| lease: "Lease queue w dur now s os = (res, s', os') \<Longrightarrow> in_range s \<Longrightarrow> store_step (s, os) (s', os')"
| ack: "Ack_locked i ep s os = (pa, s', os') \<Longrightarrow> store_step (s, os) (s', os')"
| nack: "Nack_locked i ep reason now r s os = (pn, s', os') \<Longrightarrow> store_step (s, os) (s', os')"
| heartbeat: "Heartbeat i ep dur now s = (rh, s') \<Longrightarrow> store_step (s, os) (s', os)"
| reclaim: "reclaim_loop draw now ids [] s os = (x, acc, s', os') \<Longrightarrow> store_step (s, os) (s', os')"
| replay: "ReplayJob_locked i now s os = (pr, s', os') \<Longrightarrow> store_step (s, os) (s', os')"
| commit: "commitDurable s os = (x, s', os') \<Longrightarrow> store_step (s, os) (s', os')"
| notify: "store_step (s, os) (s\<lparr>notifyCh := b\<rparr>, os)"
| snapshot: "Snapshot_write col s os = (x, s', os') \<Longrightarrow> store_step (s, os) (s', os')"

lemma commitDurable_frame:
  assumes "commitDurable s os = (x, s', os')"
  obtains w f where "s' = s\<lparr>log := w, failed := f\<rparr>"
proof -
  obtain y w os1 where "wal_Sync (log s) os = (y, w, os1)" by (rule prod_cases3)
  then have "s' = s\<lparr>log := w, failed := failed s\<rparr> \<or> (\<exists>f. s' = s\<lparr>log := w, failed := f\<rparr>)"
    using assms by (cases y) (auto simp: commitDurable_def Let_def)
  then show thesis using that by blast
qed

lemma Snapshot_write_frame:
  assumes "Snapshot_write col s os = (x, s', os')"
  obtains w where "s' = s\<lparr>log := w\<rparr>"
proof -
  have "s' = s \<or> (\<exists>w. s' = s\<lparr>log := w\<rparr>)"
    using assms by (auto simp: Snapshot_write_def Let_def split: prod.splits option.splits)
  then show thesis using that log_same [of s] by blast
qed

definition live :: "store \<Rightarrow> bool" where
  "live s \<longleftrightarrow> store_ok s \<and> 0 < nextEpoch s"

lemma fresh_idD: "fresh_id s nano rnd \<Longrightarrow> NewID nano rnd = Some i \<Longrightarrow> jobs s i = None"
  by (simp add: fresh_id_def)

lemma reclaim_loop_counter:
  assumes "store_ok s" and "reclaim_loop draw now ids acc s os = (res, acc', s', os')"
  shows "nextEpoch s' = nextEpoch s"
  by (rule reclaim_loop_rule [OF assms, where R = "\<lambda>s os s' os'. nextEpoch s' = nextEpoch s"])
    (auto elim: failLocked_cases)

lemma store_step_live:
  assumes "store_step (s, os) (s', os')" and live: "live s"
  shows "live s' \<and> nextEpoch s \<le> nextEpoch s'"
proof -
  have ok: "store_ok s" and pos: "0 < nextEpoch s" using live by (simp_all add: live_def)
  from assms(1) show ?thesis
  proof cases
    case (submit p nano rnd now ph)
    have "store_ok s'" using Submit_locked_ok [OF ok submit(1) fresh_idD [OF submit(2)] pos] .
    moreover have "nextEpoch s' = nextEpoch s" using submit(1)
    proof (cases rule: Submit_locked_cases)
      case (accepted i s1)
      then show ?thesis by (auto elim!: recordLocked_done dest: store_apply_frame)
    qed auto
    ultimately show ?thesis using pos by (simp add: live_def)
  next
    case (lease queue w dur now res)
    have "store_ok s'" using Lease_ok [OF ok lease(2,1)] .
    moreover have n: "unat (nextEpoch s + 1) = unat (nextEpoch s) + 1"
      using ok lease(2) nextEpoch_reserve(2) [of "nextEpoch s" "epochBlockSize s"]
      by (simp add: in_range_def store_ok_def epochs_ok_def)
    have "nextEpoch s \<le> nextEpoch s'" using ok lease(2,1)
    proof (cases rule: Lease_cases)
      case leased
      then show ?thesis using n by (simp add: word_le_nat_alt)
    qed simp_all
    ultimately show ?thesis using pos by (auto simp: live_def)
  next
    case (ack i ep pa)
    have "store_ok s'" using Ack_locked_ok [OF ok ack] .
    moreover have "nextEpoch s' = nextEpoch s" using ack
    proof (cases rule: Ack_locked_cases)
      case (fin j)
      then show ?thesis using recordLocked_jobs(3) [OF fin(4), of j] by simp
    qed simp_all
    ultimately show ?thesis using pos by (simp add: live_def)
  next
    case (nack i ep reason now r pn)
    have "store_ok s'" using Nack_locked_ok [OF ok nack] .
    moreover have "nextEpoch s' = nextEpoch s" using nack
    proof (cases rule: Nack_locked_cases)
      case (held j res)
      have "jobs s (ID j) = Some j" using held(1) store_ok_ID [OF ok held(1)] by simp
      with held(3) show ?thesis by (cases rule: failLocked_cases) simp_all
    qed simp_all
    ultimately show ?thesis using pos by (simp add: live_def)
  next
    case (heartbeat i ep dur now rh)
    have "nextEpoch s' = nextEpoch s"
      using heartbeat(2) by (auto simp: Heartbeat_def split: option.splits if_splits)
    then show ?thesis using Heartbeat_ok [OF ok heartbeat(2)] pos by (simp add: live_def)
  next
    case (reclaim draw now ids x acc)
    then show ?thesis using reclaim_loop_ok [OF ok reclaim] reclaim_loop_counter [OF ok reclaim] pos by (simp add: live_def)
  next
    case (replay i now pr)
    have "store_ok s'" using ReplayJob_locked_ok [OF ok replay] .
    moreover have "nextEpoch s' = nextEpoch s" using replay
    proof (cases rule: ReplayJob_locked_cases)
      case (fin j s1)
      then show ?thesis using recordLocked_jobs(3) [OF fin(4), of j] by simp
    qed simp_all
    ultimately show ?thesis using pos by (simp add: live_def)
  next
    case (commit x)
    then show ?thesis using ok pos by (auto simp: live_def elim!: commitDurable_frame)
  next
    case (notify b)
    then show ?thesis using ok pos by (simp add: live_def)
  next
    case (snapshot col x)
    then show ?thesis using ok pos by (auto simp: live_def elim!: Snapshot_write_frame)
  qed
qed

lemma store_step_evolves:
  assumes "store_step (s, os) (s', os')" and ok: "store_ok s"
  shows "evolves s s'"
  using assms(1)
proof cases
  case (submit p nano rnd now ph)
  then show ?thesis using Submit_locked_evolves [OF ok submit(1) fresh_idD [OF submit(2)]] by blast
next
  case lease
  then show ?thesis using Lease_evolves [OF ok] by blast
next
  case ack
  then show ?thesis using Ack_locked_evolves [OF ok] by blast
next
  case nack
  then show ?thesis using Nack_locked_evolves [OF ok] by blast
next
  case heartbeat
  then show ?thesis using Heartbeat_evolves [OF ok] by blast
next
  case reclaim
  then show ?thesis using reclaim_loop_evolves [OF ok] by blast
next
  case replay
  then show ?thesis using ReplayJob_locked_evolves [OF ok] by blast
next
  case commit
  then show ?thesis by (auto elim!: commitDurable_frame intro: evolves_same)
next
  case notify
  then show ?thesis by (auto intro: evolves_same)
next
  case snapshot
  then show ?thesis by (auto elim!: Snapshot_write_frame intro: evolves_same)
qed

abbreviation store_steps :: "store \<times> os \<Rightarrow> store \<times> os \<Rightarrow> bool" where "store_steps \<equiv> store_step\<^sup>*\<^sup>*"

lemma store_steps_live:
  assumes "store_steps (s, os) (s', os')" and "live s"
  shows "live s' \<and> nextEpoch s \<le> nextEpoch s' \<and> evolves s s'"
  using assms
proof (induction rule: rtranclp_induct2)
  case (step s1 os1 s2 os2)
  then have 1: "live s1" "nextEpoch s \<le> nextEpoch s1" "evolves s s1" by simp_all
  then have "store_ok s1" by (simp add: live_def)
  with step(2) 1 store_step_live [of s1 os1 s2 os2] store_step_evolves [of s1 os1 s2 os2] show ?case
    by (auto intro: evolves_trans)
qed simp

end
