(* ===== verification/Cv_Scope.thy ===== *)
theory Cv_Scope
  imports Cv_Log
begin

text \<open>
  Which directory a call may change.  The log works in its own directory and the
  snapshots are kept in another, so the two do not disturb each other.
\<close>

definition only_in :: "string \<Rightarrow> os \<Rightarrow> os \<Rightarrow> bool" where
  "only_in d os os' \<longleftrightarrow> (\<forall>x. x \<noteq> d \<longrightarrow> dirs os' x = dirs os x)"

named_theorems scope "calls that change one directory only"

lemma only_in_refl [simp]: "only_in d os os"
  by (simp add: only_in_def)

lemma only_in_trans: "only_in d os os1 \<Longrightarrow> only_in d os1 os2 \<Longrightarrow> only_in d os os2"
  by (simp add: only_in_def)

lemma only_in_same: "dirs os' = dirs os \<Longrightarrow> only_in d os os'"
  by (simp add: only_in_def)

lemma only_inD: "only_in d os os' \<Longrightarrow> x \<noteq> d \<Longrightarrow> dirs os' x = dirs os x"
  by (simp add: only_in_def)

section \<open>System calls\<close>

lemma dirs_elsewhere [simp]:
  "x \<noteq> d \<Longrightarrow> dirs (set_file os d n f) x = dirs os x" "x \<noteq> d \<Longrightarrow> dirs (del_entry os d n) x = dirs os x"
  "x \<noteq> d \<Longrightarrow> dirs (link_dir os d) x = dirs os x" "x \<noteq> d \<Longrightarrow> dirs (upd_file g os d n) x = dirs os x"
  by (simp_all add: set_file_def del_entry_def link_dir_def upd_file_def split: option.splits)

lemmas scope_splits = prod.splits option.splits if_splits dirent.splits fault.splits

lemma only_in_io_plain [scope]: "io_plain os = (r, os') \<Longrightarrow> only_in d os os'"
  by (rule only_in_same) (rule io_plain_dirs)

lemma only_in_io_step [scope]: "io_step os = (r, os') \<Longrightarrow> only_in d os os'"
  by (rule only_in_same) (rule io_step_dirs)

lemma only_in_create_excl [scope]: "os_create_excl os d n = (r, os') \<Longrightarrow> only_in d os os'"
  unfolding os_create_excl_def only_in_def by (auto split: scope_splits dest!: io_plain_dirs)

lemma only_in_create_trunc [scope]: "os_create_trunc os d n = (r, os') \<Longrightarrow> only_in d os os'"
  unfolding os_create_trunc_def only_in_def by (auto split: scope_splits dest!: io_plain_dirs)

lemma only_in_open [scope]: "os_open os d n = (r, os') \<Longrightarrow> only_in x os os'"
  unfolding os_open_def only_in_def by (auto split: scope_splits dest!: io_plain_dirs)

lemma only_in_write [scope]: "os_write os d n bs = (r, os') \<Longrightarrow> only_in d os os'"
  unfolding os_write_def only_in_def by (auto split: scope_splits dest!: io_step_dirs)

lemma only_in_fsync [scope]: "os_fsync os d n = (r, os') \<Longrightarrow> only_in d os os'"
  by (erule os_fsync_cases, cases r) (simp_all add: only_in_def)

lemma only_in_fullSync [scope]: "fullSync os d n = (r, os') \<Longrightarrow> only_in d os os'"
  by (erule fullSync_cases, cases r) (simp_all add: only_in_def)

lemma only_in_truncate [scope]: "os_truncate os d n k = (r, os') \<Longrightarrow> only_in d os os'"
  unfolding os_truncate_def only_in_def by (auto split: scope_splits dest!: io_plain_dirs)

lemma only_in_read [scope]: "os_read os d n = (bs, fail, os') \<Longrightarrow> only_in x os os'"
  unfolding os_read_def only_in_def Let_def by (auto split: scope_splits dest!: io_step_dirs)

lemma only_in_remove [scope]: "os_remove os d n = (r, os') \<Longrightarrow> only_in d os os'"
  unfolding os_remove_def only_in_def by (auto split: scope_splits dest!: io_plain_dirs)

lemma only_in_rename [scope]: "os_rename os d a b = (r, os') \<Longrightarrow> only_in d os os'"
  unfolding os_rename_def only_in_def Let_def by (auto split: scope_splits dest!: io_plain_dirs)

lemma only_in_syncDir [scope]: "syncDir os d = (r, os') \<Longrightarrow> only_in d os os'"
  unfolding syncDir_def only_in_def by (auto split: scope_splits dest!: io_plain_dirs)

lemma only_in_readdir [scope]: "os_readdir os d = (r, os') \<Longrightarrow> only_in x os os'"
  unfolding os_readdir_def only_in_def by (auto split: scope_splits dest!: io_plain_dirs)

section \<open>The log\<close>

lemma scope_flush: "flushBufferLocked w os = (r, w', os') \<Longrightarrow> only_in (wdir w) os os' \<and> wdir w' = wdir w"
  unfolding flushBufferLocked_def by (auto split: scope_splits intro: scope)

lemma scope_sync_active: "sync_active w os = (r, os') \<Longrightarrow> only_in (wdir w) os os'"
  unfolding sync_active_def by (auto split: if_splits intro: scope)

lemma scope_create_segment:
  "createSegmentLocked w os b = (r, w', os') \<Longrightarrow> only_in (wdir w) os os' \<and> wdir w' = wdir w"
  unfolding createSegmentLocked_def
  by (auto split: scope_splits intro: scope only_in_trans)

lemma scope_close_active: "close_active w os = (r, w', os') \<Longrightarrow> only_in (wdir w) os os' \<and> wdir w' = wdir w"
  unfolding close_active_def by (auto split: scope_splits intro: scope)

lemma scope_rotate: "rotateLocked w os = (r, w', os') \<Longrightarrow> only_in (wdir w) os os' \<and> wdir w' = wdir w"
proof -
  assume rot: "rotateLocked w os = (r, w', os')"
  obtain e1 w1 os1 where 1: "flushBufferLocked w os = (e1, w1, os1)" by (rule prod_cases3)
  obtain e2 os2 where 2: "sync_active w1 os1 = (e2, os2)" by fastforce
  obtain e3 w3 os3 where 3: "close_active w1 os2 = (e3, w3, os3)" by (rule prod_cases3)
  obtain e4 w4 os4 where 4: "createSegmentLocked w3 os3 (nextLSN w3) = (e4, w4, os4)" by (rule prod_cases3)
  from rot 1 2 3 4 scope_flush [OF 1] scope_sync_active [OF 2] scope_close_active [OF 3] scope_create_segment [OF 4]
  show ?thesis by (auto simp: rotateLocked_def only_in_def split: option.splits)
qed

lemma scope_append: "appendLocked w os p = (r, w', os') \<Longrightarrow> only_in (wdir w) os os' \<and> wdir w' = wdir w"
  by (auto simp: appendLocked_def Let_def split: scope_splits dest: scope_rotate)

lemma scope_Append: "wal_Append w os p = (r, w', os') \<Longrightarrow> only_in (wdir w) os os' \<and> wdir w' = wdir w"
  unfolding wal_Append_def by (rule scope_append)

lemma scope_Sync: "wal_Sync w os = (r, w', os') \<Longrightarrow> only_in (wdir w) os os' \<and> wdir w' = wdir w"
proof -
  assume sy: "wal_Sync w os = (r, w', os')"
  obtain e1 w1 os1 where 1: "flushBufferLocked w os = (e1, w1, os1)" by (rule prod_cases3)
  obtain e2 os2 where 2: "sync_active w1 os1 = (e2, os2)" by fastforce
  from sy 1 2 scope_flush [OF 1] scope_sync_active [OF 2] show ?thesis
    by (auto simp: wal_Sync_def Sync_write_def Sync_flush_def only_in_def split: option.splits if_splits)
qed

lemma scope_AppendSync: "wal_AppendSync w os p = (r, w', os') \<Longrightarrow> only_in (wdir w) os os' \<and> wdir w' = wdir w"
proof -
  assume ap: "wal_AppendSync w os p = (r, w', os')"
  obtain e1 w1 os1 where 1: "appendLocked w os p = (e1, w1, os1)" by (rule prod_cases3)
  obtain e2 w2 os2 where 2: "wal_Sync w1 os1 = (e2, w2, os2)" by (rule prod_cases3)
  from ap 1 2 scope_append [OF 1] scope_Sync [OF 2] show ?thesis
    by (auto simp: wal_AppendSync_def only_in_def split: sum.splits option.splits)
qed

lemma os_read_dirs: "os_read os d n = (bs, fail, os') \<Longrightarrow> dirs os' = dirs os"
  unfolding os_read_def Let_def by (auto split: scope_splits dest: io_step_dirs)

lemma os_readdir_dirs: "os_readdir os d = (r, os') \<Longrightarrow> dirs os' = dirs os"
  unfolding os_readdir_def by (auto split: scope_splits dest: io_plain_dirs)

lemmas same_dirs = os_open_dirs os_read_dirs os_readdir_dirs io_plain_dirs io_step_dirs

lemma scope_open_last: "open_last w os b = (r, os') \<Longrightarrow> only_in (wdir w) os os'"
  unfolding open_last_def Let_def
  by (auto simp: only_in_def split: scope_splits dest!: same_dirs only_in_truncate only_in_fullSync)

lemma listSegments_dirs: "listSegments os d = (r, os') \<Longrightarrow> dirs os' = dirs os"
  unfolding listSegments_def by (auto split: prod.splits sum.splits dest: os_readdir_dirs)

lemma scope_Open: "wal_Open opts os = (r, os') \<Longrightarrow> only_in (optDir opts) os os'"
  by (auto simp: wal_Open_def createSegment_def Let_def only_in_def split: scope_splits sum.splits
      dest!: io_plain_dirs listSegments_dirs scope_create_segment scope_open_last)

lemma replay_loop_dirs: "replay_loop d lo fn bs s os = (r, os') \<Longrightarrow> dirs os' = dirs os"
proof (induction bs arbitrary: s os)
  case (Cons b bs)
  obtain e1 os1 where 1: "os_open os d (segmentName b) = (e1, os1)" by fastforce
  obtain data rdfail os2 where 2: "os_read os1 d (segmentName b) = (data, rdfail, os2)" by (rule prod_cases3)
  obtain v k e3 o3 s3 where 3: "scanRecords data rdfail (replay_fn lo b fn) (0, s) 0 0 = (v, k, e3, o3, s3)"
    by (metis prod_cases3)
  note d = os_open_dirs [OF 1] os_read_dirs [OF 2]
  show ?case
  proof (cases "(case bs of [] \<Rightarrow> 2 ^ 64 - 1 | b # _ \<Rightarrow> b) \<le> lo \<or> e1 \<noteq> None \<or> e3 \<noteq> None")
    case True
    then show ?thesis using Cons 1 2 3 d by (auto simp: Let_def split: if_splits option.splits scan_err.splits)
  next
    case False
    then show ?thesis using Cons.prems Cons.IH 1 2 3 d by (simp add: Let_def)
  qed
qed simp

lemma scope_Replay: "wal_Replay w os lo fn s = (r, w', os') \<Longrightarrow> only_in (wdir w) os os' \<and> wdir w' = wdir w"
  by (auto simp: wal_Replay_def only_in_def split: scope_splits dest!: scope_flush replay_loop_dirs)

lemma scope_truncate_loop: "truncate_loop d lsn bs k os = (r, k', os') \<Longrightarrow> only_in d os os'"
proof (induction d lsn bs k os rule: truncate_loop.induct)
  case (1 d lsn b c bs k os)
  then show ?case
    by (auto split: scope_splits dest!: only_in_remove intro: only_in_trans)
qed simp_all

lemma scope_TruncateBefore: "wal_TruncateBefore w os lsn = (r, w', os') \<Longrightarrow> only_in (wdir w) os os' \<and> wdir w' = wdir w"
  by (auto simp: wal_TruncateBefore_def Let_def split: scope_splits dest!: scope_truncate_loop only_in_syncDir
      intro: only_in_trans)

section \<open>What the log depends on\<close>

lemma log_rel_scope:
  assumes "only_in d os os'" and "d \<noteq> wdir w"
  shows "log_rel w os' b rs n = log_rel w os b rs n"
proof -
  have same: "dirs os' (wdir w) = dirs os (wdir w)" using assms by (auto simp: only_in_def)
  then have fa: "file_at os' (wdir w) n = file_at os (wdir w) n" for n by (simp add: file_at_def)
  have segs: "sealed_segs os' (wdir w) b pss = sealed_segs os (wdir w) b pss" for b pss
    by (induction pss arbitrary: b) (simp_all add: sealed_seg_def fa)
  have "wal_rel w os' b old cur = wal_rel w os b old cur" for old cur
    unfolding wal_rel_def segs active_seg_def fa using same by (simp add: dir_ok_cong [of os' _ os])
  then show ?thesis by (simp add: log_rel_def durable_count_def fa)
qed

end
