(* ===== verification/Cv_Durable.thy ===== *)
theory Cv_Durable
  imports Cv_Lifecycle Cv_Scope
begin

text \<open>
  Durability.  \<open>traces m0 L s os es d\<close>: the newest snapshot on disk holds the memory \<open>m0\<close>
  as of sequence number \<open>L\<close> (\<open>empty_memory\<close> and 0 where there is none), the log holds the
  events \<open>es\<close> after it, the first \<open>d\<close> of them on stable storage, and the store is what
  these denote.  Every critical section that reports success extends \<open>es\<close> and never
  lowers \<open>d\<close>; a flush raises \<open>d\<close> to the whole of \<open>es\<close>; and opening the store after a
  crash finds a prefix of \<open>es\<close> no shorter than \<open>d\<close>.
\<close>

section \<open>Text the log can hold\<close>

lemma valid_utf8_Nil [simp]: "valid_utf8 []"
  by (simp add: valid_utf8.simps)

lemma valid_utf8_ascii: "(\<And>c. c \<in> set s \<Longrightarrow> code c < 128) \<Longrightarrow> valid_utf8 s"
proof (induction s)
  case (Cons c s)
  then have "rune_width (c # s) = 1" by (simp add: rune_width_def)
  with Cons show ?case by (simp add: valid_utf8.simps [of "c # s"])
qed simp

lemma hex_char_ascii: "d < 16 \<Longrightarrow> code (hex_char d) < 128"
  by (simp add: hex_char_def of_char_char_of_less)

lemma NewID_text: "NewID nano rnd = Some i \<Longrightarrow> valid_utf8 i"
proof (rule valid_utf8_ascii)
  fix c assume "NewID nano rnd = Some i" "c \<in> set i"
  then obtain b :: byte where "c \<in> set (hex_byte b)"
    by (auto simp: NewID_def EncodeToString_def split: option.splits)
  moreover have "unat b < 256" using unsigned_less [of b] by simp
  then have "unat b div 16 < 16" by (simp add: div_less_iff_less_mult)
  ultimately show "code c < 128" by (auto simp: hex_byte_def intro: hex_char_ascii)
qed

lemma literal_texts [simp]:
  "valid_utf8 ''shell''" "valid_utf8 ''lease expired''" "valid_utf8 ''handler reported failure''"
  "valid_utf8 ''broker restarted while job was leased''"
  by (rule valid_utf8_ascii; auto)+

lemma event_type_texts [simp]:
  "valid_utf8 eventSubmit" "valid_utf8 eventLease" "valid_utf8 eventAck" "valid_utf8 eventFail"
  "valid_utf8 eventReplayJob" "valid_utf8 eventEpochReserve"
  unfolding event_types by (rule valid_utf8_ascii; auto)+

lemma int64_small [simp]: "int64_ok 0" "int64_ok 1"
  by (simp_all add: int64_ok_def)

definition texts_ok :: "store \<Rightarrow> bool" where
  "texts_ok s \<longleftrightarrow> (\<forall>i j. jobs s i = Some j \<longrightarrow> job_text_ok j)"

definition params_ok :: "SubmitParams \<Rightarrow> bool" where
  "params_ok p \<longleftrightarrow>
     valid_utf8 (pQueue p) \<and> valid_utf8 (pHandler p) \<and> valid_utf8 (pIdempotencyKey p) \<and> int64_ok (pMaxRetries p)"

lemma submitted_text:
  "params_ok p \<Longrightarrow> NewID nano rnd = Some i \<Longrightarrow> job_text_ok (submitted_job p i now)"
  by (auto simp: params_ok_def job_text_ok_def submitted_job_def NewID_text max_def)

lemma texts_ok_update:
  "texts_ok s \<Longrightarrow> job_text_ok j \<Longrightarrow> jobs s' = (jobs s)(i \<mapsto> j) \<Longrightarrow> texts_ok s'"
  by (auto simp: texts_ok_def)

definition mem_texts :: "memory \<Rightarrow> bool" where
  "mem_texts m \<longleftrightarrow> (\<forall>i j. mjobs m i = Some j \<longrightarrow> job_text_ok j)"

lemma texts_ok_same: "texts_ok s \<Longrightarrow> jobs s' = jobs s \<Longrightarrow> texts_ok s'"
  by (simp add: texts_ok_def)

section \<open>The reserved tokens of a history\<close>

definition reserved_by :: "memory \<Rightarrow> event list \<Rightarrow> u64" where
  "reserved_by m0 es = foldl (\<lambda>r e. if evType e = eventEpochReserve then evReservedUpTo e else r) (mreserved m0) es"

lemma reserved_by_snoc:
  "reserved_by m0 (es @ [e]) = (if evType e = eventEpochReserve then evReservedUpTo e else reserved_by m0 es)"
  by (simp add: reserved_by_def)

lemma history_reserved: "history m0 es m \<Longrightarrow> mreserved m = reserved_by m0 es"
proof (induction rule: history.induct)
  case start
  then show ?case by (simp add: reserved_by_def)
next
  case (step es m e m')
  from step.hyps(2,3) show ?case
  proof (cases rule: valid_event_cases)
    case (change f j)
    then have "evType e \<noteq> eventEpochReserve"
      by (auto simp: job_event_def split: if_splits)
    then show ?thesis using step.IH change(4) by (simp add: reserved_by_snoc)
  qed (use step.IH in \<open>auto simp: reserved_by_snoc add_job_def\<close>)
qed

lemma reserved_mono:
  assumes "history m0 (es @ fs) m"
  shows "reserved_by m0 es \<le> reserved_by m0 (es @ fs)"
proof -
  obtain m1 where m1: "history m0 es m1" using history_prefix [OF assms] by blast
  have "reserved_by m0 es \<le> mreserved m"
    by (rule history_stable [where P = "\<lambda>m. reserved_by m0 es \<le> mreserved m", OF _ m1 _ assms])
      (use history_reserved [OF m1] valid_event_reserved order_trans in fastforce)+
  then show ?thesis using history_reserved [OF assms] by simp
qed

lemma reserved_take_mono:
  assumes "history m0 es m" and "a \<le> b"
  shows "reserved_by m0 (take a es) \<le> reserved_by m0 (take b es)"
proof -
  have eq: "take b es = take a es @ drop a (take b es)"
    using append_take_drop_id [of a "take b es"] assms(2) by (simp add: min.absorb1)
  obtain m1 where "history m0 (take b es) m1" using history_take [OF assms(1)] by blast
  then have "history m0 (take a es @ drop a (take b es)) m1" using eq by simp
  then show ?thesis using reserved_mono eq by fastforce
qed

lemma reserved_between:
  assumes "history m0 es m" and "reserved_by m0 (take d es) = reserved_by m0 es" and "d \<le> n"
  shows "reserved_by m0 (take n es) = reserved_by m0 es"
proof (rule antisym)
  have "take (max n (length es)) es = es" by simp
  with reserved_take_mono [OF assms(1), of n "max n (length es)"] show "reserved_by m0 (take n es) \<le> reserved_by m0 es"
    by simp
  show "reserved_by m0 es \<le> reserved_by m0 (take n es)"
    using reserved_take_mono [OF assms(1,3)] assms(2) by simp
qed

section \<open>The snapshot on disk\<close>

definition intact :: "fnode \<Rightarrow> bool" where
  "intact f \<longleftrightarrow> fsynced f = length (fdata f) \<and> \<not> flost f \<and> flinked f"

text \<open>Restoring the snapshot into an empty store gives the memory.\<close>

definition restores :: "snapshot \<Rightarrow> memory \<Rightarrow> bool" where
  "restores snap m0 \<longleftrightarrow>
     mreserved m0 = snReservedUpTo snap \<and>
     (\<forall>s. jobs s = Map.empty \<and> idem s = Map.empty \<longrightarrow>
        (\<exists>s'. load_jobs (snJobs snap) s = Some s' \<and> jobs s' = mjobs m0 \<and> idem s' = midem m0))"

definition no_snap :: "os \<Rightarrow> string \<Rightarrow> bool" where
  "no_snap os dir \<longleftrightarrow> (\<forall>n e. map_of (dirs os dir) n = Some e \<longrightarrow> snapshot_lsn (n, e) = None)"

definition newest_snap :: "os \<Rightarrow> string \<Rightarrow> memory \<Rightarrow> nat \<Rightarrow> bool" where
  "newest_snap os dir m0 L \<longleftrightarrow>
     L < 2 ^ 64 \<and>
     (\<exists>f snap. file_at os dir (snapshotName L) = Some f \<and> intact f \<and> decodeSnapshot (fdata f) = Some snap \<and>
        unat (snLastLSN snap) = L \<and> restores snap m0) \<and>
     (\<forall>n e l. map_of (dirs os dir) n = Some e \<and> snapshot_lsn (n, e) = Some (n, l) \<longrightarrow> l < L \<or> n = snapshotName L)"

definition snap_on :: "os \<Rightarrow> string \<Rightarrow> memory \<Rightarrow> nat \<Rightarrow> bool" where
  "snap_on os dir m0 L \<longleftrightarrow>
     distinct (map fst (dirs os dir)) \<and> (no_snap os dir \<and> m0 = empty_memory \<and> L = 0 \<or> newest_snap os dir m0 L)"

lemma snap_on_cong: "dirs os' dir = dirs os dir \<Longrightarrow> snap_on os' dir m0 L = snap_on os dir m0 L"
  by (simp add: snap_on_def no_snap_def newest_snap_def file_at_def)

section \<open>The store and its log\<close>

definition logged :: "event \<Rightarrow> bytes \<Rightarrow> bool" where
  "logged e r \<longleftrightarrow> encodeEvent e = Some r \<and> event_text_ok e"

definition placed :: "store \<Rightarrow> bool" where
  "placed s \<longleftrightarrow> sdir s \<noteq> [] \<and> wdir (log s) = path_Join (sdir s) walDirName \<and> snapDir s = path_Join (sdir s) snapshotDirName"

lemma placed_dirs: "placed s \<Longrightarrow> wdir (log s) \<noteq> snapDir s"
  by (simp add: placed_def path_Join_def walDirName_def snapshotDirName_def)

definition log_holds :: "memory \<Rightarrow> nat \<Rightarrow> store \<Rightarrow> os \<Rightarrow> event list \<Rightarrow> nat \<Rightarrow> bool" where
  "log_holds m0 L s os es d \<longleftrightarrow>
     (\<exists>b old new m. log_rel (log s) os b (old @ new) (length old + d) \<and> b + length old = L + 1 \<and>
        list_all2 logged es new \<and> history m0 es m \<and> sim m s)"

definition traces :: "memory \<Rightarrow> nat \<Rightarrow> store \<Rightarrow> os \<Rightarrow> event list \<Rightarrow> nat \<Rightarrow> bool" where
  "traces m0 L s os es d \<longleftrightarrow>
     placed s \<and> snap_on os (snapDir s) m0 L \<and> mem_ok m0 \<and> mem_texts m0 \<and> lastLSN s = L + length es \<and>
     log_holds m0 L s os es d \<and> reserved_by m0 (take d es) = reserved_by m0 es"

lemma traces_frame [simp]:
  "traces m0 L (s\<lparr>index := i\<rparr>) os es d = traces m0 L s os es d"
  "traces m0 L (s\<lparr>leased := K\<rparr>) os es d = traces m0 L s os es d"
  "traces m0 L (s\<lparr>failed := f\<rparr>) os es d = traces m0 L s os es d"
  "traces m0 L (s\<lparr>notifyCh := b\<rparr>) os es d = traces m0 L s os es d"
  "traces m0 L (s\<lparr>nextEpoch := n\<rparr>) os es d = traces m0 L s os es d"
  by (simp_all add: traces_def placed_def log_holds_def)

lemma traces_length: "traces m0 L s os es d \<Longrightarrow> d \<le> length es"
  unfolding traces_def log_holds_def by (auto dest!: wal_log.rel_durable list_all2_lengthD)

lemma traces_history: "traces m0 L s os es d \<Longrightarrow> \<exists>m. history m0 es m \<and> sim m s"
  by (auto simp: traces_def log_holds_def)

lemma traces_reserved: "traces m0 L s os es d \<Longrightarrow> epochReservedUpTo s = reserved_by m0 es"
  by (auto simp: sim_def dest!: traces_history dest: history_reserved)

lemma traces_logE:
  assumes "traces m0 L s os es d"
  obtains b old new m where "log_rel (log s) os b (old @ new) (length old + d)" "b + length old = L + 1"
    "list_all2 logged es new" "length new = length es" "history m0 es m" "sim m s"
  using assms unfolding traces_def log_holds_def by (blast dest: list_all2_lengthD [symmetric])

lemma traces_moved:
  assumes tr: "traces m0 L s os es d" and dir: "wdir (log s') = wdir (log s)" "sdir s' = sdir s" "snapDir s' = snapDir s"
    and scope: "only_in (wdir (log s)) os os'" and lsn: "lastLSN s' = L + length fs"
    and log: "log_holds m0 L s' os' fs k" and res: "reserved_by m0 (take k fs) = reserved_by m0 fs"
  shows "traces m0 L s' os' fs k"
proof -
  have pl: "placed s" using tr by (simp add: traces_def)
  then have "snap_on os' (snapDir s) m0 L = snap_on os (snapDir s) m0 L"
    using only_inD [OF scope] placed_dirs [OF pl] by (intro snap_on_cong) simp
  moreover have "snap_on os (snapDir s) m0 L" "mem_ok m0" "mem_texts m0" using tr by (simp_all add: traces_def)
  moreover have "placed s'" using pl dir by (simp add: placed_def)
  ultimately show ?thesis using dir(3) lsn log res by (simp add: traces_def)
qed

lemma traces_record:
  assumes tr: "traces m0 L s os es d" and rec: "recordLocked s os e = (None, s', os')" and txt_ok: "event_text_ok e"
    and ty: "evType e \<noteq> eventEpochReserve"
    and valid: "\<And>m. history m0 es m \<Longrightarrow> sim m s \<Longrightarrow> valid_event m e"
  shows "\<exists>d'. d \<le> d' \<and> traces m0 L s' os' (es @ [e]) d'"
proof -
  obtain b old new m where r: "log_rel (log s) os b (old @ new) (length old + d)" "b + length old = L + 1"
    "list_all2 logged es new" "length new = length es" "history m0 es m" "sim m s"
    using tr by (rule traces_logE)
  obtain p lsn w t where p: "encodeEvent e = Some p" "wal_Append (log s) os p = (Inr lsn, w, os')"
    "store_apply s e = Inr t" "s' = t\<lparr>log := w, lastLSN := lsn\<rparr>"
    using rec by (rule recordLocked_done)
  obtain k where lsn: "lsn = b + length (old @ new)" and k: "length old + d \<le> k" "log_rel w os' b ((old @ new) @ [p]) k"
    using wal_log.append_law [OF r(1) p(2)] by blast
  note sc = scope_Append [OF p(2)]
  note v = valid [OF r(5,6)]
  obtain m' where m': "mem_apply e m = Some m'" "sim m' t" using sim_apply [OF r(6) p(3) v] by blast
  have h: "history m0 (es @ [e]) m'" using r(5) v m'(1) by (rule history.step)
  define d' where "d' = k - length old"
  then have d': "k = length old + d'" "d \<le> d'" using k(1) by simp_all
  have "reserved_by m0 (take d (es @ [e])) = reserved_by m0 (es @ [e])"
    using tr ty traces_length [OF tr] by (simp add: reserved_by_snoc traces_def)
  then have res: "reserved_by m0 (take d' (es @ [e])) = reserved_by m0 (es @ [e])"
    using reserved_between [OF h _ d'(2)] by simp
  have "list_all2 logged (es @ [e]) (new @ [p])"
    using r(3) p(1) txt_ok by (simp add: list_all2_appendI logged_def)
  moreover have "log_rel (log s') os' b (old @ (new @ [p])) (length old + d')" using k(2) d' p(4) by simp
  moreover have "sim m' s'" using p(4) m'(2) by simp
  ultimately have log: "log_holds m0 L s' os' (es @ [e]) d'" using h r(2) unfolding log_holds_def by blast
  have "traces m0 L s' os' (es @ [e]) d'"
  proof (rule traces_moved [OF tr _ _ _ _ _ log res])
    show "wdir (log s') = wdir (log s)" "only_in (wdir (log s)) os os'" using sc p(4) by simp_all
    show "sdir s' = sdir s" "snapDir s' = snapDir s" using p(4) store_apply_frame [OF p(3)] by simp_all
    show "lastLSN s' = L + length (es @ [e])" using p(4) lsn r(2,4) by simp
  qed
  with d' show ?thesis by blast
qed

lemma traces_commit:
  assumes tr: "traces m0 L s os es d" and "commitDurable s os = (None, s', os')"
  shows "traces m0 L s' os' es (length es)" and "s' = s\<lparr>log := log s'\<rparr>"
proof -
  obtain b old new m where r: "log_rel (log s) os b (old @ new) (length old + d)" "b + length old = L + 1"
    "list_all2 logged es new" "length new = length es" "history m0 es m" "sim m s"
    using tr by (rule traces_logE)
  obtain w where w: "wal_Sync (log s) os = (None, w, os')" "s' = s\<lparr>log := w\<rparr>"
    using assms(2) by (auto simp: commitDurable_def Let_def split: prod.splits option.splits)
  then show "s' = s\<lparr>log := log s'\<rparr>" by simp
  have "log_rel (log s') os' b (old @ new) (length old + length es)"
    using wal_log.sync_law [OF r(1) w(1)] r(4) w(2) by simp
  moreover have "sim m s'" using r(6) w(2) by simp
  ultimately have "log_holds m0 L s' os' es (length es)" using r unfolding log_holds_def by blast
  with scope_Sync [OF w(1)] w(2) tr show "traces m0 L s' os' es (length es)"
    by (intro traces_moved [OF tr]) (simp_all add: traces_def)
qed

text \<open>Tokens are reserved on stable storage before any is handed out.\<close>

lemma traces_reserve:
  assumes tr: "traces m0 L s os es d" and res: "reserveEpochsLocked s os = (None, s', os')"
    and up: "epochReservedUpTo s \<le> nextEpoch s + epochBlockSize s - 1"
  shows "\<exists>e. traces m0 L s' os' (es @ [e]) (length es + 1)"
  using res
proof (cases rule: reserveEpochs_cases)
  case (fin w lsn p)
  let ?u = "nextEpoch s + epochBlockSize s - 1"
  let ?e = "zero_event\<lparr>evType := eventEpochReserve, evReservedUpTo := ?u\<rparr>"
  obtain b old new m where r: "log_rel (log s) os b (old @ new) (length old + d)" "b + length old = L + 1"
    "list_all2 logged es new" "length new = length es" "history m0 es m" "sim m s"
    using tr by (rule traces_logE)
  note ap = append_sync_rel [OF r(1) fin(3)]
  have v: "valid_event m ?e" using r(6) up by (simp add: valid_event_def sim_def)
  have h: "history m0 (es @ [?e]) (m\<lparr>mreserved := ?u\<rparr>)"
    by (rule history.step [OF r(5) v]) (simp add: mem_apply_def)
  have "event_text_ok ?e" by (simp add: event_text_ok_def zero_event_def)
  then have "list_all2 logged (es @ [?e]) (new @ [p])"
    using r(3) fin(2) by (simp add: list_all2_appendI logged_def)
  moreover have "sim (m\<lparr>mreserved := ?u\<rparr>) s'" using r(6) fin(4) by (simp add: sim_def)
  moreover have "log_rel (log s') os' b (old @ (new @ [p])) (length old + (length es + 1))"
    using ap r(4) fin(4) by simp
  ultimately have log: "log_holds m0 L s' os' (es @ [?e]) (length es + 1)" using h r(2) unfolding log_holds_def by blast
  have "traces m0 L s' os' (es @ [?e]) (length es + 1)"
    by (rule traces_moved [OF tr _ _ _ _ _ log]) (use scope_AppendSync [OF fin(3)] fin(4) ap r(2,4) in simp_all)
  then show ?thesis by blast
qed simp

lemma traces_nextEpoch:
  assumes tr: "traces m0 L s os es d" and block: "0 < epochBlockSize s"
    and range: "unat (nextEpoch s) + unat (epochBlockSize s) < 2 ^ 64"
    and ne: "nextEpochLocked s os = (Inr ep, s', os')"
  shows "\<exists>fs d'. d \<le> d' \<and> traces m0 L s' os' (es @ fs) d'"
proof (cases "nextEpoch s > epochReservedUpTo s")
  case False
  then have "s' = s\<lparr>nextEpoch := nextEpoch s + 1\<rparr>" "os' = os" using ne by (auto simp: nextEpochLocked_def)
  then show ?thesis using tr by (intro exI [of _ "[]"] exI [of _ d]) simp
next
  case True
  have "1 \<le> unat (epochBlockSize s)" using block by (simp add: word_less_nat_alt)
  then have up: "epochReservedUpTo s \<le> nextEpoch s + epochBlockSize s - 1"
    using True nextEpoch_reserve(1) [OF range block] by (simp add: word_le_nat_alt word_less_nat_alt)
  obtain s1 where s1: "reserveEpochsLocked s os = (None, s1, os')" "s' = s1\<lparr>nextEpoch := nextEpoch s1 + 1\<rparr>"
    using ne True by (auto simp: nextEpochLocked_def split: prod.splits option.splits)
  obtain e where "traces m0 L s1 os' (es @ [e]) (length es + 1)" using traces_reserve [OF tr s1(1) up] by blast
  then show ?thesis using s1(2) traces_length [OF tr] by (intro exI [of _ "[e]"] exI [of _ "length es + 1"]) simp
qed

section \<open>Critical sections that succeed\<close>

text \<open>What a section may do to the log: append to it, and harden what is there.\<close>

definition extends :: "store \<Rightarrow> os \<Rightarrow> store \<Rightarrow> os \<Rightarrow> bool" where
  "extends s os s' os' \<longleftrightarrow>
     (texts_ok s \<longrightarrow> texts_ok s' \<and>
       (\<forall>m0 L es d. traces m0 L s os es d \<longrightarrow> (\<exists>fs d'. d \<le> d' \<and> traces m0 L s' os' (es @ fs) d')))"

lemma extends_refl [simp]: "extends s os s os"
  unfolding extends_def by (metis append_Nil2 order_refl)

lemma extends_trans: "extends s os s1 os1 \<Longrightarrow> extends s1 os1 s2 os2 \<Longrightarrow> extends s os s2 os2"
  unfolding extends_def by (metis append_assoc order_trans)

lemma extends_same:
  assumes "\<And>m0 L es d. traces m0 L s' os' es d = traces m0 L s os es d" and "jobs s' = jobs s"
  shows "extends s os s' os'"
  using assms texts_ok_same [of s s'] unfolding extends_def by (metis append_Nil2 order_refl)

lemma extends_record:
  assumes rec: "recordLocked s os e = (None, s', os')" and ev: "jobs s (evJobID e) = Some j" "job_event e = Some f"
    and txt_ok: "texts_ok s \<Longrightarrow> event_text_ok e" "texts_ok s \<Longrightarrow> job_text_ok (f j)"
    and valid: "\<And>m k. mjobs m (evJobID e) = Some k \<Longrightarrow> job_sim k j \<Longrightarrow> mreserved m = epochReservedUpTo s \<Longrightarrow> valid_change m e k"
  shows "extends s os s' os'"
proof -
  have ty: "evType e \<noteq> eventEpochReserve" "evType e \<noteq> eventSubmit"
    using ev(2) by (auto simp: job_event_def split: if_splits)
  have "valid_event m e" if "sim m s" for m
  proof -
    obtain k where "mjobs m (evJobID e) = Some k" "job_sim k j" using sim_live [OF \<open>sim m s\<close> ev(1)] by blast
    with valid \<open>sim m s\<close> ty ev(2) show ?thesis by (simp add: valid_event_def sim_def)
  qed
  with traces_record [OF _ rec] txt_ok ty have "texts_ok s \<Longrightarrow> traces m0 L s os es d \<Longrightarrow> \<exists>d'\<ge>d. traces m0 L s' os' (es @ [e]) d'" for m0 L es d
    by blast
  moreover have "texts_ok s \<Longrightarrow> texts_ok s'"
    using texts_ok_update recordLocked_jobs(1) [OF rec ev] txt_ok(2) by blast
  ultimately show ?thesis unfolding extends_def by blast
qed

lemma extends_ack:
  assumes ok: "store_ok s" and "Ack_locked i ep s os = (Flush u, s', os')"
  shows "extends s os s' os'"
  using assms(2)
proof (cases rule: Ack_locked_cases)
  case (fin j)
  let ?e = "zero_event\<lparr>evType := eventAck, evJobID := i, evEpoch := ep\<rparr>"
  have tx: "texts_ok s \<Longrightarrow> job_text_ok j" "ID j = i" using fin(1) store_ok_ID [OF ok fin(1)] by (auto simp: texts_ok_def)
  show ?thesis
  proof (rule extends_record [OF fin(4), where j = j and f = "apply_ack"])
    show "texts_ok s \<Longrightarrow> event_text_ok ?e" using tx by (auto simp: event_text_ok_def job_text_ok_def zero_event_def)
    show "texts_ok s \<Longrightarrow> job_text_ok (apply_ack j)" using tx by (auto simp: job_text_ok_def apply_ack_def)
    show "valid_change m ?e k" if "job_sim k j" for m k
      using fin(2) job_sim_leased [OF that] that by (auto simp: valid_change_def holdsLease_def job_sim_def)
  qed (use fin(1) in simp_all)
qed simp_all

lemma extends_fail:
  assumes ok: "store_ok s" and fl: "failLocked j reason timeout now r s os = (Inr dead, s', os')"
    and j: "jobs s (ID j) = Some j" "State j = StateLeased" and reason: "valid_utf8 reason"
  shows "extends s os s' os'"
proof -
  let ?e = "fail_event j reason timeout now r s"
  obtain s1 where rec: "recordLocked s os ?e = (None, s1, os')"
    and s': "s' = s1 \<or> s' = s1\<lparr>index := index_push (index s1) (apply_fail ?e j) now\<rparr>"
    using fl by (auto simp: failLocked_def fail_event_def Let_def split: prod.splits option.splits if_splits)
  have ty: "evType ?e = eventFail" "evNextState ?e \<in> {StateRetryWait, StateDeadLetter}" "evWorkerID ?e = []"
    by (simp_all add: fail_event_def zero_event_def)
  have tx: "texts_ok s \<Longrightarrow> job_text_ok j" using j(1) by (auto simp: texts_ok_def)
  have "extends s os s1 os'"
  proof (rule extends_record [OF rec, where j = j and f = "apply_fail ?e"])
    show "texts_ok s \<Longrightarrow> event_text_ok ?e" using tx reason ty(3) by (auto simp: event_text_ok_def job_text_ok_def)
    show "texts_ok s \<Longrightarrow> job_text_ok (apply_fail ?e j)" using tx reason by (auto simp: job_text_ok_def apply_fail_def)
    show "valid_change m ?e k" if "job_sim k j" for m k
      using ty job_sim_leased [OF that j(2)] that by (auto simp: valid_change_def job_sim_def)
  qed (use j(1) in simp_all)
  moreover have "extends s1 os' s' os'" using s' by (auto intro: extends_same)
  ultimately show ?thesis by (rule extends_trans)
qed

lemma extends_nack:
  assumes ok: "store_ok s" and "Nack_locked i ep reason now r s os = (Flush u, s', os')" and reason: "valid_utf8 reason"
  shows "extends s os s' os'"
  using assms(2)
proof (cases rule: Nack_locked_cases)
  case (held j res)
  have "valid_utf8 (if reason = [] then ''handler reported failure'' else reason)" using reason by simp
  with held extends_fail [OF ok _ _ _ this] store_ok_ID [OF ok held(1)] show ?thesis
    by (cases res) (auto simp: holdsLease_def)
qed simp_all

lemma extends_replay:
  assumes ok: "store_ok s" and "ReplayJob_locked i now s os = (Flush u, s', os')"
  shows "extends s os s' os'"
  using assms(2)
proof (cases rule: ReplayJob_locked_cases)
  case (fin j s1)
  let ?e = "zero_event\<lparr>evType := eventReplayJob, evJobID := i, evEligibleAt := now\<rparr>"
  have tx: "texts_ok s \<Longrightarrow> job_text_ok j" "ID j = i" using fin(1) store_ok_ID [OF ok fin(1)] by (auto simp: texts_ok_def)
  have "extends s os s1 os'"
  proof (rule extends_record [OF fin(4), where j = j and f = "apply_replay ?e"])
    show "texts_ok s \<Longrightarrow> event_text_ok ?e" using tx by (auto simp: event_text_ok_def job_text_ok_def zero_event_def)
    show "texts_ok s \<Longrightarrow> job_text_ok (apply_replay ?e j)" using tx by (auto simp: job_text_ok_def apply_replay_def)
    show "valid_change m ?e k" if "job_sim k j" for m k
      using fin(2) job_sim_dead [OF that fin(2)] by (auto simp: valid_change_def)
  qed (use fin(1) in simp_all)
  moreover have "extends s1 os' s' os'" using fin(5) by (auto intro: extends_same)
  ultimately show ?thesis by (rule extends_trans)
qed simp_all

lemma extends_submit:
  assumes ok: "store_ok s" and "Submit_locked p nano rnd now s os = (Flush u, s', os')"
    and fresh: "fresh_id s nano rnd" and params: "params_ok p"
  shows "extends s os s' os'"
  using assms(2)
proof (cases rule: Submit_locked_cases)
  case (accepted i s1)
  let ?j = "submitted_job p i now"
  let ?e = "zero_event\<lparr>evType := eventSubmit, evJob := Some ?j\<rparr>"
  have new: "jobs s (ID ?j) = None" using fresh_idD [OF fresh accepted(2)] by (simp add: submitted_job_def)
  have tj: "job_text_ok ?j" using submitted_text [OF params accepted(2)] .
  have te: "event_text_ok ?e" using tj by (simp add: event_text_ok_def zero_event_def)
  have "valid_event m ?e" if "sim m s" for m
  proof -
    have "mjobs m (ID ?j) = None" using that new unfolding sim_def by (metis domIff)
    moreover have "midem m = idem s" using that by (simp add: sim_def)
    ultimately show ?thesis
      using accepted(3) by (auto simp: valid_event_def valid_submit_def submitted_job_def)
  qed
  then have "\<exists>d'\<ge>d. traces m0 L s1 os' (es @ [?e]) d'" if "traces m0 L s os es d" for m0 L es d
    using traces_record [OF that accepted(4) te] by simp
  moreover have "texts_ok s \<Longrightarrow> texts_ok s1"
  proof -
    obtain t w l where t: "store_apply s ?e = Inr t" "s1 = t\<lparr>log := w, lastLSN := l\<rparr>"
      using accepted(4) by (rule recordLocked_done)
    have "jobs t = (jobs s)(ID ?j \<mapsto> ?j)" using t(1) by (auto simp: store_apply_def)
    then show "texts_ok s \<Longrightarrow> texts_ok s1" using texts_ok_update [OF _ tj] t(2) by simp
  qed
  ultimately have "extends s os s1 os'" unfolding extends_def by blast
  moreover have "extends s1 os' s' os'" using accepted(6) by (auto intro: extends_same)
  ultimately show ?thesis by (rule extends_trans)
qed auto

lemma extends_lease:
  assumes ok: "store_ok s" and range: "in_range s" and "Lease queue w dur now s os = (Inr r, s', os')"
    and worker: "valid_utf8 w"
  shows "extends s os s' os'"
  using ok range assms(3)
proof (cases rule: Lease_cases)
  case (empty q)
  then show ?thesis by (auto intro: extends_same)
next
  case (leased q cand idx j s1 os1 u l n)
  let ?s = "s\<lparr>index := idx\<rparr>" and ?e = "lease_event j (nextEpoch s) w (now + dur)"
  have j: "jobs s (ID j) = Some j" using leased(4,7) by simp
  have range': "unat (nextEpoch ?s) + unat (epochBlockSize ?s) < 2 ^ 64" "0 < epochBlockSize ?s"
    using range ok by (simp_all add: in_range_def store_ok_def epochs_ok_def)
  have 1: "extends s os ?s os" by (auto intro: extends_same)
  have js: "jobs s1 = jobs s" "nextEpoch s \<le> epochReservedUpTo s1"
    using leased(8) range' by (cases rule: nextEpochLocked_cases; simp)+
  have 2: "extends ?s os s1 os1"
    using traces_nextEpoch [OF _ range'(2,1) leased(8)] texts_ok_same [of ?s s1] js(1) unfolding extends_def by simp
  have 3: "extends s1 os1 s' os'"
  proof (rule extends_record [OF leased(9), where j = j and f = "apply_lease ?e"])
    have tx: "texts_ok s1 \<Longrightarrow> job_text_ok j" using j js(1) by (auto simp: texts_ok_def)
    have a: "int64_ok (Attempt j + 1)" using range j by (auto simp: in_range_def)
    show "texts_ok s1 \<Longrightarrow> event_text_ok ?e"
      using tx a worker by (auto simp: event_text_ok_def job_text_ok_def lease_event_def zero_event_def)
    show "texts_ok s1 \<Longrightarrow> job_text_ok (apply_lease ?e j)"
      using tx a worker by (auto simp: job_text_ok_def apply_lease_def)
    show "valid_change m ?e k" if "job_sim k j" "mreserved m = epochReservedUpTo s1" for m k
      using leased(5) job_sim_leasable [OF that(1) leased(5)] that js(2) store_ok_epoch [OF ok j]
      by (auto simp: valid_change_def job_sim_def)
  qed (use j js(1) in simp_all)
  show ?thesis using extends_trans [OF 1 extends_trans [OF 2 3]] .
qed simp

lemma extends_heartbeat:
  assumes ok: "store_ok s" and hb: "Heartbeat i ep dur now s = (res, s')"
  shows "extends s os s' os"
proof (cases "\<exists>j. jobs s i = Some j \<and> holdsLease j ep")
  case False
  then have "s' = s" using hb by (auto simp: Heartbeat_def split: option.splits if_splits)
  then show ?thesis by simp
next
  case True
  then obtain j where j: "jobs s i = Some j" "State j = StateLeased" by (auto simp: holdsLease_def)
  let ?j = "j\<lparr>LeaseExpiresAt := now + dur\<rparr>"
  have s': "s' = s\<lparr>jobs := (jobs s)(i \<mapsto> ?j)\<rparr>" using hb True j by (auto simp: Heartbeat_def)
  have sim: "sim m s'" if "sim m s" for m
  proof -
    obtain k where k: "mjobs m i = Some k" "job_sim k j" using sim_live [OF \<open>sim m s\<close> j(1)] by blast
    have "(mjobs m)(i \<mapsto> k) = mjobs m" using k(1) by (rule map_upd_triv)
    then have "m\<lparr>mjobs := (mjobs m)(i \<mapsto> k)\<rparr> = m" by simp
    moreover have "sim (m\<lparr>mjobs := (mjobs m)(i \<mapsto> k)\<rparr>) s'"
      unfolding s' by (rule sim_update [OF \<open>sim m s\<close> j(1) k(1) job_sim_heartbeat [OF k(2) j(2)]])
    ultimately show ?thesis by (rule back_subst [of "\<lambda>m. sim m s'", rotated])
  qed
  have same: "log s' = log s" "sdir s' = sdir s" "snapDir s' = snapDir s" "lastLSN s' = lastLSN s" by (simp_all add: s')
  have tr: "traces m0 L s' os (es @ []) d" if "traces m0 L s os es d" for m0 L es d
  proof -
    have "log_holds m0 L s' os es d" using that sim same(1) unfolding traces_def log_holds_def by metis
    then show ?thesis using that same by (intro traces_moved [OF that]) (simp_all add: traces_def)
  qed
  have "texts_ok s'" if "texts_ok s"
  proof (rule texts_ok_update [OF that])
    show "job_text_ok ?j" using that j(1) by (auto simp: texts_ok_def job_text_ok_def)
    show "jobs s' = (jobs s)(i \<mapsto> ?j)" by (simp add: s')
  qed
  then show ?thesis using tr unfolding extends_def by blast
qed

lemma extends_reclaim:
  assumes ok: "store_ok s" and "reclaim_loop draw now ids acc s os = (None, acc', s', os')"
  shows "extends s os s' os'"
  by (rule reclaim_loop_rule [OF assms, where R = extends])
    (auto intro: extends_trans extends_fail)

lemma extends_commit:
  assumes "commitDurable s os = (None, s', os')"
  shows "extends s os s' os'"
proof -
  obtain w f where "s' = s\<lparr>log := w, failed := f\<rparr>" using assms by (rule commitDurable_frame)
  then have "texts_ok s \<Longrightarrow> texts_ok s'" by (simp add: texts_ok_def)
  moreover have "\<exists>fs d'. d \<le> d' \<and> traces m0 L s' os' (es @ fs) d'" if "traces m0 L s os es d" for m0 L es d
    using traces_commit(1) [OF that assms] traces_length [OF that] by (metis append_Nil2)
  ultimately show ?thesis by (simp add: extends_def)
qed

text \<open>
  The critical sections that report success: the ones an acknowledged request consists
  of.  What a section that refuses or fails leaves behind is the subject of
  \<open>Cv_Lifecycle\<close>.
\<close>

inductive ok_step :: "store \<times> os \<Rightarrow> store \<times> os \<Rightarrow> bool" where
  submit: "Submit_locked p nano rnd now s os = (Flush u, s', os') \<Longrightarrow> fresh_id s nano rnd \<Longrightarrow> params_ok p \<Longrightarrow>
    ok_step (s, os) (s', os')"
| lease: "Lease queue w dur now s os = (Inr r, s', os') \<Longrightarrow> in_range s \<Longrightarrow> valid_utf8 w \<Longrightarrow> ok_step (s, os) (s', os')"
| ack: "Ack_locked i ep s os = (Flush ua, s', os') \<Longrightarrow> ok_step (s, os) (s', os')"
| nack: "Nack_locked i ep reason now d s os = (Flush un, s', os') \<Longrightarrow> valid_utf8 reason \<Longrightarrow> ok_step (s, os) (s', os')"
| heartbeat: "Heartbeat i ep dur now s = (rh, s') \<Longrightarrow> ok_step (s, os) (s', os)"
| reclaim: "reclaim_loop draw now ids [] s os = (None, acc, s', os') \<Longrightarrow> ok_step (s, os) (s', os')"
| replay: "ReplayJob_locked i now s os = (Flush ur, s', os') \<Longrightarrow> ok_step (s, os) (s', os')"
| commit: "commitDurable s os = (None, s', os') \<Longrightarrow> ok_step (s, os) (s', os')"
| notify: "ok_step (s, os) (s\<lparr>notifyCh := b\<rparr>, os)"

lemma ok_step_store_step: "ok_step x y \<Longrightarrow> store_step x y"
  by (induction rule: ok_step.induct) (rule store_step.intros; assumption)+

lemma ok_step_extends:
  assumes "ok_step (s, os) (s', os')" and ok: "store_ok s"
  shows "extends s os s' os'"
  using assms(1)
proof cases
  case submit
  then show ?thesis using extends_submit [OF ok] by blast
next
  case lease
  then show ?thesis using extends_lease [OF ok] by blast
next
  case ack
  then show ?thesis using extends_ack [OF ok] by blast
next
  case nack
  then show ?thesis using extends_nack [OF ok] by blast
next
  case heartbeat
  then show ?thesis using extends_heartbeat [OF ok] by blast
next
  case reclaim
  then show ?thesis using extends_reclaim [OF ok] by blast
next
  case replay
  then show ?thesis using extends_replay [OF ok] by blast
next
  case commit
  then show ?thesis using extends_commit by blast
next
  case notify
  then show ?thesis by (auto intro: extends_same)
qed

abbreviation ok_steps :: "store \<times> os \<Rightarrow> store \<times> os \<Rightarrow> bool" where "ok_steps \<equiv> ok_step\<^sup>*\<^sup>*"

lemma ok_steps_extends:
  assumes "ok_steps (s, os) (s', os')" and "live s"
  shows "extends s os s' os' \<and> live s' \<and> evolves s s' \<and> nextEpoch s \<le> nextEpoch s'"
  using assms
proof (induction rule: rtranclp_induct2)
  case (step s1 os1 s2 os2)
  then have 1: "extends s os s1 os1" "live s1" "evolves s s1" "nextEpoch s \<le> nextEpoch s1" by simp_all
  then have ok: "store_ok s1" by (simp add: live_def)
  note st = ok_step_store_step [OF step(2)]
  show ?case
    using extends_trans [OF 1(1) ok_step_extends [OF step(2) ok]] store_step_live [OF st 1(2)]
      evolves_trans [OF 1(3) store_step_evolves [OF st ok]] 1(4) by auto
qed simp

end
