(* ===== verification/Cv_Reopen.thy ===== *)
theory Cv_Reopen
  imports Cv_Durable
begin

text \<open>
  Recovery.  \<^verbatim>\<open>Open\<close> on what a crash left of a store: it succeeds on a healthy disk, the
  jobs it comes back with are those of a prefix of the log that contains everything
  flushed, and the invariants hold again.
\<close>

section \<open>Reading the snapshot\<close>

lemma snapshotName_lsn: "L < 2 ^ 64 \<Longrightarrow> snapshot_lsn (snapshotName L, RegFile f) = Some (snapshotName L, L)"
  by (simp add: snapshot_lsn_def snapshotName_def suffix_def ParseUint_pad20 del: power_numeral)

lemma snapshot_lsn_file: "snapshot_lsn (n, e) = Some (m, l) \<Longrightarrow> m = n \<and> (\<exists>f. e = RegFile f)"
  by (cases e) (auto simp: snapshot_lsn_def split: if_splits)

lemma snapshot_lsn_regular: "snapshot_lsn (n, RegFile f) = snapshot_lsn (n, RegFile g)"
  by (simp add: snapshot_lsn_def)

lemma crash_map_of:
  assumes "crash os os1" and "map_of (dirs os1 d) n = Some e1" and "snapshot_lsn (n, e1) = Some (n, l)"
  shows "\<exists>e. map_of (dirs os d) n = Some e \<and> snapshot_lsn (n, e) = Some (n, l)"
proof -
  obtain f1 where f1: "e1 = RegFile f1" using snapshot_lsn_file [OF assms(3)] by blast
  have cr: "case map_of (dirs os d) n of None \<Rightarrow> map_of (dirs os1 d) n = None | Some e \<Rightarrow> crash_entry e (map_of (dirs os1 d) n)"
    using assms(1) unfolding crash_def by blast
  then obtain e where e: "map_of (dirs os d) n = Some e" using assms(2) by (cases "map_of (dirs os d) n") auto
  with cr assms(2) f1 obtain f where "e = RegFile f" by (cases e) (auto simp: crash_entry_def)
  with e assms(3) f1 snapshot_lsn_regular [of n f f1] show ?thesis by auto
qed

lemma intact_crash:
  assumes "crash os os1" and "file_at os d n = Some f" and "intact f"
  shows "\<exists>g. file_at os1 d n = Some g \<and> intact g \<and> fdata g = fdata f"
proof -
  obtain g where g: "file_at os1 d n = Some g" "crash_file f g"
    using crash_linked_file [OF assms(1,2)] assms(3) by (auto simp: intact_def)
  then show ?thesis using assms(3) by (auto simp: crash_file_def intact_def)
qed

lemma no_snap_crash:
  assumes "crash os os1" and none: "no_snap os dir"
  shows "no_snap os1 dir"
  unfolding no_snap_def
proof (intro allI impI)
  fix n e assume e: "map_of (dirs os1 dir) n = Some e"
  show "snapshot_lsn (n, e) = None"
  proof (rule ccontr)
    assume "snapshot_lsn (n, e) \<noteq> None"
    then obtain m l where ml: "snapshot_lsn (n, e) = Some (m, l)" by (cases "snapshot_lsn (n, e)") auto
    then have "snapshot_lsn (n, e) = Some (n, l)" using snapshot_lsn_file by blast
    from crash_map_of [OF assms(1) e this] none show False by (auto simp: no_snap_def)
  qed
qed

lemma newest_snap_crash:
  assumes cr: "crash os os1" and n: "newest_snap os dir m0 L"
  shows "newest_snap os1 dir m0 L"
proof -
  obtain f sn where f: "L < 2 ^ 64" "file_at os dir (snapshotName L) = Some f" "intact f"
      "decodeSnapshot (fdata f) = Some sn" "unat (snLastLSN sn) = L" "restores sn m0"
    and top: "\<And>n e l. map_of (dirs os dir) n = Some e \<Longrightarrow> snapshot_lsn (n, e) = Some (n, l) \<Longrightarrow> l < L \<or> n = snapshotName L"
    using n unfolding newest_snap_def by blast
  obtain g where g: "file_at os1 dir (snapshotName L) = Some g" "intact g" "fdata g = fdata f"
    using intact_crash [OF cr f(2,3)] by blast
  have "l < L \<or> n = snapshotName L"
    if "map_of (dirs os1 dir) n = Some e" "snapshot_lsn (n, e) = Some (n, l)" for n e l
    using crash_map_of [OF cr that] top by blast
  moreover have "decodeSnapshot (fdata g) = Some sn" using f(4) g(3) by simp
  ultimately show ?thesis using f(1,5,6) g(1,2) unfolding newest_snap_def by blast
qed

lemma snap_on_crash:
  assumes "snap_on os dir m0 L" and cr: "crash os os1"
  shows "snap_on os1 dir m0 L"
proof -
  have "distinct (map fst (dirs os1 dir))" using cr by (simp add: crash_def)
  with assms no_snap_crash [OF cr] newest_snap_crash [OF cr] show ?thesis unfolding snap_on_def by blast
qed

lemma mem_map_filter: "y \<in> set (List.map_filter f xs) \<longleftrightarrow> (\<exists>x \<in> set xs. f x = Some y)"
  by (induction xs) (auto simp: List.map_filter_simps split: option.splits)

definition found_snaps :: "os \<Rightarrow> string \<Rightarrow> (string \<times> nat) list" where
  "found_snaps os dir = sort_key snd (List.map_filter snapshot_lsn (sort_key fst (dirs os dir)))"

lemma set_found_snaps:
  assumes "distinct (map fst (dirs os dir))"
  shows "(n, l) \<in> set (found_snaps os dir) \<longleftrightarrow> (\<exists>e. map_of (dirs os dir) n = Some e \<and> snapshot_lsn (n, e) = Some (n, l))"
proof -
  have "(n, l) \<in> set (found_snaps os dir) \<longleftrightarrow> (\<exists>x \<in> set (dirs os dir). snapshot_lsn x = Some (n, l))"
    by (simp add: found_snaps_def mem_map_filter)
  also have "\<dots> \<longleftrightarrow> (\<exists>e. (n, e) \<in> set (dirs os dir) \<and> snapshot_lsn (n, e) = Some (n, l))"
    using snapshot_lsn_file by fast
  also have "\<dots> \<longleftrightarrow> (\<exists>e. map_of (dirs os dir) n = Some e \<and> snapshot_lsn (n, e) = Some (n, l))"
    by (simp add: map_of_eq_Some_iff [OF assms])
  finally show ?thesis .
qed

lemma listed_snapshots:
  "faults os = [] \<Longrightarrow> listSnapshots os dir = (Inr (map fst (found_snaps os dir)), os)"
  by (simp add: listSnapshots_def os_readdir_def found_snaps_def)

lemma sorted_found_snaps: "sorted (map snd (found_snaps os dir))"
  by (simp add: found_snaps_def)

text \<open>The newest snapshot comes last.\<close>

lemma newest_last:
  assumes d: "distinct (map fst (dirs os dir))" and n: "newest_snap os dir m0 L"
  shows "\<exists>xs. found_snaps os dir = xs @ [(snapshotName L, L)]"
proof -
  note mem = set_found_snaps [OF d]
  have L: "L < 2 ^ 64" using n by (simp add: newest_snap_def)
  obtain f where "map_of (dirs os dir) (snapshotName L) = Some (RegFile f)"
    using n by (auto simp: newest_snap_def file_at_def split: option.splits dirent.splits)
  then have top: "(snapshotName L, L) \<in> set (found_snaps os dir)" using mem snapshotName_lsn [OF L] by blast
  then obtain ys y where ys: "found_snaps os dir = ys @ [y]" by (metis empty_iff list.set(1) rev_exhaust)
  obtain m l where y: "y = (m, l)" by fastforce
  have "L \<le> l" using sorted_found_snaps [of os dir] top ys y by (auto simp: sorted_append)
  moreover have "(m, l) \<in> set (found_snaps os dir)" using ys y by simp
  then obtain e where "map_of (dirs os dir) m = Some e" "snapshot_lsn (m, e) = Some (m, l)" using mem by blast
  then have m: "l < L \<or> m = snapshotName L" and e: "snapshot_lsn (m, e) = Some (m, l)"
    using n by (auto simp: newest_snap_def)
  ultimately have "m = snapshotName L" by simp
  then have "l = L" using e snapshotName_lsn [OF L] snapshot_lsn_file by (metis Pair_inject option.inject)
  with \<open>m = snapshotName L\<close> ys y show ?thesis by blast
qed

text \<open>What neither loading nor replaying touches.\<close>

definition settings :: "store \<Rightarrow> wal \<times> string \<times> string \<times> duration \<times> duration \<times> u64 \<times> store_error option \<times> bool" where
  "settings s =
     (log s, sdir s, snapDir s, backoffBase s, backoffCap s, epochBlockSize s, failed s, notifyCh s)"

lemma load_jobs_frame:
  "load_jobs js s = Some s' \<Longrightarrow> settings s' = settings s \<and> lastLSN s' = lastLSN s"
proof (induction js s arbitrary: s' rule: load_jobs.induct)
  case (3 j js s)
  from 3(2) have "load_jobs js (s\<lparr>jobs := (jobs s)(ID j \<mapsto> j),
          idem := (if IdempotencyKey j \<noteq> []
                   then (idem s)(idemKey (Queue j) (IdempotencyKey j) \<mapsto> ID j) else idem s),
          leased := (if State j = StateLeased then insert (ID j) (leased s) else leased s)\<rparr>) = Some s'" by simp
  from 3(1) [OF this] show ?case by (simp add: settings_def)
qed simp_all

text \<open>The newest snapshot is the one that is loaded.\<close>

lemma load_newest:
  assumes snap: "snap_on os (snapDir s) m0 L" and ok: "faults os = []"
    and blank: "jobs s = Map.empty" "idem s = Map.empty" "epochReservedUpTo s = 0"
  shows "\<exists>s'. loadLatestSnapshot s os = (Inr L, s', os) \<and> mem_of s' = m0 \<and>
    settings s' = settings s \<and> lastLSN s' = lastLSN s"
proof (cases "newest_snap os (snapDir s) m0 L")
  case False
  then have ns: "no_snap os (snapDir s)" "m0 = empty_memory" "L = 0" and d: "distinct (map fst (dirs os (snapDir s)))"
    using snap by (auto simp: snap_on_def)
  have "x \<notin> set (found_snaps os (snapDir s))" for x
    using ns(1) set_found_snaps [OF d, of "fst x" "snd x"] by (auto simp: no_snap_def)
  then have "found_snaps os (snapDir s) = []" by (metis list.set_sel(1))
  then have "loadLatestSnapshot s os = (Inr L, s, os)"
    using ns(3) by (simp add: loadLatestSnapshot_def listed_snapshots [OF ok])
  moreover have "mem_of s = m0" using blank ns(2) by (simp add: mem_of_def empty_memory_def)
  ultimately show ?thesis by blast
next
  case True
  have d: "distinct (map fst (dirs os (snapDir s)))" using snap by (simp add: snap_on_def)
  obtain f sn where f: "file_at os (snapDir s) (snapshotName L) = Some f" "decodeSnapshot (fdata f) = Some sn"
    "unat (snLastLSN sn) = L" "restores sn m0"
    using True unfolding newest_snap_def by blast
  obtain xs where xs: "found_snaps os (snapDir s) = xs @ [(snapshotName L, L)]"
    using newest_last [OF d True] by blast
  obtain s' where s': "load_jobs (snJobs sn) s = Some s'" "jobs s' = mjobs m0" "idem s' = midem m0"
    using f(4) blank by (auto simp: restores_def)
  have fr: "settings (s'\<lparr>epochReservedUpTo := snReservedUpTo sn\<rparr>) = settings s"
      "lastLSN (s'\<lparr>epochReservedUpTo := snReservedUpTo sn\<rparr>) = lastLSN s"
    using load_jobs_frame [OF s'(1)] by (simp_all add: settings_def)
  have "loadLatestSnapshot s os = (Inr L, s'\<lparr>epochReservedUpTo := snReservedUpTo sn\<rparr>, os)"
    using f s'(1) ok by (simp add: loadLatestSnapshot_def listed_snapshots [OF ok] xs os_open_def os_read_def)
  moreover have "mem_of (s'\<lparr>epochReservedUpTo := snReservedUpTo sn\<rparr>) = m0"
    using s' f(4) by (simp add: mem_of_def restores_def)
  ultimately show ?thesis using fr by blast
qed

section \<open>Replaying the log\<close>

lemma replay_events:
  assumes "history (mem_of s) es m" and "list_all2 logged es rs" and "lo \<le> l"
  shows "\<exists>s'. replay_from lo replay_event l rs s = Inr s' \<and> mem_of s' = m \<and> settings s' = settings s \<and>
    lastLSN s' = (if es = [] then lastLSN s else l + length es - 1)"
  using assms(1,2)
proof (induction arbitrary: rs rule: history.induct)
  case (step es m e m')
  obtain qs r where rs: "rs = qs @ [r]" "list_all2 logged es qs" "logged e r"
    using step.prems by (auto simp: list_all2_append1 list_all2_Cons1)
  obtain t where t: "replay_from lo replay_event l qs s = Inr t" "mem_of t = m" "settings t = settings s"
    using step.IH [OF rs(2)] by blast
  have len: "length qs = length es" using rs(2) by (simp add: list_all2_lengthD)
  have dec: "decodeEvent r = Some e" using rs(3) decode_encodeEvent by (auto simp: logged_def)
  obtain u where u: "store_apply t e = Inr u" "mem_of u = m'"
    using step.hyps(3) t(2) store_apply_refines [of e t] by (auto split: sum.splits)
  have "replay_from lo replay_event l rs s = Inr (u\<lparr>lastLSN := l + length es\<rparr>)"
    using t(1) len assms(3) dec u(1) rs(1) by (simp add: replay_from_append replay_event_def)
  moreover have "settings (u\<lparr>lastLSN := l + length es\<rparr>) = settings s"
    using store_apply_frame [OF u(1)] t(3) by (simp add: settings_def)
  ultimately show ?case using u(2) by simp
qed simp

section \<open>Rebuilding the derived state\<close>

definition enumerates :: "((string \<rightharpoonup> job) \<Rightarrow> string list) \<Rightarrow> bool" where
  "enumerates visit \<longleftrightarrow> (\<forall>m. finite (dom m) \<longrightarrow> set (visit m) = dom m)"

lemma rebuild_loop_filed:
  "index_ok i \<Longrightarrow> index_ok (rebuild_loop now js i) \<and>
     (e \<in># filed (rebuild_loop now js i) n \<longleftrightarrow>
        e \<in># filed i n \<or> (\<exists>j \<in> set js. Leasable (State j) \<and> Queue j = n \<and> e = entry_of j))"
proof (induction js arbitrary: i)
  case (Cons j js)
  then have "index_ok (if Leasable (State j) then index_push i j now else i)" by (simp add: index_ok_push)
  from Cons.IH [OF this] show ?case by (auto simp: filed_push)
qed simp

lemma recover_job_simps [simp]:
  "ID (recover_job now j) = ID j" "Queue (recover_job now j) = Queue j"
  "IdempotencyKey (recover_job now j) = IdempotencyKey j" "Epoch (recover_job now j) = Epoch j"
  "State (recover_job now j) \<noteq> StateLeased" "Priority (recover_job now j) = Priority j"
  "EnqueuedAt (recover_job now j) = EnqueuedAt j"
  by (simp_all add: recover_job_def)

lemma job_sim_recover: "job_sim k (recover_job now k)"
  by (simp add: recover_job_def job_sim_def same_spec_def)

lemma recover_text: "job_text_ok j \<Longrightarrow> job_text_ok (recover_job now j)"
  by (simp add: recover_job_def job_text_ok_def)

lemma finish_open_fields [simp]:
  "jobs (finish_open visit now s) = map_option (recover_job now) \<circ> jobs s" "leased (finish_open visit now s) = {}"
  "idem (finish_open visit now s) = idem s" "epochReservedUpTo (finish_open visit now s) = epochReservedUpTo s"
  "nextEpoch (finish_open visit now s) = epochReservedUpTo s + 1" "lastLSN (finish_open visit now s) = lastLSN s"
  "settings (finish_open visit now s) = settings s"
  by (simp_all add: finish_open_def rebuildIndexLocked_def recoverLeasedLocked_def Let_def settings_def)

lemma finish_open_filed:
  assumes "finite (dom (jobs s))" and v: "enumerates visit"
  shows "index_ok (index (finish_open visit now s))"
    and "e \<in># filed (index (finish_open visit now s)) n \<longleftrightarrow>
      (\<exists>i j. jobs s i = Some j \<and> Leasable (State (recover_job now j)) \<and> Queue j = n \<and> e = entry_of (recover_job now j))"
proof -
  let ?J = "map_option (recover_job now) \<circ> jobs s"
  have "finite (dom ?J)" using assms(1) by (simp add: dom_map_option_comp)
  then have "set (visit ?J) = dom (jobs s)" using v by (simp add: enumerates_def dom_map_option_comp)
  then have mem: "x \<in> set (List.map_filter ?J (visit ?J)) \<longleftrightarrow> (\<exists>i j. jobs s i = Some j \<and> x = recover_job now j)" for x
    by (auto simp: mem_map_filter dom_def)
  have idx: "index (finish_open visit now s) = rebuild_loop now (List.map_filter ?J (visit ?J)) newScheduleIndex"
    by (simp add: finish_open_def rebuildIndexLocked_def recoverLeasedLocked_def Let_def)
  show "index_ok (index (finish_open visit now s))"
    unfolding idx using rebuild_loop_filed [OF index_ok_new] by blast
  have "e \<in># filed (index (finish_open visit now s)) n \<longleftrightarrow>
      (\<exists>x. x \<in> set (List.map_filter ?J (visit ?J)) \<and> Leasable (State x) \<and> Queue x = n \<and> e = entry_of x)"
    unfolding idx using rebuild_loop_filed [OF index_ok_new, THEN conjunct2, of e now "List.map_filter ?J (visit ?J)" n]
    by (simp add: Bex_def)
  also have "\<dots> \<longleftrightarrow> (\<exists>i j. jobs s i = Some j \<and> Leasable (State (recover_job now j)) \<and> Queue j = n \<and>
      e = entry_of (recover_job now j))"
    unfolding mem by (metis recover_job_simps(2))
  finally show "e \<in># filed (index (finish_open visit now s)) n \<longleftrightarrow>
      (\<exists>i j. jobs s i = Some j \<and> Leasable (State (recover_job now j)) \<and> Queue j = n \<and> e = entry_of (recover_job now j))" .
qed

lemma finish_open_ok:
  assumes ok: "mem_ok (mem_of s)" and v: "enumerates visit" and range: "unat (epochReservedUpTo s) + 1 < 2 ^ 64"
    and block: "0 < epochBlockSize s"
  shows "live (finish_open visit now s)" and "sim (mem_of s) (finish_open visit now s)"
    and "entries_ok (finish_open visit now s)"
proof -
  let ?t = "finish_open visit now s"
  have j: "ID j = i" "Epoch j \<le> epochReservedUpTo s" if "jobs s i = Some j" for i j
    using ok that by (auto simp: mem_ok_def mem_of_def)
  have fin: "finite (dom (jobs s))" using ok by (simp add: mem_ok_def mem_of_def)
  note filed = finish_open_filed [OF fin v, where now = now]
  have n: "unat (epochReservedUpTo s + 1) = unat (epochReservedUpTo s) + 1"
    using range by (subst unat_word_ariths) simp
  have "jobs_ok ?t" using j(1) fin by (auto simp: jobs_ok_def dom_map_option_comp)
  moreover have "idem_ok ?t"
    using ok by (fastforce simp: idem_ok_def mem_ok_def mem_of_def)
  moreover have "scheduled ?t"
    using filed by (auto simp: scheduled_def) blast
  moreover have "epochBlockSize ?t = epochBlockSize s"
    by (simp add: finish_open_def rebuildIndexLocked_def recoverLeasedLocked_def Let_def)
  then have "epochs_ok ?t"
    using j(2) n block by (auto simp: epochs_ok_def word_less_nat_alt word_le_nat_alt less_Suc_eq_le)
  ultimately show "live ?t" using n by (simp add: live_def store_ok_def word_less_nat_alt)
  show "sim (mem_of s) ?t" using job_sim_recover by (auto simp: sim_def mem_of_def dom_map_option_comp)
  show "entries_ok ?t"
    using filed(2) j(1) by (auto simp: entries_ok_def entry_ok_def)
qed

section \<open>Opening after a crash\<close>

lemma replay_healthy:
  assumes rel: "log_rel w os b rs d" and lo: "lo < 2 ^ 64 - 1" and ok: "faults os = []"
  shows "\<exists>w' os'. wal_Replay w os lo fn s = (replay_result (replay_from lo fn b rs s), w', os') \<and> faults os' = []"
proof -
  obtain old cur where r: "wal_rel w os b old cur" "rs = concat old @ cur"
    using rel by (auto simp: log_rel_def)
  have open_log: "\<not> closed w" using r(1) by (simp add: wal_rel_def Let_def)
  obtain os1 where fl: "flushBufferLocked w os = (None, w\<lparr>buf := []\<rparr>, os1)" "faults os1 = []"
    using flush_healthy [OF r(1) ok] by blast
  note f = flush_rel [OF r(1) fl(1)]
  have b: "bases (w\<lparr>buf := []\<rparr>) = seg_bases b (old @ [cur])" and pay: "list_all payload_ok (concat (old @ [cur]))"
    using f(1) by (simp_all add: wal_rel_def Let_def)
  have "seg_files os1 (wdir w) b (old @ [cur])" using wal_rel_seg_files [OF f(1,2)] by simp
  from replay_loop_healthy [OF this pay lo fl(2), of fn s, folded b] show ?thesis
    using open_log fl r(2) by (simp add: wal_Replay_def)
qed

text \<open>What the log relation says after an \<^verbatim>\<open>Open\<close> that followed a crash.\<close>

lemma reopened_log:
  assumes tr: "traces m0 L s os es d" and cr: "crash os os1" and ok: "faults os1 = []"
    and lim: "L + length es + 1 < 2 ^ 64"
  obtains w os2 b old new n k m where
    "wal_Open \<lparr>optDir = path_Join (sdir s) walDirName, optMaxSegmentSize = seg\<rparr> os1 = (Inr w, os2)" "faults os2 = []"
    "log_rel w os2 b (old @ take n new) (length old + k)" "b + length old = L + 1" "d \<le> k" "k \<le> n" "n \<le> length es"
    "list_all2 logged es new" "history m0 es m" "wdir w = path_Join (sdir s) walDirName"
    "snap_on os2 (snapDir s) m0 L"
proof -
  obtain b old new m where r: "log_rel (log s) os b (old @ new) (length old + d)" "b + length old = L + 1"
    "list_all2 logged es new" "length new = length es" "history m0 es m" "sim m s"
    using tr by (rule traces_logE)
  have pl: "placed s" and sn: "snap_on os (snapDir s) m0 L" using tr by (simp_all add: traces_def)
  have wd: "wdir (log s) = path_Join (sdir s) walDirName" using pl by (simp add: placed_def)
  have ne: "wdir (log s) \<noteq> []" by (simp add: wd path_Join_def)
  have "b + length (old @ new) = L + length es + 1" using r(2,4) by simp
  then have lim': "b + length (old @ new) < 2 ^ 64" using lim by (simp only:)
  obtain w os2 where op: "wal_Open \<lparr>optDir = wdir (log s), optMaxSegmentSize = seg\<rparr> os1 = (Inr w, os2)" "faults os2 = []"
    using reopen_healthy [OF r(1) cr lim' ne ok] by blast
  obtain n d' where n: "length old + d \<le> d'" "d' \<le> n" "n \<le> length (old @ new)" "wdir w = wdir (log s)"
    "log_rel w os2 b (take n (old @ new)) d'"
    using open_after_crash [OF r(1) cr lim' ne op(1)] by blast
  have "take n (old @ new) = old @ take (n - length old) new" using n(1,2) by simp
  then have log: "log_rel w os2 b (old @ take (n - length old) new) (length old + (d' - length old))"
    using n by simp
  have "snap_on os1 (snapDir s) m0 L" using snap_on_crash [OF sn cr] .
  then have sn2: "snap_on os2 (snapDir s) m0 L"
    using only_inD [OF scope_Open [OF op(1)]] placed_dirs [OF pl] by (subst snap_on_cong [where os = os1]) auto
  show thesis
    by (rule that [OF _ op(2) log r(2) _ _ _ r(3,5) _ sn2]) (use op(1) n r(4) wd in auto)
qed

lemma history_texts:
  assumes "history m0 es m" and "list_all2 logged es rs" and "mem_texts m0"
  shows "mem_texts m"
  using assms(1,2)
proof (induction arbitrary: rs rule: history.induct)
  case start
  then show ?case using assms(3) by simp
next
  case (step es m e m')
  obtain qs r where "list_all2 logged es qs" and "logged e r"
    using step.prems by (auto simp: list_all2_append1 list_all2_Cons1)
  then have e: "event_text_ok e" by (simp add: logged_def)
  from step.IH [OF \<open>list_all2 logged es qs\<close>] have m: "job_text_ok j" if "mjobs m i = Some j" for i j
    using that by (auto simp: mem_texts_def)
  from step.hyps(2,3) show ?case
  proof (cases rule: valid_event_cases)
    case (submit j)
    then show ?thesis using m e by (auto simp: mem_texts_def add_job_def event_text_ok_def)
  next
    case reserve
    then show ?thesis using m by (auto simp: mem_texts_def)
  next
    case (change f j)
    from change(1) have "job_text_ok (f j)"
    proof (cases rule: job_event_cases)
      case 1
      then show ?thesis using m [OF change(2)] e by (auto simp: job_text_ok_def apply_lease_def event_text_ok_def)
    next
      case 2
      then show ?thesis using m [OF change(2)] by (auto simp: job_text_ok_def apply_ack_def)
    next
      case 3
      then show ?thesis using m [OF change(2)] e by (auto simp: job_text_ok_def apply_fail_def event_text_ok_def)
    next
      case 4
      then show ?thesis using m [OF change(2)] by (auto simp: job_text_ok_def apply_replay_def)
    qed
    then show ?thesis using change(4) m by (auto simp: mem_texts_def)
  qed
qed

text \<open>
  \<^verbatim>\<open>Open\<close> after a crash: it succeeds, and the store is that of the first \<open>n\<close> events, among
  them all that were durable, with the jobs that were leased taken back.
\<close>

lemma Open_recovers:
  assumes tr: "traces m0 L s os es d" and cr: "crash os os1" and ok: "faults os1 = []"
    and cfg: "cfgDir cfg = sdir s" and v: "enumerates visit"
    and lim: "L + length es + 2 < 2 ^ 64" and epochs: "unat (reserved_by m0 es) + 1 < 2 ^ 64"
  shows "\<exists>s' os2 n k m. Open visit cfg now os1 = (Inr s', os2) \<and> faults os2 = [] \<and>
    d \<le> k \<and> k \<le> n \<and> n \<le> length es \<and> history m0 (take n es) m \<and>
    jobs s' = map_option (recover_job now) \<circ> mjobs m \<and> idem s' = midem m \<and>
    nextEpoch s' = reserved_by m0 es + 1 \<and> failed s' = None \<and> sdir s' = sdir s \<and>
    traces m0 L s' os2 (take n es) k \<and> live s' \<and> entries_ok s' \<and> texts_ok s'"
proof -
  obtain w os2 b old new n k m where log:
    "wal_Open \<lparr>optDir = path_Join (sdir s) walDirName, optMaxSegmentSize = WALSegmentSize cfg\<rparr> os1 = (Inr w, os2)" "faults os2 = []"
    "log_rel w os2 b (old @ take n new) (length old + k)" "b + length old = L + 1" "d \<le> k" "k \<le> n" "n \<le> length es"
    "list_all2 logged es new" "history m0 es m" "wdir w = path_Join (sdir s) walDirName"
    "snap_on os2 (snapDir s) m0 L"
    by (rule reopened_log [OF tr cr ok, of "WALSegmentSize cfg"]) (use lim in linarith)
  have pl: "placed s" and m0: "mem_ok m0" "mem_texts m0" and res: "reserved_by m0 (take d es) = reserved_by m0 es"
    using tr by (simp_all add: traces_def)
  let ?s0 = "new_store cfg w"
  have sd: "snapDir ?s0 = snapDir s" using pl cfg by (simp add: new_store_def placed_def)
  obtain s1 where s1: "loadLatestSnapshot ?s0 os2 = (Inr L, s1, os2)" "mem_of s1 = m0" "settings s1 = settings ?s0"
    using load_newest [of os2 ?s0 m0 L] log(2,11) sd by (auto simp: new_store_def)
  obtain mn where mn: "history m0 (take n es) mn" using history_take [OF log(9)] by blast
  have lg: "list_all2 logged (take n es) (take n new)" using log(8) by (rule list_all2_takeI)
  obtain s2 where s2: "replay_from (L + 1) replay_event (b + length old) (take n new) (s1\<lparr>lastLSN := L\<rparr>) = Inr s2"
    "mem_of s2 = mn" "settings s2 = settings s1" "lastLSN s2 = (if take n es = [] then L else b + length old + length (take n es) - 1)"
    using replay_events [of "s1\<lparr>lastLSN := L\<rparr>" "take n es" mn "take n new" "L + 1" "b + length old"] mn s1(2) lg log(4)
    by (auto simp: settings_def)
  have rep: "replay_from (L + 1) replay_event b (old @ take n new) (s1\<lparr>lastLSN := L\<rparr>) = Inr s2"
    using s2(1) log(4) by (simp add: replay_from_append replay_from_skip)
  obtain w3 os3 where w3: "wal_Replay w os2 (L + 1) replay_event (s1\<lparr>lastLSN := L\<rparr>) = (Inr s2, w3, os3)" "faults os3 = []"
    using replay_healthy [OF log(3) _ log(2), of "L + 1" replay_event "s1\<lparr>lastLSN := L\<rparr>"] rep lim by auto
  note rr = wal_log.replay_law [OF log(3) _ w3(1)]
  have log3: "log_rel w3 os3 b (old @ take n new) (length old + k)" "wdir w3 = wdir w" using rr lim by auto
  let ?s3 = "s2\<lparr>log := w3\<rparr>"
  let ?s' = "finish_open visit now ?s3"
  have op: "Open visit cfg now os1 = (Inr ?s', os3)"
    using cfg pl ok log(1) s1(1) w3(1) by (simp add: Open_def placed_def)
  have rn: "reserved_by m0 (take n es) = reserved_by m0 es"
    using reserved_between [OF log(9) res] log(5,6) by simp
  have mem3: "mem_of ?s3 = mn" using s2(2) by simp
  have er: "epochReservedUpTo ?s3 = reserved_by m0 es"
    using mem3 history_reserved [OF mn] rn by (auto simp: mem_of_def)
  have block: "0 < epochBlockSize ?s3"
    using s2(3) s1(3) by (auto simp: settings_def new_store_def defaultEpochBlockSize_def word_gt_0)
  have mok: "mem_ok (mem_of ?s3)" using history_mem_ok [OF mn m0(1)] mem3 by simp
  note fin = finish_open_ok [OF mok v _ block, of now, unfolded er, OF epochs]
  have st: "settings ?s' = settings ?s3" by simp
  have fields: "log ?s' = w3" "sdir ?s' = sdir s" "snapDir ?s' = snapDir s" "failed ?s' = None"
    using st s2(3) s1(3) sd cfg by (simp_all add: settings_def new_store_def)
  have "placed ?s'" using pl fields log3(2) log(10) by (simp add: placed_def)
  moreover have "snap_on os3 (snapDir ?s') m0 L"
    using log(11) fields(3) scope_Replay [OF w3(1)] placed_dirs [OF pl] log(10) pl
    by (subst snap_on_cong [where os = os2]) (auto simp: only_in_def placed_def)
  moreover have "lastLSN ?s' = L + length (take n es)" using s2(4) log(4) by auto
  moreover have "log_holds m0 L ?s' os3 (take n es) k"
    unfolding log_holds_def using log3 fields(1) log(4) lg mn fin(2) mem3 by auto
  moreover have "reserved_by m0 (take k (take n es)) = reserved_by m0 (take n es)"
    using reserved_between [OF log(9) res log(5)] rn log(6) by (simp add: min.absorb1)
  ultimately have "traces m0 L ?s' os3 (take n es) k" using m0 by (simp add: traces_def)
  moreover have "jobs ?s' = map_option (recover_job now) \<circ> mjobs mn" "idem ?s' = midem mn"
    using mem3 by (auto simp: mem_of_def)
  moreover from this have "texts_ok ?s'"
    using history_texts [OF mn lg m0(2)] recover_text by (auto simp: texts_ok_def mem_texts_def)
  moreover have "nextEpoch ?s' = reserved_by m0 es + 1" using er by simp
  ultimately show ?thesis using op w3(2) log(5-7) mn fin(1,3) fields(2,4) by blast
qed

end
