(* ===== verification/Cv_Snapshot.thy ===== *)
theory Cv_Snapshot
  imports Cv_Reopen
begin

text \<open>
  Snapshots.  A snapshot of a store whose log is flushed replaces the history so far: the
  file it leaves on disk restores exactly the store's memory, the log may drop what the
  snapshot covers, and recovery goes on from there.
\<close>

section \<open>The file restores the memory\<close>

lemma load_jobs_restores:
  assumes "\<And>j. j \<in> set js \<Longrightarrow> J (ID j) = Some j"
    and "\<And>j. j \<in> set js \<Longrightarrow> IdempotencyKey j \<noteq> [] \<Longrightarrow> I (idemKey (Queue j) (IdempotencyKey j)) = Some (ID j)"
  shows "\<exists>s'. load_jobs (map Some js) s = Some s' \<and>
    (\<forall>i. jobs s' i = (if i \<in> ID ` set js then J i else jobs s i)) \<and>
    (\<forall>k. idem s' k = (if \<exists>j \<in> set js. IdempotencyKey j \<noteq> [] \<and> k = idemKey (Queue j) (IdempotencyKey j)
                      then I k else idem s k))"
  using assms
proof (induction js arbitrary: s)
  case (Cons j js)
  let ?s = "s\<lparr>jobs := (jobs s)(ID j \<mapsto> j),
      idem := (if IdempotencyKey j \<noteq> [] then (idem s)(idemKey (Queue j) (IdempotencyKey j) \<mapsto> ID j) else idem s),
      leased := (if State j = StateLeased then insert (ID j) (leased s) else leased s)\<rparr>"
  obtain s' where s': "load_jobs (map Some js) ?s = Some s'"
    "\<And>i. jobs s' i = (if i \<in> ID ` set js then J i else jobs ?s i)"
    "\<And>k. idem s' k = (if \<exists>j \<in> set js. IdempotencyKey j \<noteq> [] \<and> k = idemKey (Queue j) (IdempotencyKey j)
                      then I k else idem ?s k)"
    using Cons.IH [of ?s] Cons.prems by auto
  have "jobs s' i = (if i \<in> ID ` set (j # js) then J i else jobs s i)" for i
    using s'(2) [of i] Cons.prems(1) [of j] by auto
  moreover have "idem s' k = (if \<exists>x \<in> set (j # js). IdempotencyKey x \<noteq> [] \<and> k = idemKey (Queue x) (IdempotencyKey x)
                      then I k else idem s k)" for k
    using s'(3) [of k] Cons.prems(2) [of j] by auto
  ultimately show ?case using s'(1) by auto
qed simp

definition snapshot_of :: "((string \<rightharpoonup> job) \<Rightarrow> string list) \<Rightarrow> store \<Rightarrow> snapshot" where
  "snapshot_of visit s =
     \<lparr>snLastLSN = word_of_nat (lastLSN s), snReservedUpTo = epochReservedUpTo s,
      snJobs = map Some (sort_key ID (List.map_filter (jobs s) (visit (jobs s))))\<rparr>"

lemma snapshot_jobs:
  assumes "store_ok s" and "enumerates visit"
  shows "set (sort_key ID (List.map_filter (jobs s) (visit (jobs s)))) = ran (jobs s)"
proof -
  have "set (visit (jobs s)) = dom (jobs s)"
    using assms by (auto simp: enumerates_def store_ok_def jobs_ok_def)
  then show ?thesis by (auto simp: mem_map_filter ran_def) (metis domI)
qed

lemma snapshot_restores:
  assumes ok: "store_ok s" and v: "enumerates visit"
  shows "restores (snapshot_of visit s) (mem_of s)"
proof -
  let ?js = "sort_key ID (List.map_filter (jobs s) (visit (jobs s)))"
  note js = snapshot_jobs [OF assms]
  have id: "ID j = i" if "jobs s i = Some j" for i j using store_ok_ID [OF ok that] .
  have J: "jobs s (ID j) = Some j" if "j \<in> set ?js" for j
    using that js id by (auto simp: ran_def)
  have I: "idem s (idemKey (Queue j) (IdempotencyKey j)) = Some (ID j)"
    if "j \<in> set ?js" "IdempotencyKey j \<noteq> []" for j
    using J [OF that(1)] that(2) ok by (auto simp: store_ok_def idem_ok_def)
  have "\<exists>t'. load_jobs (map Some ?js) t = Some t' \<and> jobs t' = jobs s \<and> idem t' = idem s"
    if t: "jobs t = Map.empty" "idem t = Map.empty" for t
  proof -
    obtain t' where t': "load_jobs (map Some ?js) t = Some t'"
      "\<And>i. jobs t' i = (if i \<in> ID ` set ?js then jobs s i else jobs t i)"
      "\<And>k. idem t' k = (if \<exists>j \<in> set ?js. IdempotencyKey j \<noteq> [] \<and> k = idemKey (Queue j) (IdempotencyKey j)
                      then idem s k else idem t k)"
      using load_jobs_restores [of ?js "jobs s" "idem s" t] J I by blast
    have "jobs s i = None" if "i \<notin> ID ` ran (jobs s)" for i
      using that id by (cases "jobs s i") (auto simp: ran_def image_iff)
    then have "jobs t' i = jobs s i" for i using t'(2) [of i] js t(1) by auto
    moreover have "idem t' k = idem s k" for k
    proof (cases "idem s k")
      case (Some i)
      then obtain j where "jobs s i = Some j" "IdempotencyKey j \<noteq> []" "k = idemKey (Queue j) (IdempotencyKey j)"
        using ok by (auto simp: store_ok_def idem_ok_def)
      then show ?thesis using t'(3) [of k] js by (auto simp: ran_def)
    next
      case None
      then show ?thesis using t'(3) [of k] t(2) by auto
    qed
    ultimately show ?thesis using t'(1) by auto
  qed
  then show ?thesis by (simp add: restores_def snapshot_of_def mem_of_def)
qed

section \<open>The file reaches the disk\<close>

lemma create_trunc_done:
  assumes "os_create_trunc os d n = (None, os')"
  obtains os1 g where "dirs os1 = dirs os" "os' = set_file os1 d n g" "fdata g = []" "fsynced g = 0" "\<not> flost g"
proof -
  obtain os1 where io: "io_plain os = (None, os1)"
    using assms by (auto simp: os_create_trunc_def split: prod.splits option.splits)
  show thesis
  proof (cases "map_of (dirs os1 d) n")
    case None
    then have "os' = set_file os1 d n new_file" using assms io by (simp add: os_create_trunc_def)
    then show thesis using io_plain_dirs [OF io] by (intro that [of os1 new_file]) (simp_all add: new_file_def)
  next
    case (Some e)
    with assms io obtain f where "e = RegFile f" by (cases e) (simp_all add: os_create_trunc_def)
    with assms io Some have "os' = set_file os1 d n (f\<lparr>fdata := [], fsynced := 0, flost := False\<rparr>)"
      by (simp add: os_create_trunc_def)
    then show thesis using io_plain_dirs [OF io] that by simp
  qed
qed

lemma write_done:
  assumes "os_write os d n bs = (None, os')"
  obtains os1 f where "dirs os1 = dirs os" "file_at os d n = Some f" "os' = set_file os1 d n (f\<lparr>fdata := fdata f @ bs\<rparr>)"
proof -
  obtain x os1 where io: "io_step os = (x, os1)" by fastforce
  then have "x = Okay" using assms by (cases x) (auto simp: os_write_def split: option.splits)
  note d = io_step_dirs [OF io]
  obtain f where "file_at os1 d n = Some f" "os' = set_file os1 d n (f\<lparr>fdata := fdata f @ bs\<rparr>)"
    using assms io \<open>x = Okay\<close> by (auto simp: os_write_def split: option.splits)
  then show thesis using d that by (simp add: file_at_dirs_cong [OF d])
qed

text \<open>\<^verbatim>\<open>writeFileSync\<close>: the file holds the data, flushed; no other entry changes.\<close>

lemma writeFileSync_done:
  assumes "writeFileSync os d n data = (None, os')"
  obtains f os1 where "dirs os' = dirs (set_file os1 d n f)" "dirs os1 = dirs os"
    "fdata f = data" "fsynced f = length data" "\<not> flost f"
proof -
  obtain e1 os1 where 1: "os_create_trunc os d n = (e1, os1)" by fastforce
  obtain e2 os2 where 2: "os_write os1 d n data = (e2, os2)" by fastforce
  obtain e3 os3 where 3: "os_fsync os2 d n = (e3, os3)" by fastforce
  obtain e4 os4 where 4: "io_plain os3 = (e4, os4)" by fastforce
  have e: "e1 = None" "e2 = None" "e3 = None" "e4 = None" "os4 = os'"
    using assms 1 2 3 4 by (auto simp: writeFileSync_def split: option.splits)
  note st = 1 [unfolded e] 2 [unfolded e] 3 [unfolded e] 4 [unfolded e]
  obtain osa g where a: "dirs osa = dirs os" "os1 = set_file osa d n g" "fdata g = []" "fsynced g = 0" "\<not> flost g"
    using st(1) by (rule create_trunc_done)
  obtain osb where b: "dirs osb = dirs os1" "os2 = set_file osb d n (g\<lparr>fdata := data\<rparr>)"
    using st(2) by (rule write_done) (use a(2,3) in simp)
  obtain osc where c: "dirs osc = dirs os2" "os3 = upd_file synced_ok osc d n"
    using st(3) by (rule os_fsync_cases) simp
  let ?f = "g\<lparr>fdata := data, fsynced := length data\<rparr>"
  have "file_at osc d n = Some (g\<lparr>fdata := data\<rparr>)" using b(2) by (simp add: file_at_dirs_cong [OF c(1)])
  then have u: "os3 = set_file osc d n ?f" using c(2) a(5) by (simp add: upd_file_def synced_ok_def)
  have "dirs os' = dirs (set_file os d n ?f)"
    unfolding io_plain_dirs [OF st(4)] u using c(1) b a(1,2) by (simp add: set_file_def)
  then show thesis using a(5) by (intro that [where f = ?f and ?os1.0 = os]) simp_all
qed

lemma dirs_snd_io_plain [simp]: "dirs (snd (io_plain os)) = dirs os"
  using io_plain_dirs [of os "fst (io_plain os)" "snd (io_plain os)"] by simp

lemma scope_writeFileSync: "writeFileSync os d n data = (r, os') \<Longrightarrow> only_in d os os'"
  unfolding writeFileSync_def
  by (auto simp: only_in_def split: prod.splits option.splits
      dest!: only_in_create_trunc only_in_write only_in_fsync io_plain_dirs)

text \<open>Names stay distinct.\<close>

lemma distinct_edits:
  "distinct (map fst (dirs os d)) \<Longrightarrow> distinct (map fst (dirs (set_file os d' n f) d))"
  "distinct (map fst (dirs os d)) \<Longrightarrow> distinct (map fst (dirs (del_entry os d' n) d))"
  "distinct (map fst (dirs os d)) \<Longrightarrow> distinct (map fst (dirs (link_dir os d') d))"
  by (auto simp: set_file_def del_entry_def link_dir_def distinct_update distinct_delete comp_def case_prod_unfold)

lemma link_entry_lsn [simp]: "snapshot_lsn (n, link_entry e) = snapshot_lsn (n, e)"
  by (cases e) (simp_all add: snapshot_lsn_def)

text \<open>Writing to a temporary name, renaming and flushing the directory installs the file.\<close>

lemma install_done:
  assumes wr: "writeFileSync os d tmp data = (None, os1)" and rn: "os_rename os1 d tmp final = (None, os2)"
    and sy: "syncDir os2 d = (None, os3)" and dist: "distinct (map fst (dirs os d))" and ne: "tmp \<noteq> final"
  obtains g where "file_at os3 d final = Some g" "intact g" "fdata g = data" "distinct (map fst (dirs os3 d))"
    "\<And>n e l. n \<noteq> final \<Longrightarrow> map_of (dirs os3 d) n = Some e \<Longrightarrow> snapshot_lsn (n, e) = Some (n, l) \<Longrightarrow>
       \<exists>e0. map_of (dirs os d) n = Some e0 \<and> snapshot_lsn (n, e0) = Some (n, l)"
proof -
  obtain f osa where f: "dirs os1 = dirs (set_file osa d tmp f)" "dirs osa = dirs os"
    "fdata f = data" "fsynced f = length data" "\<not> flost f"
    using wr by (rule writeFileSync_done)
  obtain e osb where b: "io_plain os1 = (e, osb)" by fastforce
  note db = io_plain_dirs [OF b]
  have fb: "file_at osb d tmp = Some f" by (simp add: file_at_def db f(1))
  have "e = None" using rn b by (cases e) (simp_all add: os_rename_def)
  with rn b fb obtain old where os2: "os2 = set_file (del_entry osb d tmp) d final (f\<lparr>flinked := False, fprev := old\<rparr>)"
    by (auto simp: os_rename_def Let_def)
  obtain osc where osc: "dirs osc = dirs os2" "os3 = link_dir osc d" using sy by (rule syncDir_None)
  let ?g = "f\<lparr>flinked := True, fprev := old\<rparr>"
  have m: "map_of (dirs os3 d) n = (if n = final then Some (RegFile ?g) else if n = tmp then None
      else map_option link_entry (map_of (dirs os d) n))" for n
    using osc os2 db f(1,2) ne by simp
  show thesis
  proof (rule that)
    show "file_at os3 d final = Some ?g" by (simp add: file_at_def m)
    show "intact ?g" "fdata ?g = data" using f by (simp_all add: intact_def)
    have "distinct (map fst (dirs osb d))" using db f(1,2) dist distinct_edits(1) [of osa d d tmp f] by simp
    then have "distinct (map fst (dirs os2 d))" unfolding os2 by (intro distinct_edits)
    then show "distinct (map fst (dirs os3 d))" using osc distinct_edits(3) [of osc d d] by simp
    show "\<exists>e0. map_of (dirs os d) n = Some e0 \<and> snapshot_lsn (n, e0) = Some (n, l)"
      if "n \<noteq> final" "map_of (dirs os3 d) n = Some e" "snapshot_lsn (n, e) = Some (n, l)" for n e l
      using that m [of n] by (auto split: if_splits)
  qed
qed

lemma installed_newest:
  assumes wr: "writeFileSync os d (snapshotName l @ ''.tmp'') data = (None, os1)"
    and rn: "os_rename os1 d (snapshotName l @ ''.tmp'') (snapshotName l) = (None, os2)"
    and sy: "syncDir os2 d = (None, os3)" and old: "snap_on os d m0 L" "L \<le> l" "l < 2 ^ 64"
    and data: "decodeSnapshot data = Some sn" "unat (snLastLSN sn) = l" "restores sn m"
  shows "snap_on os3 d m l" and "newest_snap os3 d m l"
proof -
  have dist: "distinct (map fst (dirs os d))" using old(1) by (simp add: snap_on_def)
  obtain g where g: "file_at os3 d (snapshotName l) = Some g" "intact g" "fdata g = data" "distinct (map fst (dirs os3 d))"
    "\<And>n e k. n \<noteq> snapshotName l \<Longrightarrow> map_of (dirs os3 d) n = Some e \<Longrightarrow> snapshot_lsn (n, e) = Some (n, k) \<Longrightarrow>
       \<exists>e0. map_of (dirs os d) n = Some e0 \<and> snapshot_lsn (n, e0) = Some (n, k)"
    using install_done [OF wr rn sy dist] by auto
  have "k < l \<or> n = snapshotName l"
    if at: "map_of (dirs os3 d) n = Some e" "snapshot_lsn (n, e) = Some (n, k)" for n e k
  proof (cases "n = snapshotName l")
    case False
    then obtain e0 where e0: "map_of (dirs os d) n = Some e0" "snapshot_lsn (n, e0) = Some (n, k)"
      using g(5) [OF False at] by blast
    have "k < L \<or> n = snapshotName L"
      using old(1) e0 unfolding snap_on_def no_snap_def newest_snap_def by (metis option.distinct(1))
    moreover have "k = L" if n: "n = snapshotName L"
    proof -
      have "L < 2 ^ 64" using old(2,3) by linarith
      then show ?thesis using e0(2) n snapshotName_lsn snapshot_lsn_file by (metis option.inject Pair_inject)
    qed
    moreover have "L \<noteq> l" if "n = snapshotName L" using False that by blast
    ultimately show ?thesis using old(2) by fastforce
  qed simp
  then show "newest_snap os3 d m l"
    using g(1-3) data old(3) unfolding newest_snap_def by blast
  then show "snap_on os3 d m l" using g(4) by (simp add: snap_on_def)
qed

text \<open>Pruning removes older snapshots only.\<close>

lemma newest_snap_remove:
  assumes sn: "snap_on os d m l" "newest_snap os d m l" and rm: "os_remove os d n = (r, os')" and ne: "n \<noteq> snapshotName l"
  shows "snap_on os' d m l" and "newest_snap os' d m l"
proof -
  obtain e os1 where io: "io_plain os = (e, os1)" by fastforce
  note d1 = io_plain_dirs [OF io]
  have os': "os' = os1 \<or> os' = del_entry os1 d n"
    using rm io by (cases e) (auto simp: os_remove_def split: if_splits)
  have m: "map_of (dirs os' d) k = Some x \<Longrightarrow> map_of (dirs os d) k = Some x" for k x
    using os' d1 by (auto split: if_splits)
  have "file_at os' d (snapshotName l) = file_at os d (snapshotName l)"
    using os' ne by (auto simp: file_at_dirs_cong [OF d1])
  then show "newest_snap os' d m l" using sn(2) m unfolding newest_snap_def by metis
  have "distinct (map fst (dirs os' d))"
    using sn(1) os' d1 distinct_edits(2) [of os1 d d n] by (auto simp: snap_on_def)
  with \<open>newest_snap os' d m l\<close> show "snap_on os' d m l" by (simp add: snap_on_def)
qed

lemma newest_snap_prune:
  "snap_on os d m l \<Longrightarrow> newest_snap os d m l \<Longrightarrow> snapshotName l \<notin> set ns \<Longrightarrow> prune_loop d ns os = (r, os') \<Longrightarrow>
     snap_on os' d m l \<and> newest_snap os' d m l \<and> only_in d os os'"
proof (induction ns arbitrary: os)
  case (Cons n ns)
  obtain e os1 where rm: "os_remove os d n = (e, os1)" by fastforce
  have ne: "n \<noteq> snapshotName l" using Cons.prems(3) by auto
  note st = newest_snap_remove [OF Cons.prems(1,2) rm ne] and sc = only_in_remove [OF rm]
  show ?case
  proof (cases "e = None \<or> e = Some ENOENT")
    case True
    then have "prune_loop d ns os1 = (r, os')" using Cons.prems(4) rm by auto
    with Cons.IH [OF st] Cons.prems(3) sc show ?thesis by (auto intro: only_in_trans)
  next
    case False
    then have "os' = os1" using Cons.prems(4) rm by (cases e) (auto split: if_splits)
    with st sc show ?thesis by simp
  qed
qed simp

lemma newest_snap_cong: "dirs os' d = dirs os d \<Longrightarrow> newest_snap os' d m l = newest_snap os d m l"
  by (simp add: newest_snap_def file_at_def)

lemma distinct_sort_fst: "distinct (map fst (sort_key f xs)) \<longleftrightarrow> distinct (map fst xs)"
  by (rule mset_eq_imp_distinct_iff) (simp del: mset_map add: mset_map)

lemma distinct_found_snaps:
  assumes "distinct (map fst (dirs os d))"
  shows "distinct (map fst (found_snaps os d))"
proof -
  have "distinct (map fst (List.map_filter snapshot_lsn xs)) \<and> fst ` set (List.map_filter snapshot_lsn xs) \<subseteq> fst ` set xs"
    if "distinct (map fst xs)" for xs
    using that
  proof (induction xs)
    case (Cons x xs)
    then show ?case
      by (cases x; cases "snapshot_lsn x") (auto simp: List.map_filter_simps dest!: snapshot_lsn_file,
        metis fst_conv image_eqI subsetD)
  qed simp
  then show ?thesis using assms by (simp add: found_snaps_def distinct_sort_fst)
qed

lemma pruneSnapshots_keeps:
  assumes sn: "snap_on os (snapDir s) m l" "newest_snap os (snapDir s) m l" and pr: "pruneSnapshots s os = (r, os')"
  shows "snap_on os' (snapDir s) m l \<and> only_in (snapDir s) os os'"
proof -
  let ?d = "snapDir s"
  obtain q os1 where ls: "listSnapshots os ?d = (q, os1)" by fastforce
  obtain y os2 where rd: "os_readdir os ?d = (y, os2)" by fastforce
  note d1 = os_readdir_dirs [OF rd]
  have os1: "os1 = os2" using ls rd by (cases y) (auto simp: listSnapshots_def)
  have same: "snap_on os1 ?d m l" "newest_snap os1 ?d m l" "only_in ?d os os1"
    using sn d1 os1 snap_on_cong [of os1 ?d os] newest_snap_cong [of os1 ?d os] by (simp_all add: only_in_same)
  show ?thesis
  proof (cases q)
    case (Inl x)
    then show ?thesis using pr ls same by (simp add: pruneSnapshots_def)
  next
    case (Inr names)
    have names: "names = map fst (found_snaps os1 ?d)"
      using ls rd Inr d1 os1 unfolding listSnapshots_def os_readdir_def found_snaps_def
      by (auto split: prod.splits option.splits dest!: io_plain_dirs)
    have dist: "distinct (map fst (dirs os1 ?d))" using same(1) by (simp add: snap_on_def)
    obtain xs where xs: "found_snaps os1 ?d = xs @ [(snapshotName l, l)]" using newest_last [OF dist same(2)] by blast
    show ?thesis
    proof (cases "length names \<le> snapshotsKept")
      case True
      then show ?thesis using pr ls Inr same by (simp add: pruneSnapshots_def)
    next
      case False
      have "distinct names" using distinct_found_snaps [OF dist] names by simp
      then have "snapshotName l \<notin> set (map fst xs)" using names xs by simp
      moreover have "set (take (length names - snapshotsKept) names) \<subseteq> set (map fst xs)"
        using names xs by (auto simp: snapshotsKept_def dest: in_set_takeD)
      ultimately have "snapshotName l \<notin> set (take (length names - snapshotsKept) names)" by blast
      moreover have "prune_loop ?d (take (length names - snapshotsKept) names) os1 = (r, os')"
        using pr ls Inr False by (simp add: pruneSnapshots_def)
      ultimately show ?thesis using newest_snap_prune [OF same(1,2)] same(3) by (blast intro: only_in_trans)
    qed
  qed
qed

section \<open>Taking a snapshot\<close>

lemma live_mem_ok: "store_ok s \<Longrightarrow> mem_ok (mem_of s)"
proof -
  assume ok: "store_ok s"
  have "Epoch j \<le> epochReservedUpTo s" if "jobs s i = Some j" for i j
    using store_ok_epoch [OF ok that] ok
    by (simp add: store_ok_def epochs_ok_def word_less_nat_alt word_le_nat_alt)
  then show ?thesis using ok by (auto simp: mem_ok_def mem_of_def store_ok_def jobs_ok_def idem_ok_def)
qed

text \<open>
  On a store whose log is flushed, \<^verbatim>\<open>Snapshot\<close> replaces the history by its result: the
  memory of the store as it is.
\<close>

lemma Snapshot_traces:
  assumes tr: "traces m0 L s os es (length es)" and live: "live s" and tx: "texts_ok s" and v: "enumerates visit"
    and lim: "lastLSN s < 2 ^ 64" and sn: "Snapshot visit s os = (None, s', os')"
  shows "traces (mem_of s) (lastLSN s) s' os' [] 0" and "\<exists>w. s' = s\<lparr>log := w\<rparr>"
proof -
  let ?d = "snapDir s" and ?l = "lastLSN s" and ?final = "snapshotName (lastLSN s)"
  have ok: "store_ok s" using live by (simp add: live_def)
  obtain b old new m where r: "log_rel (log s) os b (old @ new) (length old + length es)" "b + length old = L + 1"
    "list_all2 logged es new" "length new = length es" "history m0 es m" "sim m s"
    using tr by (rule traces_logE)
  have pl: "placed s" and so: "snap_on os ?d m0 L" and ll: "?l = L + length es" using tr by (simp_all add: traces_def)
  obtain q0 where enc: "encodeSnapshot (snapshot_of visit s) = q0" by simp
  have w0: "Snapshot visit s os =
      (case q0 of None \<Rightarrow> (Some ErrEncodeSnapshot, s, os)
       | Some data \<Rightarrow>
           (case writeFileSync os ?d (?final @ ''.tmp'') data of
              (Some x, os1) \<Rightarrow> (Some x, s, os1)
            | (None, os1) \<Rightarrow>
                (case os_rename os1 ?d (?final @ ''.tmp'') ?final of
                   (Some x, os2) \<Rightarrow> (Some (ErrSnapshotIO ''broker: rename snapshot'' x), s, os2)
                 | (None, os2) \<Rightarrow>
                     (case syncDir os2 ?d of
                        (Some x, os3) \<Rightarrow> (Some (ErrSnapshotIO ''broker: sync snapshot dir'' x), s, os3)
                      | (None, os3) \<Rightarrow>
                          (case wal_TruncateBefore (log s) os3 (?l + 1) of
                             (Some x, w, os4) \<Rightarrow> (Some (ErrTruncate x), s\<lparr>log := w\<rparr>, os4)
                           | (None, w, os4) \<Rightarrow>
                               (case pruneSnapshots s os4 of (r, os5) \<Rightarrow> (r, s\<lparr>log := w\<rparr>, os5)))))))"
    using enc by (simp add: Snapshot_def Snapshot_write_def Snapshot_collect_def snapshot_of_def Let_def)
  obtain data where q0: "q0 = Some data" using sn w0 by (cases q0) simp_all
  obtain e1 os1 where 1: "writeFileSync os ?d (?final @ ''.tmp'') data = (e1, os1)" by fastforce
  obtain e2 os2 where 2: "os_rename os1 ?d (?final @ ''.tmp'') ?final = (e2, os2)" by fastforce
  obtain e3 os3 where 3: "syncDir os2 ?d = (e3, os3)" by fastforce
  obtain e4 w os4 where 4: "wal_TruncateBefore (log s) os3 (?l + 1) = (e4, w, os4)" by (rule prod_cases3)
  obtain e5 os5 where 5: "pruneSnapshots s os4 = (e5, os5)" by fastforce
  have e: "e1 = None" "e2 = None" "e3 = None" "e4 = None" and s': "s' = s\<lparr>log := w\<rparr>" "os' = os5"
    using sn w0 q0 1 2 3 4 5 by (auto split: option.splits)
  have "\<exists>x. j = Some x \<and> job_text_ok x" if "j \<in> set (snJobs (snapshot_of visit s))" for j
    using that snapshot_jobs [OF ok v] tx by (auto simp: snapshot_of_def texts_ok_def ran_def)
  then have dec: "decodeSnapshot data = Some (snapshot_of visit s)"
    using decode_encodeSnapshot enc q0 by blast
  have lsn: "unat (snLastLSN (snapshot_of visit s)) = ?l"
    using lim by (simp add: snapshot_of_def unat_of_nat take_bit_nat_eq_self)
  note new = installed_newest [OF 1 [unfolded e] 2 [unfolded e] 3 [unfolded e] so _ lim dec lsn snapshot_restores [OF ok v]]
  have snap3: "snap_on os3 ?d (mem_of s) ?l" "newest_snap os3 ?d (mem_of s) ?l" using new ll by simp_all
  have sc3: "only_in ?d os os3"
    using scope_writeFileSync [OF 1] only_in_rename [OF 2] only_in_syncDir [OF 3] by (blast intro: only_in_trans)
  note ne = placed_dirs [OF pl]
  have log3: "log_rel (log s) os3 b (old @ new) (length old + length es)"
    using log_rel_scope [OF sc3] ne r(1) by (metis)
  note sc4 = scope_TruncateBefore [OF 4]
  have same4: "dirs os4 ?d = dirs os3 ?d" using sc4 ne by (auto simp: only_in_def)
  have snap4: "snap_on os4 ?d (mem_of s) ?l" "newest_snap os4 ?d (mem_of s) ?l"
    using snap3 snap_on_cong [OF same4] newest_snap_cong [OF same4] by simp_all
  obtain n where n: "b + n \<le> max b (?l + 1)" "n \<le> length old + length es"
    "log_rel w os4 (b + n) (drop n (old @ new)) (length old + length es - n)" "wdir w = wdir (log s)"
    using wal_log.truncate_law [OF log3 4 [unfolded e]] by blast
  note pr = pruneSnapshots_keeps [OF snap4 5]
  have "log_rel w os5 (b + n) (drop n (old @ new)) (length old + length es - n)"
    using log_rel_scope [of ?d os4 os5 w] pr n(3,4) ne by simp
  moreover have "length (drop n (old @ new)) = length old + length es - n" using r(4) by simp
  moreover have "(b + n) + length (drop n (old @ new)) = ?l + 1"
    using r(2,4) n(1,2) ll by simp
  moreover have "history (mem_of s) [] (mem_of s)" by (rule history.start)
  moreover have "sim (mem_of s) s'" using s' by (simp add: sim_def mem_of_def)
  ultimately have "log_holds (mem_of s) ?l s' os5 [] 0"
    using s' unfolding log_holds_def
    by (intro exI [of _ "b + n"] exI [of _ "drop n (old @ new)"] exI [of _ "[]"] exI [of _ "mem_of s"]) simp
  moreover have "placed s'" using pl s' n(4) by (simp add: placed_def)
  moreover have "mem_texts (mem_of s)" using tx by (simp add: mem_texts_def texts_ok_def mem_of_def)
  ultimately show "traces (mem_of s) ?l s' os' [] 0"
    using pr live_mem_ok [OF ok] s' by (simp add: traces_def)
  show "\<exists>w. s' = s\<lparr>log := w\<rparr>" using s' by blast
qed

end
