(* ===== verification/Cv_System.thy ===== *)
theory Cv_System
  imports Cv_Snapshot
begin

text \<open>
  The broker's store over its whole life: critical sections that succeed, snapshots of a
  flushed log, and crashes followed by recovery, in any order.  \<open>running\<close> is the invariant
  of it all.  \<open>durably P\<close> says that what is on stable storage already implies \<open>P\<close>; no step
  can take that back.
\<close>

section \<open>Steps\<close>

text \<open>Nothing is left to flush.\<close>

definition flushed :: "store \<Rightarrow> os \<Rightarrow> bool" where
  "flushed s os \<longleftrightarrow>
     buf (log s) = [] \<and>
     (case file_at os (wdir (log s)) (active (log s)) of None \<Rightarrow> False | Some f \<Rightarrow> fsynced f = length (fdata f))"

text \<open>The 64-bit counters are not exhausted.\<close>

definition room :: "store \<Rightarrow> bool" where
  "room s \<longleftrightarrow> lastLSN s + 2 < 2 ^ 64 \<and> unat (epochReservedUpTo s) + 1 < 2 ^ 64"

inductive sys_step :: "store \<times> os \<Rightarrow> store \<times> os \<Rightarrow> bool" where
  run: "ok_step x y \<Longrightarrow> sys_step x y"
| snapshot: "Snapshot visit s os = (None, s', os') \<Longrightarrow> flushed s os \<Longrightarrow> enumerates visit \<Longrightarrow> room s \<Longrightarrow>
    sys_step (s, os) (s', os')"
| restart: "crash os os1 \<Longrightarrow> faults os1 = [] \<Longrightarrow> Open visit cfg now os1 = (Inr s', os') \<Longrightarrow> cfgDir cfg = sdir s \<Longrightarrow>
    enumerates visit \<Longrightarrow> room s \<Longrightarrow> sys_step (s, os) (s', os')"

abbreviation sys_steps :: "store \<times> os \<Rightarrow> store \<times> os \<Rightarrow> bool" where "sys_steps \<equiv> sys_step\<^sup>*\<^sup>*"

definition running :: "store \<Rightarrow> os \<Rightarrow> bool" where
  "running s os \<longleftrightarrow> live s \<and> texts_ok s \<and> entries_ok s \<and> (\<exists>m0 L es d. traces m0 L s os es d)"

text \<open>\<open>P\<close> holds of what would be left if the machine stopped now.\<close>

definition durably :: "(memory \<Rightarrow> bool) \<Rightarrow> store \<Rightarrow> os \<Rightarrow> bool" where
  "durably P s os \<longleftrightarrow> (\<exists>m0 L es d m. traces m0 L s os es d \<and> history m0 (take d es) m \<and> P m)"

text \<open>Properties that no valid event and no resynchronisation with the store can undo.\<close>

definition stable :: "(memory \<Rightarrow> bool) \<Rightarrow> bool" where
  "stable P \<longleftrightarrow>
     (\<forall>m e m'. P m \<and> valid_event m e \<and> mem_apply e m = Some m' \<longrightarrow> P m') \<and>
     (\<forall>m s. P m \<and> sim m s \<longrightarrow> P (mem_of s))"

lemma stable_history:
  assumes "stable P" and "history m0 (take d es) m" and "P m" and "history m0 (take n es) m'" and "d \<le> n"
  shows "P m'"
proof -
  have "take n es = take d es @ drop d (take n es)"
    using append_take_drop_id [of d "take n es"] assms(5) by (simp add: min.absorb1)
  then have "history m0 (take d es @ drop d (take n es)) m'" using assms(4) by simp
  from history_stable [where P = P, OF _ assms(2,3) this] assms(1) show ?thesis unfolding stable_def by blast
qed

lemma flushed_all:
  assumes tr: "traces m0 L s os es d" and fl: "flushed s os"
  shows "d = length es"
proof -
  obtain b old new m where r: "log_rel (log s) os b (old @ new) (length old + d)" "length new = length es"
    using tr by (rule traces_logE)
  obtain old' cur where w: "wal_rel (log s) os b old' cur" "old @ new = concat old' @ cur"
    "length old + d = durable_count (log s) os old' cur"
    using r(1) by (auto simp: log_rel_def)
  obtain f where f: "file_at os (wdir (log s)) (active (log s)) = Some f" "fdata f @ buf (log s) = frames cur"
    using w(1) by (rule wal_rel_active)
  have "fsynced f = length (frames cur)" using fl f by (simp add: flushed_def)
  then have "length old + d = length (concat old') + length cur" using w(3) f(1) by (simp add: durable_count_def whole_all)
  also have "\<dots> = length (old @ new)" unfolding w(2) by simp
  finally show ?thesis using r(2) by simp
qed

section \<open>One step\<close>

lemma live_frame [simp]: "live (s\<lparr>log := w\<rparr>) = live s"
  by (simp add: live_def)

lemma run_step:
  assumes st: "ok_step (s, os) (s', os')" and run: "running s os"
  shows "running s' os'" and "nextEpoch s \<le> nextEpoch s'" and "stable P \<Longrightarrow> durably P s os \<Longrightarrow> durably P s' os'"
proof -
  have live: "live s" and ok: "store_ok s" and tx: "texts_ok s" and en: "entries_ok s"
    using run by (auto simp: running_def live_def)
  have ext: "extends s os s' os'" using ok_step_extends [OF st ok] .
  note lv = store_step_live [OF ok_step_store_step [OF st] live]
  have ev: "evolves s s'" using store_step_evolves [OF ok_step_store_step [OF st] ok] .
  show "nextEpoch s \<le> nextEpoch s'" using lv by simp
  show "running s' os'"
    using run lv ext tx evolves_entries [OF ev en] unfolding running_def extends_def by blast
  show "durably P s' os'" if P: "stable P" "durably P s os"
  proof -
    obtain m0 L es d m where d: "traces m0 L s os es d" "history m0 (take d es) m" "P m"
      using P(2) by (auto simp: durably_def)
    obtain fs d' where d': "d \<le> d'" "traces m0 L s' os' (es @ fs) d'" using ext tx d(1) unfolding extends_def by blast
    obtain mx where "history m0 (es @ fs) mx" using traces_history [OF d'(2)] by blast
    then obtain m' where m': "history m0 (take d' (es @ fs)) m'" using history_take by blast
    have "history m0 (take d (es @ fs)) m" using d(2) traces_length [OF d(1)] by simp
    from stable_history [OF P(1) this d(3) m' d'(1)] show ?thesis using d'(2) m' unfolding durably_def by blast
  qed
qed

lemma snapshot_step:
  assumes sn: "Snapshot visit s os = (None, s', os')" and fl: "flushed s os" and v: "enumerates visit" and rm: "room s"
    and run: "running s os"
  shows "running s' os'" and "nextEpoch s' = nextEpoch s" and "stable P \<Longrightarrow> durably P s os \<Longrightarrow> durably P s' os'"
proof -
  have live: "live s" and tx: "texts_ok s" and en: "entries_ok s" using run by (auto simp: running_def)
  have lim: "lastLSN s < 2 ^ 64" using rm by (simp add: room_def)
  have result: "traces (mem_of s) (lastLSN s) s' os' [] 0 \<and> (\<exists>w. s' = s\<lparr>log := w\<rparr>)"
    if tr: "traces m0 L s os es d" for m0 L es d
  proof -
    have "traces m0 L s os es (length es)" using tr flushed_all [OF tr fl] by simp
    from Snapshot_traces [OF this live tx v lim sn] show ?thesis by blast
  qed
  obtain m0 L es d where tr: "traces m0 L s os es d" using run by (auto simp: running_def)
  obtain w where s': "s' = s\<lparr>log := w\<rparr>" using result [OF tr] by blast
  show "nextEpoch s' = nextEpoch s" by (simp add: s')
  have "texts_ok s'" "entries_ok s'" using tx en by (simp_all add: s' texts_ok_def entries_ok_def)
  then show "running s' os'" using result [OF tr] live unfolding running_def s' by auto
  show "durably P s' os'" if P: "stable P" "durably P s os"
  proof -
    obtain n0 K fs k m where d: "traces n0 K s os fs k" "history n0 (take k fs) m" "P m"
      using P(2) by (auto simp: durably_def)
    have "history n0 fs m" using d(2) flushed_all [OF d(1) fl] by simp
    then have "sim m s" using traces_history [OF d(1)] history_unique by blast
    then have "P (mem_of s)" using P(1) d(3) unfolding stable_def by blast
    moreover have "history (mem_of s) (take 0 []) (mem_of s)" by (simp add: history.start)
    ultimately show ?thesis using result [OF d(1)] unfolding durably_def by blast
  qed
qed

lemma restart_step:
  assumes cr: "crash os os1" and h: "faults os1 = []" and cfg: "cfgDir cfg = sdir s" and v: "enumerates visit"
    and rm: "room s" and run: "running s os"
  shows "\<exists>s' os'. Open visit cfg now os1 = (Inr s', os') \<and> faults os' = [] \<and> running s' os' \<and>
    nextEpoch s \<le> nextEpoch s' \<and> sdir s' = sdir s \<and> failed s' = None \<and>
    (\<forall>P. stable P \<longrightarrow> durably P s os \<longrightarrow> durably P s' os')"
proof -
  have live: "live s" using run by (simp add: running_def)
  have recover: "\<exists>s' os2 n k m. Open visit cfg now os1 = (Inr s', os2) \<and> faults os2 = [] \<and>
      d \<le> k \<and> k \<le> n \<and> n \<le> length es \<and> history m0 (take n es) m \<and>
      jobs s' = map_option (recover_job now) \<circ> mjobs m \<and> idem s' = midem m \<and>
      nextEpoch s' = reserved_by m0 es + 1 \<and> failed s' = None \<and> sdir s' = sdir s \<and>
      traces m0 L s' os2 (take n es) k \<and> live s' \<and> entries_ok s' \<and> texts_ok s'"
    if tr: "traces m0 L s os es d" for m0 L es d
  proof (rule Open_recovers [OF tr cr h cfg v])
    have "lastLSN s = L + length es" using tr by (simp add: traces_def)
    then show "L + length es + 2 < 2 ^ 64" using rm by (simp add: room_def)
    show "unat (reserved_by m0 es) + 1 < 2 ^ 64" using rm traces_reserved [OF tr] by (simp add: room_def)
  qed
  obtain m0 L es d where tr: "traces m0 L s os es d" using run by (auto simp: running_def)
  obtain s' os2 n k m where op: "Open visit cfg now os1 = (Inr s', os2)" "faults os2 = []" "failed s' = None" "sdir s' = sdir s"
    "nextEpoch s' = reserved_by m0 es + 1" "traces m0 L s' os2 (take n es) k" "live s'" "entries_ok s'" "texts_ok s'"
    using recover [OF tr] by blast
  have "unat (nextEpoch s) \<le> unat (epochReservedUpTo s) + 1" using live by (simp add: live_def store_ok_def epochs_ok_def)
  moreover have "unat (reserved_by m0 es + 1) = unat (reserved_by m0 es) + 1"
    using rm traces_reserved [OF tr] by (subst unat_word_ariths) (simp add: room_def)
  ultimately have "nextEpoch s \<le> nextEpoch s'" using op(5) traces_reserved [OF tr] by (simp add: word_le_nat_alt)
  moreover have "durably P s' os2" if P: "stable P" "durably P s os" for P
  proof -
    obtain n0 K fs c mm where d: "traces n0 K s os fs c" "history n0 (take c fs) mm" "P mm"
      using P(2) by (auto simp: durably_def)
    obtain k' n' where k': "c \<le> k'" "k' \<le> n'" "traces n0 K s' os2 (take n' fs) k'"
      using recover [OF d(1)] op(1) by auto
    obtain mx where "history n0 fs mx" using traces_history [OF d(1)] by blast
    then obtain m' where m': "history n0 (take k' fs) m'" using history_take by blast
    have "P m'" using stable_history [OF P(1) d(2,3) m' k'(1)] .
    moreover have "take k' (take n' fs) = take k' fs" using k'(2) by (simp add: min.absorb1)
    ultimately show ?thesis using k'(3) m' unfolding durably_def by metis
  qed
  moreover have "running s' os2" using op unfolding running_def by blast
  ultimately show ?thesis using op by blast
qed

lemma sys_step_running:
  assumes "sys_step (s, os) (s', os')" and run: "running s os"
  shows "running s' os' \<and> nextEpoch s \<le> nextEpoch s' \<and> (\<forall>P. stable P \<longrightarrow> durably P s os \<longrightarrow> durably P s' os')"
  using assms(1)
proof cases
  case run
  then show ?thesis using run_step [OF run assms(2)] by blast
next
  case (snapshot visit)
  then show ?thesis using snapshot_step [OF snapshot assms(2)] by (simp add: order_refl)
next
  case (restart os1 visit cfg now)
  then show ?thesis using restart_step [OF restart(1,2,4,5,6) assms(2), of now] by auto
qed

lemma sys_steps_running:
  assumes "sys_steps (s, os) (s', os')" and "running s os"
  shows "running s' os' \<and> nextEpoch s \<le> nextEpoch s' \<and> (\<forall>P. stable P \<longrightarrow> durably P s os \<longrightarrow> durably P s' os')"
  using assms
proof (induction rule: rtranclp_induct2)
  case (step s1 os1 s2 os2)
  then have 1: "running s1 os1" "nextEpoch s \<le> nextEpoch s1" "\<forall>P. stable P \<longrightarrow> durably P s os \<longrightarrow> durably P s1 os1"
    by simp_all
  with sys_step_running [OF step(2) 1(1)] show ?case by (meson order_trans)
qed simp

text \<open>What is durable also holds of the store that recovery, or anything else, has built.\<close>

lemma durably_live:
  assumes "stable P" and "durably P s os"
  shows "P (mem_of s)"
proof -
  obtain m0 L es d m where d: "traces m0 L s os es d" "history m0 (take d es) m" "P m"
    using assms(2) by (auto simp: durably_def)
  obtain mx where mx: "history m0 es mx" "sim mx s" using traces_history [OF d(1)] by blast
  have "history m0 (take (length es) es) mx" using mx(1) by simp
  then have "P mx" using stable_history [OF assms(1) d(2,3)] traces_length [OF d(1)] by blast
  then show ?thesis using assms(1) mx(2) unfolding stable_def by blast
qed

text \<open>A flush makes durable what the store holds.\<close>

lemma commit_durably:
  assumes run: "running s os" and co: "commitDurable s os = (None, s', os')" and P: "\<And>m. sim m s \<Longrightarrow> P m"
  shows "durably P s' os'"
proof -
  obtain m0 L es d where tr: "traces m0 L s os es d" using run by (auto simp: running_def)
  obtain m where m: "history m0 es m" "sim m s" using traces_history [OF tr] by blast
  have "traces m0 L s' os' es (length es)" using traces_commit(1) [OF tr co] .
  then show ?thesis using m P [OF m(2)] unfolding durably_def by (metis order_refl take_all)
qed

section \<open>Requests\<close>

lemma run_commit_Inr:
  assumes "run_commit (ph, s1, os1) = (Inr r, s', os')"
  obtains (answered) "ph = Answer (Inr r)" "s' = s1" "os' = os1"
  | (committed) s2 where "ph = Flush r" "commitDurable s1 os1 = (None, s2, os')" "s' = signal s2"
  using assms by (cases ph) (auto simp: run_commit_def split: prod.splits option.splits)

lemma committed_steps:
  "commitDurable s1 os1 = (None, s2, os') \<Longrightarrow> s' = signal s2 \<Longrightarrow> ok_steps (s1, os1) (s', os')"
  unfolding signal_def
  by (auto intro!: rtranclp.rtrancl_into_rtrancl [OF r_into_rtranclp [where r = ok_step, OF ok_step.commit] ok_step.notify])

lemma ok_steps_sys: "ok_steps x y \<Longrightarrow> sys_steps x y"
  by (induction rule: rtranclp_induct) (auto intro: rtranclp.rtrancl_into_rtrancl sys_step.run)

text \<open>An acknowledged request is a critical section and the flush that made it durable.\<close>

lemma Submit_accepted:
  assumes "Submit p nano rnd now s os = (Inr (Some j, False), s', os')" and "fresh_id s nano rnd" and "params_ok p"
  obtains s1 s2 os1 i where "ok_step (s, os) (s1, os1)" "commitDurable s1 os1 = (None, s2, os')" "s' = signal s2"
    "Submit_locked p nano rnd now s os = (Flush (Some j, False), s1, os1)" "NewID nano rnd = Some i" "j = submitted_job p i now"
    "jobs s1 i = Some j"
proof -
  obtain ph s1 os1 where lk: "Submit_locked p nano rnd now s os = (ph, s1, os1)" by (rule prod_cases3)
  have rc: "run_commit (ph, s1, os1) = (Inr (Some j, False), s', os')" using assms(1) lk by (simp add: Submit_def)
  from lk show thesis
  proof (cases rule: Submit_locked_cases)
    case (accepted i t)
    let ?j = "submitted_job p i now"
    from rc accepted(5) have j: "j = ?j" by (cases rule: run_commit_Inr) auto
    from rc accepted(5) obtain s2 where s2: "commitDurable s1 os1 = (None, s2, os')" "s' = signal s2"
      by (cases rule: run_commit_Inr) auto
    obtain t' w l where t: "store_apply s (zero_event\<lparr>evType := eventSubmit, evJob := Some ?j\<rparr>) = Inr t'" "t = t'\<lparr>log := w, lastLSN := l\<rparr>"
      using accepted(4) by (rule recordLocked_done)
    have "jobs s1 i = Some j"
      using t accepted(6) j by (auto simp: store_apply_def submitted_job_def)
    moreover have "ok_step (s, os) (s1, os1)" using lk accepted(5) assms(2,3) by (auto intro: ok_step.submit)
    ultimately show thesis using that s2 lk accepted(2,5) j by blast
  qed (use rc in \<open>auto simp: run_commit_def\<close>)
qed

lemma Ack_accepted:
  assumes "Ack i ep s os = (Inr True, s', os')"
  obtains s1 s2 os1 j where "ok_step (s, os) (s1, os1)" "commitDurable s1 os1 = (None, s2, os')" "s' = signal s2"
    "jobs s i = Some j" "holdsLease j ep" "jobs s1 = (jobs s)(i \<mapsto> apply_ack j)"
proof -
  obtain ph s1 os1 where lk: "Ack_locked i ep s os = (ph, s1, os1)" by (rule prod_cases3)
  have rc: "run_commit (ph, s1, os1) = (Inr True, s', os')" using assms(1) lk by (simp add: Ack_def)
  from lk show thesis
  proof (cases rule: Ack_locked_cases)
    case (fin j)
    from rc fin(3) obtain s2 where s2: "commitDurable s1 os1 = (None, s2, os')" "s' = signal s2"
      by (cases rule: run_commit_Inr) auto
    have "jobs s1 = (jobs s)(i \<mapsto> apply_ack j)" using recordLocked_jobs(1) [OF fin(4), of j apply_ack] fin(1) by simp
    moreover have "ok_step (s, os) (s1, os1)" using lk fin(3) by (auto intro: ok_step.ack)
    ultimately show thesis using that s2 fin(1,2) by blast
  qed (use rc in \<open>auto simp: run_commit_def\<close>)
qed

lemma sim_keeps_spec:
  assumes "sim m s" and "jobs s i = Some j"
  shows "\<exists>k. mjobs m i = Some k \<and> same_spec j k"
  using sim_live [OF assms] same_spec_sym by (metis job_sim_def)

lemma sim_keeps_done:
  assumes "sim m s" and "jobs s i = Some j" and "State j = StateDone"
  shows "\<exists>k. mjobs m i = Some k \<and> State k = StateDone"
proof -
  obtain k where k: "mjobs m i = Some k" "job_sim k j" using sim_live [OF assms(1,2)] .
  then have "State k = StateDone" using assms(3) by (auto simp: job_sim_def split: if_splits)
  with k(1) show ?thesis by blast
qed

lemma stable_spec: "stable (\<lambda>m. \<exists>k. mjobs m i = Some k \<and> same_spec j k)"
  unfolding stable_def
proof (intro conjI allI impI; elim conjE exE)
  fix m e m' k assume "valid_event m e" "mem_apply e m = Some m'" "mjobs m i = Some k" "same_spec j k"
  with valid_event_keeps_job [of m e m' i k] show "\<exists>k. mjobs m' i = Some k \<and> same_spec j k"
    by (blast intro: same_spec_trans)
next
  fix m s k assume k: "sim m s" "mjobs m i = Some k" "same_spec j k"
  obtain l where "jobs s i = Some l" "job_sim k l" using sim_logged [OF k(1,2)] by blast
  then show "\<exists>k. mjobs (mem_of s) i = Some k \<and> same_spec j k"
    using k(3) by (auto simp: mem_of_def job_sim_def intro: same_spec_trans)
qed

lemma stable_done: "stable (\<lambda>m. \<exists>k. mjobs m i = Some k \<and> State k = StateDone)"
  unfolding stable_def
proof (intro conjI allI impI; elim conjE exE)
  fix m e m' k assume "valid_event m e" "mem_apply e m = Some m'" "mjobs m i = Some k" "State k = StateDone"
  with valid_event_keeps_done [of m e m' i k] show "\<exists>k. mjobs m' i = Some k \<and> State k = StateDone" by blast
next
  fix m s k assume k: "sim m s" "mjobs m i = Some k" "State k = StateDone"
  obtain l where "jobs s i = Some l" "job_sim k l" using sim_logged [OF k(1,2)] by blast
  then show "\<exists>k. mjobs (mem_of s) i = Some k \<and> State k = StateDone"
    using k(3) by (auto simp: mem_of_def job_sim_def)
qed


text \<open>What a flush wrote, no later step takes back.\<close>

lemma committed_survives:
  assumes run: "running s os" and ok: "ok_step (s, os) (t, os')" and co: "commitDurable t os' = (None, t', os1)"
    and P: "\<And>m. sim m t \<Longrightarrow> P m" and st: "stable P" and steps: "sys_steps (signal t', os1) (s2, os2)"
  shows "running s2 os2 \<and> P (mem_of s2)"
proof -
  have t: "running t os'" using run_step [OF ok run] by simp
  have d: "durably P t' os1" by (rule commit_durably [OF t co P])
  have "sys_steps (t', os1) (s2, os2)"
    using converse_rtranclp_into_rtranclp [OF sys_step.run [OF ok_step.notify] steps [unfolded signal_def]] .
  moreover have "running t' os1" using run_step [OF ok_step.commit [OF co] t] by simp
  ultimately have "running s2 os2 \<and> durably P s2 os2" using sys_steps_running d st by blast
  then show ?thesis using durably_live [OF st] by blast
qed


text \<open>An acknowledged submission, and an acknowledged completion, after any further steps.\<close>

lemma submit_kept:
  assumes run: "running s os" and id: "fresh_id s nano rnd" and p: "params_ok p"
    and sub: "Submit p nano rnd now s os = (Inr (Some j, False), s1, os1)"
    and steps: "sys_steps (s1, os1) (s2, os2)"
  shows "running s2 os2" and "\<exists>k. jobs s2 (ID j) = Some k \<and> same_spec j k"
    and "\<exists>i. j = submitted_job p i now \<and> TrimSpace (pQueue p) \<noteq> []"
proof -
  let ?P = "\<lambda>m. \<exists>k. mjobs m (ID j) = Some k \<and> same_spec j k"
  obtain t t' os' i where ok: "ok_step (s, os) (t, os')" and co: "commitDurable t os' = (None, t', os1)"
    and s1: "s1 = signal t'" and lk: "Submit_locked p nano rnd now s os = (Flush (Some j, False), t, os')"
    and j: "j = submitted_job p i now" "jobs t i = Some j"
    using sub id p by (rule Submit_accepted)
  have "?P m" if "sim m t" for m using sim_keeps_spec [OF that j(2)] j(1) by (simp add: submitted_job_def)
  from committed_survives [where P = ?P, OF run ok co this stable_spec steps [unfolded s1]]
  show "running s2 os2" "\<exists>k. jobs s2 (ID j) = Some k \<and> same_spec j k" by (simp_all add: mem_of_def)
  have "TrimSpace (pQueue p) \<noteq> []" using lk by (auto simp: Submit_locked_def)
  with j(1) show "\<exists>i. j = submitted_job p i now \<and> TrimSpace (pQueue p) \<noteq> []" by blast
qed

text \<open>What recovery makes of the jobs when nothing was left to flush.\<close>

lemma recovered_job:
  assumes "job_sim k j"
  shows "same_spec j (recover_job now k) \<and> Attempt (recover_job now k) = Attempt j \<and> Epoch (recover_job now k) = Epoch j \<and>
    State (recover_job now k) = (if State j = StateLeased then StateRetryWait else State j) \<and>
    (State j \<notin> {StateLeased, StateRetryWait, StateDone} \<longrightarrow> recover_job now k = j)"
proof -
  have spec: "same_spec j k" "Attempt k = Attempt j" "Epoch k = Epoch j"
    using assms same_spec_sym by (auto simp: job_sim_def)
  show ?thesis
  proof (cases "State k = StateLeased")
    case True
    then have "State j = StateLeased \<or> State j = StateRetryWait" using assms by (simp add: job_sim_def)
    with spec True show ?thesis by (elim disjE) (simp_all add: recover_job_def same_spec_def)
  next
    case False
    then have "recover_job now k = k" "State k = State j" "State j \<noteq> StateDone \<longrightarrow> k = j"
      using assms by (auto simp: job_sim_def recover_job_def split: if_splits)
    with spec False show ?thesis by auto
  qed
qed

lemma flushed_restart:
  assumes run: "running s os" and fl: "flushed s os" and cr: "crash os os1" and h: "faults os1 = []"
    and cfg: "cfgDir cfg = sdir s" and v: "enumerates visit" and rm: "room s"
  shows "\<exists>s' os' m. Open visit cfg now os1 = (Inr s', os') \<and> sim m s \<and>
    jobs s' = map_option (recover_job now) \<circ> mjobs m \<and> idem s' = idem s"
proof -
  obtain m0 L es d where tr: "traces m0 L s os es d" using run by (auto simp: running_def)
  have d: "d = length es" using flushed_all [OF tr fl] .
  have "L + length es + 2 < 2 ^ 64" using tr rm by (simp add: traces_def room_def)
  moreover have "unat (reserved_by m0 es) + 1 < 2 ^ 64" using rm traces_reserved [OF tr] by (simp add: room_def)
  ultimately obtain s' os2 n k m where op: "Open visit cfg now os1 = (Inr s', os2)" "d \<le> k" "k \<le> n" "n \<le> length es"
    "history m0 (take n es) m" "jobs s' = map_option (recover_job now) \<circ> mjobs m" "idem s' = midem m"
    using Open_recovers [OF tr cr h cfg v, of now] by blast
  have "history m0 es m" using op(2-5) d by simp
  then have "sim m s" using traces_history [OF tr] history_unique by blast
  then show ?thesis using op by (auto simp: sim_def)
qed

end
