(* ===== verification/Cv_Demo.thy ===== *)
theory Cv_Demo
  imports Cv_Log
begin

text \<open>
  Concrete states for the examples of this development: a healthy disk that holds one
  segment with the given records, flushed, and the log opened on it.
\<close>

definition demo_wal :: "string \<Rightarrow> bytes list \<Rightarrow> wal" where
  "demo_wal dir ps =
     \<lparr>wdir = dir, maxSegmentSize = DefaultMaxSegmentSize, active = segmentName 1, active_open = True,
      closed = False, buf = [], bases = [1], activeBase = 1, activeSize = int (length (frames ps)),
      nextLSN = 1 + length ps\<rparr>"

definition demo_file :: "bytes list \<Rightarrow> fnode" where
  "demo_file ps =
     \<lparr>fdata = frames ps, fsynced = length (frames ps), flost = False, flinked = True, fprev = None\<rparr>"

definition demo_os :: "string \<Rightarrow> bytes list \<Rightarrow> os" where
  "demo_os dir ps =
     \<lparr>dirs = (\<lambda>_. [])(dir := [(segmentName 1, RegFile (demo_file ps))]), faults = [], darwin = False\<rparr>"

definition empty_os :: os where
  "empty_os = \<lparr>dirs = (\<lambda>_. []), faults = [], darwin = False\<rparr>"

lemma crash_refl:
  assumes "\<And>d. distinct (map fst (dirs os d))"
    and "\<And>d n f. file_at os d n = Some f \<Longrightarrow> fsynced f \<le> length (fdata f)"
  shows "crash os os"
proof -
  have "crash_file f f" if "fsynced f \<le> length (fdata f)" for f
    using that unfolding crash_file_def by (intro exI [of _ "length (fdata f)"] exI [of _ "fsynced f"]) simp
  then have "crash_entry e (map_of (dirs os d) n)" if "map_of (dirs os d) n = Some e" for d n e
    using that assms(2) [of d n] by (cases e) (auto simp: crash_entry_def file_at_def)
  with assms(1) show ?thesis by (auto simp: crash_def split: option.split)
qed

lemma demo_simps [simp]:
  "faults (demo_os dir ps) = []" "wdir (demo_wal dir ps) = dir" "buf (demo_wal dir ps) = []"
  "closed (demo_wal dir ps) = False" "nextLSN (demo_wal dir ps) = 1 + length ps"
  by (simp_all add: demo_os_def demo_wal_def)

lemma demo_file_at [simp]:
  "file_at (demo_os dir ps) d n = (if d = dir \<and> n = segmentName 1 then Some (demo_file ps) else None)"
  by (simp add: file_at_def demo_os_def)

lemma demo_crash: "crash (demo_os dir ps) (demo_os dir ps)"
  by (rule crash_refl) (auto simp: demo_os_def demo_file_def file_at_def split: if_splits)

lemma demo_rel:
  assumes "list_all payload_ok ps"
  shows "log_rel (demo_wal dir ps) (demo_os dir ps) 1 ps (length ps)"
proof -
  have "dir_ok (demo_os dir ps) dir {1}"
    by (auto simp: dir_ok_def demo_os_def dest: segment_base_nameD)
  then have "wal_rel (demo_wal dir ps) (demo_os dir ps) 1 [] ps"
    using assms by (simp add: wal_rel_def demo_wal_def active_seg_def demo_file_def)
  moreover have "durable_count (demo_wal dir ps) (demo_os dir ps) [] ps = length ps"
    by (simp add: durable_count_def demo_wal_def demo_file_def whole_all)
  ultimately show ?thesis unfolding log_rel_def by fastforce
qed

lemma demo_open:
  assumes "list_all payload_ok ps" and "dir \<noteq> []" and "m \<le> 0"
  shows "wal_Open \<lparr>optDir = dir, optMaxSegmentSize = m\<rparr> (demo_os dir ps) = (Inr (demo_wal dir ps), demo_os dir ps)"
proof -
  have ls: "listSegments (demo_os dir ps) dir = (Inr [1], demo_os dir ps)"
    using segment_base_name [of 1] by (simp add: listSegments_def os_readdir_def demo_os_def List.map_filter_def)
  have "scanRecords (frames ps) False scan_count () 0 0 = (length (frames ps), length ps, None, ())"
    using scan_torn_log [OF assms(1) fn_fold_scan_count, of "length (frames ps)" False 0 0] by (simp add: whole_all)
  then have "open_last w (demo_os dir ps) 1 =
      (Inr (w\<lparr>active := segmentName 1, active_open := True, activeBase := 1,
          activeSize := int (length (frames ps)), nextLSN := 1 + length ps\<rparr>), demo_os dir ps)" if "wdir w = dir" for w
    using that by (simp add: open_last_def Let_def os_open_def os_read_def demo_file_def)
  with ls assms(2,3) show ?thesis
    by (simp add: wal_Open_def demo_wal_def Let_def)
qed

lemma demo_reopen:
  assumes "list_all payload_ok ps" and "dir \<noteq> []"
  shows "wal_reopen (demo_wal dir ps) (demo_os dir ps) (demo_wal dir ps) (demo_os dir ps)"
  using demo_crash demo_open [OF assms, of 0] by (auto simp: wal_reopen_def)

lemma demo_append:
  assumes "payload_ok p" and "int (length (frames (ps @ [p]))) \<le> DefaultMaxSegmentSize"
  shows "wal_Append (demo_wal dir ps) (demo_os dir ps) p =
    (Inr (1 + length ps),
     (demo_wal dir ps)\<lparr>buf := frame p, activeSize := int (length (frames (ps @ [p]))), nextLSN := 2 + length ps\<rparr>,
     demo_os dir ps)"
  using assms by (simp add: wal_Append_def appendLocked_def payload_ok_def Let_def demo_wal_def)

text \<open>Flushing what was appended gives the state with one more record.\<close>

lemma demo_sync:
  "wal_Sync ((demo_wal dir ps)\<lparr>buf := frame p, activeSize := int (length (frames (ps @ [p]))), nextLSN := 2 + length ps\<rparr>)
     (demo_os dir ps) = (None, demo_wal dir (ps @ [p]), demo_os dir (ps @ [p]))"
proof -
  have ne: "frame p \<noteq> []" by (metis frame_length headerSize_def length_0_conv add_is_0 zero_neq_numeral)
  have set: "set_file (demo_os dir ps) dir (segmentName 1) f =
      (demo_os dir ps)\<lparr>dirs := (\<lambda>_. [])(dir := [(segmentName 1, RegFile f)])\<rparr>" for f
    by (simp add: set_file_def demo_os_def)
  show ?thesis
    using ne by (simp add: wal_Sync_def Sync_write_def Sync_flush_def flushBufferLocked_def demo_wal_def os_write_def
        set sync_active_def fullSync_def fullSync_other_def os_fsync_def upd_file_def file_at_def set_file_def
        synced_ok_def demo_os_def demo_file_def)
qed

lemma demo_AppendSync:
  assumes "payload_ok p" and "int (length (frames (ps @ [p]))) \<le> DefaultMaxSegmentSize"
  shows "wal_AppendSync (demo_wal dir ps) (demo_os dir ps) p =
    (Inr (1 + length ps), demo_wal dir (ps @ [p]), demo_os dir (ps @ [p]))"
  using demo_append [OF assms, where dir = dir] demo_sync [where dir = dir and ps = ps and p = p]
  by (simp add: wal_AppendSync_def wal_Append_def)

lemma demo_replay:
  assumes "list_all payload_ok ps" and "lo < 2 ^ 64 - 1"
  shows "wal_Replay (demo_wal dir ps) (demo_os dir ps) lo fn s =
    (replay_result (replay_from lo fn 1 ps s), demo_wal dir ps, demo_os dir ps)"
proof -
  have seg: "seg_files (demo_os dir ps) dir 1 [ps]" by (simp add: demo_file_def)
  have "replay_loop dir lo fn (seg_bases 1 [ps]) s (demo_os dir ps) =
      (replay_result (replay_from lo fn 1 (concat [ps]) s), demo_os dir ps)"
    using assms by (intro replay_loop_healthy [OF seg]) simp_all
  then show ?thesis
    by (simp add: wal_Replay_def flushBufferLocked_def demo_wal_def del: replay_loop.simps)
qed

end
