(* ===== verification/Cv_Store_Demo.thy ===== *)
theory Cv_Store_Demo
  imports Cv_System Cv_Demo
begin

text \<open>
  A concrete life of a store, for the examples: opened on an empty disk, one job
  submitted, leased and acknowledged.
\<close>

section \<open>Opening an empty directory\<close>

definition demo_dir :: string where "demo_dir = ''d/wal''"

definition demo_cfg :: config where
  "demo_cfg = \<lparr>cfgDir = ''d'', BackoffBase = 2, BackoffCap = 0, EpochBlockSize = 8, WALSegmentSize = 0\<rparr>"

definition demo_visit :: "(string \<rightharpoonup> job) \<Rightarrow> string list" where
  "demo_visit m = sorted_list_of_set (dom m)"

definition demo_store :: store where
  "demo_store = finish_open demo_visit 0 (new_store demo_cfg (demo_wal demo_dir []))"

lemma demo_visit: "enumerates demo_visit"
  by (simp add: enumerates_def demo_visit_def)

lemma demo_store_fields [simp]:
  "log demo_store = demo_wal demo_dir []" "jobs demo_store = Map.empty" "idem demo_store = Map.empty"
  "failed demo_store = None" "nextEpoch demo_store = 1" "epochReservedUpTo demo_store = 0" "lastLSN demo_store = 0"
  "leased demo_store = {}" "index demo_store = newScheduleIndex" "epochBlockSize demo_store = 8"
  "sdir demo_store = ''d''" "snapDir demo_store = ''d/snapshots''"
  by (simp_all add: demo_store_def finish_open_def rebuildIndexLocked_def recoverLeasedLocked_def new_store_def Let_def
      demo_visit_def demo_cfg_def List.map_filter_simps defaultEpochBlockSize_def path_Join_def snapshotDirName_def)

lemma demo_running: "running demo_store (demo_os demo_dir [])"
proof -
  let ?s = "new_store demo_cfg (demo_wal demo_dir [])"
  have m: "mem_of ?s = empty_memory" by (simp add: mem_of_def empty_memory_def new_store_def)
  have "mem_ok (mem_of ?s)" using m mem_ok_empty by simp
  moreover have "0 < epochBlockSize ?s" by (simp add: new_store_def demo_cfg_def word_gt_0)
  moreover have "unat (epochReservedUpTo ?s) + 1 < 2 ^ 64" by (simp add: new_store_def)
  ultimately have fin: "live demo_store" "sim empty_memory demo_store" "entries_ok demo_store"
    using finish_open_ok [of ?s demo_visit 0] demo_visit m by (simp_all add: demo_store_def)
  have "log_rel (demo_wal demo_dir []) (demo_os demo_dir []) 1 [] 0" using demo_rel [of "[]" demo_dir] by simp
  moreover have "history empty_memory [] empty_memory" by (rule history.start)
  ultimately have "log_holds empty_memory 0 demo_store (demo_os demo_dir []) [] 0"
    using fin(2) unfolding log_holds_def by (intro exI [of _ 1] exI [of _ "[]"] exI [of _ empty_memory]) simp
  moreover have "snap_on (demo_os demo_dir []) (snapDir demo_store) empty_memory 0"
    by (simp add: snap_on_def no_snap_def demo_os_def demo_dir_def)
  moreover have "placed demo_store" by (simp add: placed_def path_Join_def walDirName_def snapshotDirName_def demo_dir_def)
  moreover have "mem_texts empty_memory" by (simp add: mem_texts_def empty_memory_def)
  ultimately have "traces empty_memory 0 demo_store (demo_os demo_dir []) [] 0"
    by (simp add: traces_def mem_ok_empty)
  moreover have "texts_ok demo_store" by (simp add: texts_ok_def)
  ultimately show ?thesis using fin unfolding running_def by blast
qed

lemma demo_opened: "Open demo_visit demo_cfg 0 (demo_os demo_dir []) = (Inr demo_store, demo_os demo_dir [])"
proof -
  have "listSnapshots (demo_os demo_dir []) ''d/snapshots'' = (Inr [], demo_os demo_dir [])"
    by (simp add: listSnapshots_def os_readdir_def demo_os_def demo_dir_def List.map_filter_simps)
  moreover have "snapDir (new_store demo_cfg w) = ''d/snapshots''" for w
    by (simp add: new_store_def demo_cfg_def path_Join_def snapshotDirName_def)
  ultimately have "loadLatestSnapshot (new_store demo_cfg w) (demo_os demo_dir []) = (Inr 0, new_store demo_cfg w, demo_os demo_dir [])" for w
    by (simp add: loadLatestSnapshot_def)
  moreover have "wal_Open \<lparr>optDir = ''d/wal'', optMaxSegmentSize = 0\<rparr> (demo_os demo_dir []) = (Inr (demo_wal demo_dir []), demo_os demo_dir [])"
    using demo_open [of "[]" demo_dir 0] by (simp add: demo_dir_def)
  moreover have "(new_store demo_cfg w)\<lparr>lastLSN := 0, log := w\<rparr> = new_store demo_cfg w" for w by (simp add: new_store_def)
  ultimately show ?thesis
    using demo_replay [of "[]" 1 demo_dir replay_event "new_store demo_cfg (demo_wal demo_dir [])"]
    by (simp add: Open_def demo_store_def demo_cfg_def path_Join_def walDirName_def new_store_def)
qed

section \<open>Recording\<close>

definition small :: "bytes list \<Rightarrow> bool" where
  "small ps \<longleftrightarrow> length (frames ps) \<le> 10000"

lemma demo_record:
  assumes "log s = demo_wal dir ps" and "failed s = None" and "encodeEvent e = Some p" and "p \<noteq> []"
    and "small (ps @ [p])" and "store_apply s e = Inr t"
  shows "\<exists>w. recordLocked s (demo_os dir ps) e = (None, t\<lparr>log := w, lastLSN := 1 + length ps\<rparr>, demo_os dir ps) \<and>
    wal_Sync w (demo_os dir ps) = (None, demo_wal dir (ps @ [p]), demo_os dir (ps @ [p]))"
proof -
  have len: "length p \<le> 10000" using assms(5) by (simp add: small_def)
  have "payload_ok p" using assms(4) len by (simp add: payload_ok_def MaxRecordSize_def)
  moreover have "int (length (frames (ps @ [p]))) \<le> DefaultMaxSegmentSize"
    using assms(5) by (simp add: small_def DefaultMaxSegmentSize_def)
  ultimately have "wal_Append (demo_wal dir ps) (demo_os dir ps) p =
    (Inr (1 + length ps),
     (demo_wal dir ps)\<lparr>buf := frame p, activeSize := int (length (frames (ps @ [p]))), nextLSN := 2 + length ps\<rparr>,
     demo_os dir ps)" by (rule demo_append)
  then obtain w where w: "wal_Append (demo_wal dir ps) (demo_os dir ps) p = (Inr (1 + length ps), w, demo_os dir ps)"
    "wal_Sync w (demo_os dir ps) = (None, demo_wal dir (ps @ [p]), demo_os dir (ps @ [p]))"
    using demo_sync [where dir = dir and ps = ps and p = p] by blast
  then have "recordLocked s (demo_os dir ps) e = (None, t\<lparr>log := w, lastLSN := 1 + length ps\<rparr>, demo_os dir ps)"
    using assms by (simp add: recordLocked_def store_apply_log)
  with w(2) show ?thesis by blast
qed

lemma demo_commit:
  assumes "wal_Sync (log s) os = (None, w, os')" and "log s = v"
  shows "commitDurable s os = (None, s\<lparr>log := w\<rparr>, os')"
  using assms by (simp add: commitDurable_def)

section \<open>One job\<close>

definition demo_params :: SubmitParams where
  "demo_params =
     \<lparr>pQueue = ''q'', pHandler = '''', pPayload = [1, 2], pIdempotencyKey = ''k'', pPriority = PriorityHigh,
      pMaxRetries = 1, pDelay = 0\<rparr>"

definition demo_id :: string where "demo_id = ''00000000000000010708''"

definition demo_job :: job where "demo_job = submitted_job demo_params demo_id 5"

definition demo_submit :: event where "demo_submit = zero_event\<lparr>evType := eventSubmit, evJob := Some demo_job\<rparr>"
definition demo_reserve :: event where "demo_reserve = zero_event\<lparr>evType := eventEpochReserve, evReservedUpTo := 8\<rparr>"
definition demo_lease :: event where "demo_lease = lease_event demo_job 1 ''w'' 15"
definition demo_ack :: event where "demo_ack = zero_event\<lparr>evType := eventAck, evJobID := demo_id, evEpoch := 1\<rparr>"

definition demo_payload :: "event \<Rightarrow> bytes" where "demo_payload e = the (encodeEvent e)"

lemma demo_NewID: "NewID 1 (Some [7, 8]) = Some demo_id"
  by code_simp

definition encodes :: "event \<Rightarrow> bool" where
  "encodes e \<longleftrightarrow> (case encodeEvent e of None \<Rightarrow> False | Some b \<Rightarrow> 0 < length b \<and> length b \<le> 1000)"

lemma demo_encodes_submit [simp]: "encodes demo_submit"
  by code_simp

lemma demo_encodes_reserve [simp]: "encodes demo_reserve"
  by code_simp

lemma demo_encodes_lease [simp]: "encodes demo_lease"
  by code_simp

lemma demo_encodes_ack [simp]: "encodes demo_ack"
  by code_simp

lemma demo_encode:
  assumes "encodes e"
  shows "encodeEvent e = Some (demo_payload e)" and "demo_payload e \<noteq> []" and "length (demo_payload e) \<le> 1000"
  using assms by (auto simp: encodes_def demo_payload_def split: option.splits)

lemma demo_small: "length es \<le> 5 \<Longrightarrow> list_all encodes es \<Longrightarrow> small (map demo_payload es)"
proof -
  have "list_all encodes es \<Longrightarrow> length (frames (map demo_payload es)) \<le> 1100 * length es"
  proof (induction es)
    case (Cons e es)
    then show ?case using demo_encode(3) [of e] by (simp add: headerSize_def)
  qed simp
  then show "length es \<le> 5 \<Longrightarrow> list_all encodes es \<Longrightarrow> small (map demo_payload es)" by (simp add: small_def)
qed

abbreviation demo_disk :: "event list \<Rightarrow> os" where "demo_disk es \<equiv> demo_os demo_dir (map demo_payload es)"
abbreviation demo_log :: "event list \<Rightarrow> wal" where "demo_log es \<equiv> demo_wal demo_dir (map demo_payload es)"

text \<open>Recording one of the events and flushing it.\<close>

lemma demo_step:
  assumes "log s = demo_log es" and "failed s = None" and "list_all encodes (es @ [e])" and "length es < 5"
    and "store_apply s e = Inr t"
  shows "\<exists>w. recordLocked s (demo_disk es) e = (None, t\<lparr>log := w, lastLSN := 1 + length es\<rparr>, demo_disk es) \<and>
    wal_Sync w (demo_disk es) = (None, demo_log (es @ [e]), demo_disk (es @ [e]))"
proof -
  have "small (map demo_payload es @ [demo_payload e])" using demo_small [of "es @ [e]"] assms(3,4) by simp
  with demo_record [OF assms(1,2) demo_encode(1,2) _ assms(5)] assms(3) show ?thesis by simp
qed

text \<open>The job is accepted and acknowledged.\<close>

lemma demo_texts: "params_ok demo_params" "fresh_id demo_store 1 (Some [7, 8])" "valid_utf8 ''w''"
  by (auto simp: params_ok_def demo_params_def fresh_id_def int64_ok_def intro: valid_utf8_ascii split: option.split)

lemma demo_trim: "TrimSpace ''q'' = ''q''"
  by (rule TrimSpace_printable) (simp_all add: printable_def)

definition submitted_index :: scheduleIndex where "submitted_index = index_push newScheduleIndex demo_job 5"

lemma demo_job_fields [simp]:
  "ID demo_job = demo_id" "Queue demo_job = ''q''" "Handler demo_job = ''shell''" "Payload demo_job = [1, 2]"
  "IdempotencyKey demo_job = ''k''" "Priority demo_job = PriorityHigh" "MaxRetries demo_job = 1" "Attempt demo_job = 0"
  "State demo_job = StatePending" "Epoch demo_job = 0" "EnqueuedAt demo_job = 5" "EligibleAt demo_job = 5"
  "LeaseExpiresAt demo_job = 0" "LeasedBy demo_job = []" "LastError demo_job = []"
  by (simp_all add: demo_job_def submitted_job_def demo_params_def)

text \<open>The store after the job was accepted, and after its lease.\<close>

definition submitted_store :: store where
  "submitted_store =
     demo_store\<lparr>jobs := [demo_id \<mapsto> demo_job], idem := [idemKey ''q'' ''k'' \<mapsto> demo_id], index := submitted_index,
       log := demo_log [demo_submit], lastLSN := 1, notifyCh := True\<rparr>"

lemma demo_submitted:
  "Submit demo_params 1 (Some [7, 8]) 5 demo_store (demo_disk []) =
     (Inr (Some demo_job, False), submitted_store, demo_disk [demo_submit])"
proof -
  let ?t = "demo_store\<lparr>jobs := [demo_id \<mapsto> demo_job], idem := [idemKey ''q'' ''k'' \<mapsto> demo_id]\<rparr>"
  have ap: "store_apply demo_store demo_submit = Inr ?t"
    by (simp add: store_apply_def demo_submit_def)
  obtain w where w: "recordLocked demo_store (demo_disk []) demo_submit = (None, ?t\<lparr>log := w, lastLSN := 1\<rparr>, demo_disk [])"
    "wal_Sync w (demo_disk []) = (None, demo_log [demo_submit], demo_disk [demo_submit])"
    using demo_step [of demo_store "[]" demo_submit ?t] ap by auto
  have "Submit_locked demo_params 1 (Some [7, 8]) 5 demo_store (demo_disk []) =
      (Flush (Some demo_job, False), ?t\<lparr>log := w, lastLSN := 1, index := submitted_index\<rparr>, demo_disk [])"
    using w(1) demo_trim demo_NewID
    by (simp add: Submit_locked_def demo_submit_def demo_job_def submitted_job_def demo_params_def submitted_index_def Let_def)
  then show ?thesis
    using w(2) by (simp add: Submit_def run_commit_def commitDurable_def signal_def submitted_store_def)
qed

lemma submitted_ok_steps: "ok_steps (demo_store, demo_disk []) (submitted_store, demo_disk [demo_submit])"
proof -
  obtain s1 s2 os1 where "ok_step (demo_store, demo_disk []) (s1, os1)"
    and co: "commitDurable s1 os1 = (None, s2, demo_disk [demo_submit])" "submitted_store = signal s2"
    by (rule Submit_accepted [OF demo_submitted demo_texts(2,1)])
  then show ?thesis by (intro converse_rtranclp_into_rtranclp [OF _ committed_steps [OF co]])
qed


lemma submitted_running: "running submitted_store (demo_disk [demo_submit])"
  using sys_steps_running [OF ok_steps_sys [OF submitted_ok_steps] demo_running [folded list.map(1) [of demo_payload]]]
  by simp

text \<open>The lease: a block of fencing tokens is reserved first, then the lease is recorded.\<close>

lemma submitted_fields [simp]:
  "jobs submitted_store = [demo_id \<mapsto> demo_job]" "idem submitted_store = [idemKey ''q'' ''k'' \<mapsto> demo_id]"
  "log submitted_store = demo_log [demo_submit]" "failed submitted_store = None" "lastLSN submitted_store = 1"
  "index submitted_store = submitted_index" "nextEpoch submitted_store = 1" "epochReservedUpTo submitted_store = 0"
  "epochBlockSize submitted_store = 8" "leased submitted_store = {}" "sdir submitted_store = ''d''"
  by (simp_all add: submitted_store_def)

lemma submitted_index: "submitted_index = newScheduleIndex(''q'' \<mapsto> \<lparr>ready = [entry_of demo_job], delayed = []\<rparr>)"
proof -
  have "heap_Push readyHeap_Less [] e = [e]" for e by (simp add: heap_Push_def, subst heap_up.simps, simp add: parent_def)
  then show ?thesis
    by (simp add: submitted_index_def index_push_def forQueue_def newScheduleIndex_def entry_of_def Let_def)
qed

lemma submitted_pop:
  "index_promote submitted_index ''q'' 10 = submitted_index"
  "index_pop submitted_index ''q'' = Some (entry_of demo_job, newScheduleIndex(''q'' \<mapsto> \<lparr>ready = [], delayed = []\<rparr>))"
proof -
  show "index_promote submitted_index ''q'' 10 = submitted_index"
    by (simp add: submitted_index index_promote_def, subst promote_loop.simps, simp)
  have "heap_Pop readyHeap_Less [e] = Some (e, [])" for e
    by (simp add: heap_Pop_def Let_def, subst heap_down.simps, simp add: swap_def)
  then show "index_pop submitted_index ''q'' = Some (entry_of demo_job, newScheduleIndex(''q'' \<mapsto> \<lparr>ready = [], delayed = []\<rparr>))"
    by (simp add: submitted_index index_pop_def)
qed


definition demo_leased :: job where "demo_leased = apply_lease demo_lease demo_job"

text \<open>The store after the lease, once somebody's flush has written it out, and after the acknowledgement.\<close>

definition leased_store :: store where
  "leased_store =
     submitted_store\<lparr>jobs := [demo_id \<mapsto> demo_leased], leased := {demo_id}, nextEpoch := 2, epochReservedUpTo := 8,
       index := newScheduleIndex(''q'' \<mapsto> \<lparr>ready = [], delayed = []\<rparr>),
       log := demo_log [demo_submit, demo_reserve, demo_lease], lastLSN := 3\<rparr>"

definition acked_store :: store where
  "acked_store =
     leased_store\<lparr>jobs := [demo_id \<mapsto> apply_ack demo_leased], leased := {},
       log := demo_log [demo_submit, demo_reserve, demo_lease, demo_ack], lastLSN := 4\<rparr>"

lemma demo_AppendSync_event:
  assumes "list_all encodes (es @ [e])" and "length es < 5"
  shows "wal_AppendSync (demo_log es) (demo_disk es) (demo_payload e) = (Inr (1 + length es), demo_log (es @ [e]), demo_disk (es @ [e]))"
proof -
  have "small (map demo_payload es @ [demo_payload e])" using demo_small [of "es @ [e]"] assms by simp
  then have "int (length (frames (map demo_payload es @ [demo_payload e]))) \<le> DefaultMaxSegmentSize"
    by (simp add: small_def DefaultMaxSegmentSize_def)
  moreover have "payload_ok (demo_payload e)"
    using demo_encode(2,3) [of e] assms(1) by (simp add: payload_ok_def MaxRecordSize_def)
  ultimately show ?thesis using demo_AppendSync [where dir = demo_dir and ps = "map demo_payload es"] by simp
qed

definition reserved_store :: store where
  "reserved_store = submitted_store\<lparr>index := newScheduleIndex(''q'' \<mapsto> \<lparr>ready = [], delayed = []\<rparr>),
     nextEpoch := 2, epochReservedUpTo := 8, log := demo_log [demo_submit, demo_reserve], lastLSN := 2\<rparr>"

lemma demo_epoch:
  "nextEpochLocked (submitted_store\<lparr>index := newScheduleIndex(''q'' \<mapsto> \<lparr>ready = [], delayed = []\<rparr>)\<rparr>) (demo_disk [demo_submit]) =
     (Inr 1, reserved_store, demo_disk [demo_submit, demo_reserve])"
proof -
  have ap: "store_apply t demo_reserve = Inr (t\<lparr>epochReservedUpTo := 8\<rparr>)" for t
    by (simp add: store_apply_def demo_reserve_def)
  show ?thesis
    using demo_AppendSync_event [of "[demo_submit]" demo_reserve] demo_encode(1) [of demo_reserve]
    by (simp add: nextEpochLocked_def reserveEpochsLocked_def demo_reserve_def [symmetric] ap reserved_store_def)
qed


lemma demo_leased:
  "\<exists>w. Lease ''q'' ''w'' 5 10 submitted_store (demo_disk [demo_submit]) =
      (Inr (Some demo_leased), leased_store\<lparr>log := w\<rparr>, demo_disk [demo_submit, demo_reserve]) \<and>
    commitDurable (leased_store\<lparr>log := w\<rparr>) (demo_disk [demo_submit, demo_reserve]) =
      (None, leased_store, demo_disk [demo_submit, demo_reserve, demo_lease])"
proof -
  let ?t = "reserved_store\<lparr>jobs := [demo_id \<mapsto> demo_leased], leased := {demo_id}\<rparr>"
  have fs: "log reserved_store = demo_log [demo_submit, demo_reserve]" "failed reserved_store = None"
    "jobs reserved_store = [demo_id \<mapsto> demo_job]" "leased reserved_store = {}"
    by (simp_all add: reserved_store_def)
  have ty: "evType demo_lease = eventLease" "evJobID demo_lease = demo_id" "evEpoch demo_lease = 1"
    by (simp_all add: demo_lease_def lease_event_def)
  have ap: "store_apply reserved_store demo_lease = Inr ?t"
    using fs ty by (simp add: store_apply_def demo_leased_def)
  obtain w where w: "recordLocked reserved_store (demo_disk [demo_submit, demo_reserve]) demo_lease =
      (None, ?t\<lparr>log := w, lastLSN := 3\<rparr>, demo_disk [demo_submit, demo_reserve])"
    "wal_Sync w (demo_disk [demo_submit, demo_reserve]) =
      (None, demo_log [demo_submit, demo_reserve, demo_lease], demo_disk [demo_submit, demo_reserve, demo_lease])"
    using demo_step [OF fs(1,2) _ _ ap] by (auto simp: numeral_3_eq_3)
  have res: "?t\<lparr>log := w, lastLSN := 3\<rparr> = leased_store\<lparr>log := w\<rparr>"
    by (simp add: leased_store_def reserved_store_def)
  have ev: "demo_lease = zero_event\<lparr>evType := eventLease, evJobID := ID demo_job, evEpoch := 1, evWorkerID := ''w'',
      evLeaseExpiresAt := 10 + 5, evAttempt := Attempt demo_job + 1\<rparr>"
    by (simp add: demo_lease_def lease_event_def)
  have js: "jobs leased_store demo_id = Some demo_leased" by (simp add: leased_store_def)
  have id: "entryID (entry_of demo_job) = demo_id" "entryEligibleAt (entry_of demo_job) = 5" by (simp_all add: entry_of_def)
  have "Lease ''q'' ''w'' 5 10 submitted_store (demo_disk [demo_submit]) =
      (Inr (Some demo_leased), leased_store\<lparr>log := w\<rparr>, demo_disk [demo_submit, demo_reserve])"
    unfolding Lease_def
    by (subst lease_loop.simps)
      (simp add: submitted_pop id js demo_epoch [simplified] w(1) [unfolded ev res, simplified] Let_def)
  moreover have "commitDurable (leased_store\<lparr>log := w\<rparr>) (demo_disk [demo_submit, demo_reserve]) =
      (None, leased_store, demo_disk [demo_submit, demo_reserve, demo_lease])"
    using w(2) by (simp add: commitDurable_def leased_store_def)
  ultimately show ?thesis by blast
qed


lemma demo_acked:
  "Ack demo_id 1 leased_store (demo_disk [demo_submit, demo_reserve, demo_lease]) =
     (Inr True, acked_store, demo_disk [demo_submit, demo_reserve, demo_lease, demo_ack])"
proof -
  let ?es = "[demo_submit, demo_reserve, demo_lease]"
  let ?t = "leased_store\<lparr>jobs := [demo_id \<mapsto> apply_ack demo_leased], leased := {}\<rparr>"
  have fs: "log leased_store = demo_log ?es" "failed leased_store = None" "notifyCh leased_store = True"
    "jobs leased_store = [demo_id \<mapsto> demo_leased]" "leased leased_store = {demo_id}"
    by (simp_all add: leased_store_def) (simp add: submitted_store_def)
  have hold: "holdsLease demo_leased 1"
    by (simp add: holdsLease_def demo_leased_def demo_lease_def lease_event_def apply_lease_def)
  have "ID demo_leased = demo_id" by (simp add: demo_leased_def)
  then have ap: "store_apply leased_store demo_ack = Inr ?t"
    using fs by (simp add: store_apply_def demo_ack_def)
  obtain w where w: "recordLocked leased_store (demo_disk ?es) demo_ack = (None, ?t\<lparr>log := w, lastLSN := 4\<rparr>, demo_disk ?es)"
    "wal_Sync w (demo_disk ?es) = (None, demo_log (?es @ [demo_ack]), demo_disk (?es @ [demo_ack]))"
    using demo_step [OF fs(1,2) _ _ ap] by (auto simp: eval_nat_numeral)
  have "Ack_locked demo_id 1 leased_store (demo_disk ?es) = (Flush True, ?t\<lparr>log := w, lastLSN := 4\<rparr>, demo_disk ?es)"
    using w(1) fs(4) hold by (simp add: Ack_locked_def demo_ack_def)
  then show ?thesis
    using w(2) fs(3) by (simp add: Ack_def run_commit_def commitDurable_def signal_def acked_store_def)
qed

lemma leased_steps: "ok_steps (submitted_store, demo_disk [demo_submit]) (leased_store, demo_disk [demo_submit, demo_reserve, demo_lease])"
proof -
  obtain w where w: "Lease ''q'' ''w'' 5 10 submitted_store (demo_disk [demo_submit]) =
      (Inr (Some demo_leased), leased_store\<lparr>log := w\<rparr>, demo_disk [demo_submit, demo_reserve])"
    "commitDurable (leased_store\<lparr>log := w\<rparr>) (demo_disk [demo_submit, demo_reserve]) =
      (None, leased_store, demo_disk [demo_submit, demo_reserve, demo_lease])"
    using demo_leased by blast
  have "in_range submitted_store" by (simp add: in_range_def int64_ok_def)
  with w show ?thesis
    by (intro converse_rtranclp_into_rtranclp [OF ok_step.lease [OF w(1)] r_into_rtranclp [where r = ok_step, OF ok_step.commit [OF w(2)]]])
      (simp_all add: demo_texts)
qed

lemma leased_running: "running leased_store (demo_disk [demo_submit, demo_reserve, demo_lease])"
  using sys_steps_running [OF ok_steps_sys [OF leased_steps] submitted_running] by simp

lemma acked_steps:
  "ok_steps (leased_store, demo_disk [demo_submit, demo_reserve, demo_lease])
     (acked_store, demo_disk [demo_submit, demo_reserve, demo_lease, demo_ack])"
proof -
  obtain s1 s2 os1 j where "ok_step (leased_store, demo_disk [demo_submit, demo_reserve, demo_lease]) (s1, os1)"
    and co: "commitDurable s1 os1 = (None, s2, demo_disk [demo_submit, demo_reserve, demo_lease, demo_ack])" "acked_store = signal s2"
    by (rule Ack_accepted [OF demo_acked])
  then show ?thesis by (intro converse_rtranclp_into_rtranclp [OF _ committed_steps [OF co]])
qed

lemma acked_running: "running acked_store (demo_disk [demo_submit, demo_reserve, demo_lease, demo_ack])"
  using sys_steps_running [OF ok_steps_sys [OF acked_steps] leased_running] by simp


text \<open>A crash at any of these points, and the recovery after it.\<close>

lemma demo_restart:
  assumes "running s (demo_disk es)" and "sdir s = ''d''" and "room s"
  shows "\<exists>s' os'. Open demo_visit demo_cfg now (demo_disk es) = (Inr s', os') \<and> sys_steps (s, demo_disk es) (s', os') \<and>
    running s' os' \<and> nextEpoch s \<le> nextEpoch s'"
proof -
  have c: "faults (demo_disk es) = []" "cfgDir demo_cfg = sdir s" using assms(2) by (simp_all add: demo_os_def demo_cfg_def)
  obtain s' os' where o: "Open demo_visit demo_cfg now (demo_disk es) = (Inr s', os')" "running s' os'" "nextEpoch s \<le> nextEpoch s'"
    using restart_step [OF demo_crash c demo_visit assms(3,1), of now] by blast
  have "sys_step (s, demo_disk es) (s', os')" by (rule sys_step.restart [OF demo_crash c(1) o(1) c(2) demo_visit assms(3)])
  with o show ?thesis by blast
qed

lemma demo_rooms: "room submitted_store" "room leased_store" "room acked_store" "sdir leased_store = ''d''" "sdir acked_store = ''d''"
  by (simp_all add: room_def leased_store_def acked_store_def)

end
