(* ===== verification/Cv_Retry_Demo.thy ===== *)
theory Cv_Retry_Demo
  imports Cv_Store_Demo
begin

text \<open>
  The example life of a job continued another way: its first holder reports a failure,
  and once the backoff has passed the job is leased a second time.
\<close>

definition demo_fail :: event where "demo_fail = fail_event demo_leased ''boom'' False 12 0 leased_store"
definition demo_failed :: job where "demo_failed = apply_fail demo_fail demo_leased"
definition demo_lease2 :: event where "demo_lease2 = lease_event demo_failed 2 ''v'' 25"
definition demo_leased2 :: job where "demo_leased2 = apply_lease demo_lease2 demo_failed"

lemma leased_fields [simp]:
  "jobs leased_store = [demo_id \<mapsto> demo_leased]" "leased leased_store = {demo_id}" "nextEpoch leased_store = 2"
  "epochReservedUpTo leased_store = 8" "failed leased_store = None" "notifyCh leased_store = True" "lastLSN leased_store = 3"
  "index leased_store = newScheduleIndex(''q'' \<mapsto> \<lparr>ready = [], delayed = []\<rparr>)" "epochBlockSize leased_store = 8"
  "backoffBase leased_store = 2" "backoffCap leased_store = DefaultBackoffCap"
  "log leased_store = demo_log [demo_submit, demo_reserve, demo_lease]"
  by (simp_all add: leased_store_def)
    (simp_all add: submitted_store_def demo_store_def finish_open_def new_store_def demo_cfg_def
      rebuildIndexLocked_def recoverLeasedLocked_def Let_def)

lemma demo_backoff: "Backoff 1 2 DefaultBackoffCap 0 = 1"
  by code_simp

lemma demo_leased_fields [simp]:
  "ID demo_leased = demo_id" "Queue demo_leased = ''q''" "Priority demo_leased = PriorityHigh" "EnqueuedAt demo_leased = 5"
  "MaxRetries demo_leased = 1" "Attempt demo_leased = 1" "State demo_leased = StateLeased" "Epoch demo_leased = 1"
  "LeaseExpiresAt demo_leased = 15"
  by (simp_all add: demo_leased_def demo_lease_def lease_event_def apply_lease_def)

lemma demo_fail_eq:
  "demo_fail = zero_event\<lparr>evType := eventFail, evJobID := demo_id, evEpoch := 1, evAttempt := 1, evReason := ''boom'',
     evNextState := StateRetryWait, evEligibleAt := 13, evTimeout := False\<rparr>"
  by (simp add: demo_fail_def fail_event_def demo_backoff)

lemma demo_failed_fields [simp]:
  "ID demo_failed = demo_id" "Queue demo_failed = ''q''" "Priority demo_failed = PriorityHigh" "EnqueuedAt demo_failed = 5"
  "Attempt demo_failed = 1" "State demo_failed = StateRetryWait" "EligibleAt demo_failed = 13" "Epoch demo_failed = 1"
  by (simp_all add: demo_failed_def demo_fail_eq apply_fail_def)

lemma demo_encodes_fail: "encodes demo_fail"
  unfolding demo_fail_eq by code_simp

lemma demo_lease2_eq:
  "demo_lease2 = zero_event\<lparr>evType := eventLease, evJobID := demo_id, evEpoch := 2, evWorkerID := ''v'',
     evLeaseExpiresAt := 25, evAttempt := 2\<rparr>"
  by (simp add: demo_lease2_def lease_event_def)

lemma demo_encodes_lease2: "encodes demo_lease2"
  unfolding demo_lease2_eq by code_simp

text \<open>The store after the failure was acknowledged, and after the second lease.\<close>

definition failed_store :: store where
  "failed_store =
     leased_store\<lparr>jobs := [demo_id \<mapsto> demo_failed], leased := {},
       index := newScheduleIndex(''q'' \<mapsto> \<lparr>ready = [], delayed = [entry_of demo_failed]\<rparr>),
       log := demo_log [demo_submit, demo_reserve, demo_lease, demo_fail], lastLSN := 4\<rparr>"

definition again_store :: store where
  "again_store =
     failed_store\<lparr>jobs := [demo_id \<mapsto> demo_leased2], leased := {demo_id}, nextEpoch := 3,
       index := newScheduleIndex(''q'' \<mapsto> \<lparr>ready = [], delayed = []\<rparr>), lastLSN := 5\<rparr>"

lemma demo_holds: "holdsLease demo_leased 1"
  by (simp add: holdsLease_def)

lemma delayed_push: "heap_Push delayedHeap_Less [] e = [e]" "heap_Push readyHeap_Less [] e = [e]"
  by (simp_all add: heap_Push_def, (subst heap_up.simps, simp add: parent_def)+)

lemma single_pop: "heap_Pop delayedHeap_Less [e] = Some (e, [])" "heap_Pop readyHeap_Less [e] = Some (e, [])"
  by (simp_all add: heap_Pop_def Let_def, (subst heap_down.simps, simp add: swap_def)+)

lemma demo_nacked:
  "Nack demo_id 1 ''boom'' 12 0 leased_store (demo_disk [demo_submit, demo_reserve, demo_lease]) =
     (Inr (True, False), failed_store, demo_disk [demo_submit, demo_reserve, demo_lease, demo_fail])"
proof -
  let ?es = "[demo_submit, demo_reserve, demo_lease]"
  let ?t = "leased_store\<lparr>jobs := [demo_id \<mapsto> demo_failed], leased := {}\<rparr>"
  have ap: "store_apply leased_store demo_fail = Inr ?t"
    by (simp add: store_apply_def demo_fail_eq demo_failed_def)
  obtain w where w: "recordLocked leased_store (demo_disk ?es) demo_fail = (None, ?t\<lparr>log := w, lastLSN := 4\<rparr>, demo_disk ?es)"
    "wal_Sync w (demo_disk ?es) = (None, demo_log (?es @ [demo_fail]), demo_disk (?es @ [demo_fail]))"
    using demo_step [of leased_store ?es demo_fail ?t] ap demo_encodes_fail by (auto simp: eval_nat_numeral)
  have push: "index_push (newScheduleIndex(''q'' \<mapsto> \<lparr>ready = [], delayed = []\<rparr>)) demo_failed 12 =
      newScheduleIndex(''q'' \<mapsto> \<lparr>ready = [], delayed = [entry_of demo_failed]\<rparr>)"
    by (simp add: index_push_def forQueue_def delayed_push)
  have "failLocked demo_leased ''boom'' False 12 0 leased_store (demo_disk ?es) =
      (Inr False, ?t\<lparr>log := w, lastLSN := 4, index := newScheduleIndex(''q'' \<mapsto> \<lparr>ready = [], delayed = [entry_of demo_failed]\<rparr>)\<rparr>, demo_disk ?es)"
    using w(1) push by (simp add: failLocked_def demo_backoff demo_fail_eq [symmetric] demo_failed_def [symmetric])
  then have "Nack_locked demo_id 1 ''boom'' 12 0 leased_store (demo_disk ?es) =
      (Flush (True, False), ?t\<lparr>log := w, lastLSN := 4, index := newScheduleIndex(''q'' \<mapsto> \<lparr>ready = [], delayed = [entry_of demo_failed]\<rparr>)\<rparr>, demo_disk ?es)"
    by (simp add: Nack_locked_def demo_holds)
  then show ?thesis
    using w(2) by (simp add: Nack_def run_commit_def commitDurable_def signal_def failed_store_def)
qed

text \<open>The second lease.\<close>

lemma demo_leased_again:
  "\<exists>w. Lease ''q'' ''v'' 5 20 failed_store (demo_disk [demo_submit, demo_reserve, demo_lease, demo_fail]) =
      (Inr (Some demo_leased2), again_store\<lparr>log := w\<rparr>, demo_disk [demo_submit, demo_reserve, demo_lease, demo_fail])"
proof -
  let ?es = "[demo_submit, demo_reserve, demo_lease, demo_fail]" and ?i = "newScheduleIndex(''q'' \<mapsto> \<lparr>ready = [], delayed = []\<rparr>)"
  let ?t = "failed_store\<lparr>index := ?i, nextEpoch := 3, jobs := [demo_id \<mapsto> demo_leased2], leased := {demo_id}\<rparr>"
  have fs: "jobs failed_store = [demo_id \<mapsto> demo_failed]" "leased failed_store = {}" "failed failed_store = None"
    "log failed_store = demo_log ?es" "nextEpoch failed_store = 2" "epochReservedUpTo failed_store = 8"
    "index failed_store = newScheduleIndex(''q'' \<mapsto> \<lparr>ready = [], delayed = [entry_of demo_failed]\<rparr>)"
    by (simp_all add: failed_store_def)
  have ep: "nextEpochLocked (failed_store\<lparr>index := ?i\<rparr>) os = (Inr 2, failed_store\<lparr>index := ?i, nextEpoch := 3\<rparr>, os)" for os
    using fs by (simp add: nextEpochLocked_def)
  have ap: "store_apply (failed_store\<lparr>index := ?i, nextEpoch := 3\<rparr>) demo_lease2 = Inr ?t"
    using fs by (simp add: store_apply_def demo_lease2_eq demo_leased2_def)
  obtain w where w: "recordLocked (failed_store\<lparr>index := ?i, nextEpoch := 3\<rparr>) (demo_disk ?es) demo_lease2 =
      (None, ?t\<lparr>log := w, lastLSN := 5\<rparr>, demo_disk ?es)"
    using demo_step [of "failed_store\<lparr>index := ?i, nextEpoch := 3\<rparr>" ?es demo_lease2 ?t] ap fs demo_encodes_fail demo_encodes_lease2
    by (auto simp: eval_nat_numeral)
  have pr: "index_promote (index failed_store) ''q'' 20 = newScheduleIndex(''q'' \<mapsto> \<lparr>ready = [entry_of demo_failed], delayed = []\<rparr>)"
    by (simp add: fs index_promote_def, subst promote_loop.simps, simp add: single_pop delayed_push, subst promote_loop.simps, simp)
  have pop: "index_pop (newScheduleIndex(''q'' \<mapsto> \<lparr>ready = [entry_of demo_failed], delayed = []\<rparr>)) ''q'' = Some (entry_of demo_failed, ?i)"
    by (simp add: index_pop_def single_pop)
  have j: "demo_lease2 = zero_event\<lparr>evType := eventLease, evJobID := ID demo_failed, evEpoch := 2, evWorkerID := ''v'',
      evLeaseExpiresAt := 20 + 5, evAttempt := Attempt demo_failed + 1\<rparr>"
    by (simp add: demo_lease2_eq)
  have "Lease ''q'' ''v'' 5 20 failed_store (demo_disk ?es) = (Inr (Some demo_leased2), ?t\<lparr>log := w, lastLSN := 5\<rparr>, demo_disk ?es)"
    unfolding Lease_def pr
    by (subst lease_loop.simps) (simp add: pop fs ep w [unfolded j, simplified])
  moreover have "?t\<lparr>log := w, lastLSN := 5\<rparr> = again_store\<lparr>log := w\<rparr>" by (simp add: again_store_def)
  ultimately show ?thesis by auto
qed


text \<open>Both are steps of a broker that runs without failures.\<close>

lemma failed_ok_steps:
  "ok_steps (leased_store, demo_disk [demo_submit, demo_reserve, demo_lease])
     (failed_store, demo_disk [demo_submit, demo_reserve, demo_lease, demo_fail])"
proof -
  let ?os = "demo_disk [demo_submit, demo_reserve, demo_lease]"
  obtain ph s1 os1 where lk: "Nack_locked demo_id 1 ''boom'' 12 0 leased_store ?os = (ph, s1, os1)" by (rule prod_cases3)
  have rc: "run_commit (ph, s1, os1) = (Inr (True, False), failed_store, demo_disk [demo_submit, demo_reserve, demo_lease, demo_fail])"
    using demo_nacked lk by (simp add: Nack_def)
  have ne: "ph \<noteq> Answer (Inr (True, False))" using lk by (rule Nack_locked_cases) (auto split: sum.splits)
  from rc show ?thesis
  proof (cases rule: run_commit_Inr)
    case (committed s2)
    have "ok_step (leased_store, ?os) (s1, os1)"
      using lk committed(1) by (intro ok_step.nack) (auto intro!: valid_utf8_ascii)
    from converse_rtranclp_into_rtranclp [OF this committed_steps [OF committed(2,3)]] show ?thesis .
  qed (use ne in simp)
qed


text \<open>The sweep that finds the first lease expired.\<close>

definition demo_expire :: event where "demo_expire = fail_event demo_leased ''lease expired'' True 20 0 leased_store"

lemma demo_expire_eq:
  "demo_expire = zero_event\<lparr>evType := eventFail, evJobID := demo_id, evEpoch := 1, evAttempt := 1, evReason := ''lease expired'',
     evNextState := StateRetryWait, evEligibleAt := 21, evTimeout := True\<rparr>"
  by (simp add: demo_expire_def fail_event_def demo_backoff)

lemma demo_encodes_expire: "encodes demo_expire"
  unfolding demo_expire_eq by code_simp

lemma demo_reclaimed:
  "\<exists>s'. ReclaimExpired (\<lambda>_. 0) 20 [demo_id] leased_store (demo_disk [demo_submit, demo_reserve, demo_lease]) =
     (([demo_id], None), s', demo_disk [demo_submit, demo_reserve, demo_lease, demo_expire])"
proof -
  let ?es = "[demo_submit, demo_reserve, demo_lease]"
  let ?t = "leased_store\<lparr>jobs := [demo_id \<mapsto> apply_fail demo_expire demo_leased], leased := {}\<rparr>"
  have ap: "store_apply leased_store demo_expire = Inr ?t"
    by (simp add: store_apply_def demo_expire_eq)
  obtain w where w: "recordLocked leased_store (demo_disk ?es) demo_expire = (None, ?t\<lparr>log := w, lastLSN := 4\<rparr>, demo_disk ?es)"
    "wal_Sync w (demo_disk ?es) = (None, demo_log (?es @ [demo_expire]), demo_disk (?es @ [demo_expire]))"
    using demo_step [of leased_store ?es demo_expire ?t] ap demo_encodes_expire by (auto simp: eval_nat_numeral)
  obtain i where fl: "failLocked demo_leased ''lease expired'' True 20 0 leased_store (demo_disk ?es) =
      (Inr False, ?t\<lparr>log := w, lastLSN := 4, index := i\<rparr>, demo_disk ?es)"
    using w(1) by (simp add: failLocked_def demo_backoff demo_expire_eq [symmetric])
  then have "reclaim_loop (\<lambda>_. 0) 20 [demo_id] [] leased_store (demo_disk ?es) =
      (None, [demo_id], ?t\<lparr>log := w, lastLSN := 4, index := i\<rparr>, demo_disk ?es)"
    by simp
  then show ?thesis using w(2) by (simp add: ReclaimExpired_def commitDurable_def)
qed

end
