(* ===== verification/Cv_Store_Facts.thy ===== *)
theory Cv_Store_Facts
  imports Cv_Retry_Demo
begin

text \<open>
  What the store promises its callers, request by request and over any interleaving of
  requests: which job a lease picks, which tokens are refused, how often a job is
  delivered, how duplicates and failures are answered.
\<close>

section \<open>Requests as steps\<close>

text \<open>Every request is its locked section, then the flush, then a signal.\<close>

lemma run_commit_steps:
  assumes "store_step x (s1, os1)" and "run_commit (ph, s1, os1) = (r, s', os')"
  shows "store_steps x (s', os')"
proof -
  have "store_steps (s1, os1) (s', os')"
  proof (cases ph)
    case (Answer a)
    with assms(2) show ?thesis by (simp add: run_commit_def)
  next
    case (Flush a)
    obtain c s2 os2 where c: "commitDurable s1 os1 = (c, s2, os2)" by (rule prod_cases3)
    have st: "store_step (s1, os1) (s2, os2)" using c by (rule store_step.commit)
    show ?thesis
    proof (cases c)
      case None
      then have "(s', os') = (signal s2, os2)" using assms(2) Flush c by (simp add: run_commit_def)
      with rtranclp.rtrancl_into_rtrancl [OF r_into_rtranclp [where r = store_step, OF st] store_step.notify [of s2 os2 True]]
      show ?thesis by (simp add: signal_def)
    next
      case (Some x)
      then have "(s', os') = (s2, os2)" using assms(2) Flush c by (simp add: run_commit_def)
      with st show ?thesis by auto
    qed
  qed
  with assms(1) show ?thesis by (rule converse_rtranclp_into_rtranclp)
qed

lemma Submit_steps: "Submit p nano rnd now s os = (r, s', os') \<Longrightarrow> fresh_id s nano rnd \<Longrightarrow> store_steps (s, os) (s', os')"
  unfolding Submit_def by (cases "Submit_locked p nano rnd now s os") (auto intro: run_commit_steps store_step.submit)

lemma Ack_steps: "Ack i ep s os = (r, s', os') \<Longrightarrow> store_steps (s, os) (s', os')"
  unfolding Ack_def by (cases "Ack_locked i ep s os") (auto intro: run_commit_steps store_step.ack)

lemma Nack_steps: "Nack i ep reason now d s os = (r, s', os') \<Longrightarrow> store_steps (s, os) (s', os')"
  unfolding Nack_def by (cases "Nack_locked i ep reason now d s os") (auto intro: run_commit_steps store_step.nack)

lemma ReplayJob_steps: "ReplayJob i now s os = (r, s', os') \<Longrightarrow> store_steps (s, os) (s', os')"
  unfolding ReplayJob_def by (cases "ReplayJob_locked i now s os") (auto intro: run_commit_steps store_step.replay)

section \<open>Leasing\<close>

text \<open>
  C3. \<^verbatim>\<open>Lease\<close> hands out a job of the queue asked for that may run and is due, marks it
  leased to the worker under a fresh fencing token, and no other due job of that queue
  has a higher priority, or the same priority and an earlier submission.
\<close>

theorem Lease_picks_best:
  assumes "store_ok s" and "entries_ok s" and "in_range s"
    and "Lease queue w dur now s os = (Inr (Some l), s', os')"
  shows "\<exists>j. jobs s (ID l) = Some j \<and> Queue j = queue \<and> Leasable (State j) \<and> EligibleAt j \<le> now \<and>
    l = j\<lparr>State := StateLeased, Epoch := nextEpoch s, LeasedBy := w, LeaseExpiresAt := now + dur, Attempt := Attempt j + 1\<rparr> \<and>
    jobs s' = (jobs s)(ID l \<mapsto> l) \<and>
    (\<forall>i k. jobs s i = Some k \<and> Queue k = queue \<and> Leasable (State k) \<and> EligibleAt k \<le> now \<longrightarrow>
       Priority k \<le> Priority j \<and> (Priority k = Priority j \<longrightarrow> EnqueuedAt j \<le> EnqueuedAt k))"
  using assms(1,3,4)
proof (cases rule: Lease_cases)
  case (leased q cand idx j s1 os1 u lw n)
  have "cand \<in># filed q queue" using leased(2) by (simp add: filed_pop)
  then consider "cand \<in># filed (index s) queue" | i k where "jobs s i = Some k" "Queue k = queue" "cand = entry_of k"
    using leased(3) unfolding thinned_def by blast
  then have e: "entry_ok (jobs s) queue cand"
    using assms(1,2) store_ok_ID [OF assms(1)] by cases (auto simp: entries_ok_def entry_ok_def)
  then have c: "Queue j = queue" "entryPriority cand = Priority j" "entryEnqueuedAt cand = EnqueuedAt j"
    using leased(4) by (auto simp: entry_ok_def)
  have best: "Priority k \<le> Priority j \<and> (Priority k = Priority j \<longrightarrow> EnqueuedAt j \<le> EnqueuedAt k)"
    if "jobs s i = Some k" "Queue k = queue" "Leasable (State k)" "EligibleAt k \<le> now" for i k
    using leased(13) [OF that] c by (auto simp: readyHeap_Less_def split: if_splits)
  have l: "l = apply_lease (lease_event j (nextEpoch s) w (now + dur)) j" using leased(10) by simp
  then have "l = j\<lparr>State := StateLeased, Epoch := nextEpoch s, LeasedBy := w, LeaseExpiresAt := now + dur, Attempt := Attempt j + 1\<rparr>"
    by (simp add: apply_lease_def lease_event_def)
  then show ?thesis using leased(4-7,12) c(1) best l by (intro exI [of _ j]) auto
qed simp_all

theorem Lease_picks_best_witness:
  "Leasable (State demo_job) \<and> EligibleAt demo_job \<le> 10 \<and> Queue demo_job = ''q'' \<and> Epoch demo_leased = 1"
proof -
  obtain w where w: "Lease ''q'' ''w'' 5 10 submitted_store (demo_disk [demo_submit]) =
      (Inr (Some demo_leased), leased_store\<lparr>log := w\<rparr>, demo_disk [demo_submit, demo_reserve])"
    using demo_leased by blast
  have "store_ok submitted_store" "entries_ok submitted_store" "in_range submitted_store"
    using submitted_running by (auto simp: running_def live_def in_range_def int64_ok_def)
  from Lease_picks_best [OF this w] show ?thesis by (auto simp: demo_leased_def)
qed

text \<open>
  C4. \<^verbatim>\<open>Lease\<close> never overlooks work: when some job of the queue may run and is due, the
  answer is a job or an error, never \<^verbatim>\<open>nil\<close>.
\<close>

theorem Lease_finds_due:
  assumes "store_ok s" and "in_range s" and "jobs s i = Some j" and "Queue j = queue" and "Leasable (State j)"
    and "EligibleAt j \<le> now"
  shows "fst (Lease queue w dur now s os) \<noteq> Inr None"
proof
  assume none: "fst (Lease queue w dur now s os) = Inr None"
  obtain res s' os' where l: "Lease queue w dur now s os = (res, s', os')" by (rule prod_cases3)
  with none have r: "res = Inr None" by simp
  from assms(1,2) l show False
  proof (cases rule: Lease_cases)
    case (empty q)
    then show ?thesis using assms(3-6) by fastforce
  qed (use r in simp_all)
qed

theorem Lease_finds_due_witness:
  "fst (Lease ''q'' ''w'' 5 10 submitted_store (demo_disk [demo_submit])) \<noteq> Inr None"
proof -
  have "store_ok submitted_store" "in_range submitted_store"
    using submitted_running by (auto simp: running_def live_def in_range_def int64_ok_def)
  from Lease_finds_due [OF this, of demo_id demo_job] show ?thesis by simp
qed


text \<open>The entry the theorems below share: a lease that was handed out, on a live store.\<close>

lemma Lease_live:
  assumes "live s" and "in_range s" and "Lease queue w dur now s os = (Inr (Some l), s', os')"
  shows "jobs s' (ID l) = Some l" and "Epoch l = nextEpoch s" and "nextEpoch s' = nextEpoch s + 1"
    and "nextEpoch s < nextEpoch s'" and "store_step (s, os) (s', os')"
proof -
  have ok: "store_ok s" using assms(1) by (simp add: live_def)
  show 1: "jobs s' (ID l) = Some l" "Epoch l = nextEpoch s" "nextEpoch s' = nextEpoch s + 1"
    by (rule Lease_Some [OF ok assms(2,3)]; simp)+
  show "store_step (s, os) (s', os')" using assms(2,3) by (rule store_step.lease [rotated])
  have "unat (nextEpoch s) + 1 < 2 ^ 64"
    using assms(2) ok unat_gt_0 [of "epochBlockSize s"] by (auto simp: in_range_def store_ok_def epochs_ok_def word_less_nat_alt)
  then show "nextEpoch s < nextEpoch s'" by (simp add: 1 word_less_nat_alt unat_word_ariths)
qed

section \<open>Fencing\<close>

text \<open>
  C12. Once a job has been leased a second time, the first holder's token is dead: after any
  interleaving of requests, failing or not, its \<^verbatim>\<open>Ack\<close>, \<^verbatim>\<open>Nack\<close> and \<^verbatim>\<open>Heartbeat\<close> are all
  refused and change nothing, in memory or on disk.
\<close>

theorem stale_token_refused:
  assumes "live s" and "in_range s" and "Lease q w dur now s os = (Inr (Some old), s1, os1)"
    and "store_steps (s1, os1) (s2, os2)" and "in_range s2"
    and "Lease q' w' dur' now' s2 os2 = (Inr (Some l), s3, os3)" and "ID l = ID old"
    and "store_steps (s3, os3) (s4, os4)"
  shows "Ack (ID old) (Epoch old) s4 os4 = (Inr False, s4, os4) \<and>
    Nack (ID old) (Epoch old) reason t r s4 os4 = (Inr (False, False), s4, os4) \<and>
    Heartbeat (ID old) (Epoch old) d t s4 = (Inr (False, 0), s4)"
proof -
  note l1 = Lease_live [OF assms(1-3)]
  have 1: "live s1" using store_step_live [OF l1(5) assms(1)] by simp
  from store_steps_live [OF assms(4) 1] have 2: "live s2" "nextEpoch s1 \<le> nextEpoch s2" by auto
  note l3 = Lease_live [OF 2(1) assms(5,6)]
  have 3: "live s3" using store_step_live [OF l3(5) 2(1)] by simp
  have less: "Epoch old < Epoch l" using l1(2,4) 2(2) l3(2) by simp
  obtain k where k: "jobs s4 (ID l) = Some k" "job_steps l k"
    using store_steps_live [OF assms(8) 3] l3(1) unfolding evolves_def by blast
  then have "\<not> holdsLease k (Epoch old)"
    using less job_steps_epoch [OF k(2)] by (auto simp: holdsLease_def)
  then show ?thesis
    using k(1) assms(7) by (simp add: Ack_def Ack_locked_def Nack_def Nack_locked_def Heartbeat_def run_commit_def)
qed

theorem stale_token_refused_witness:
  "\<exists>s. Ack demo_id 1 s (demo_disk [demo_submit, demo_reserve, demo_lease, demo_fail]) =
       (Inr False, s, demo_disk [demo_submit, demo_reserve, demo_lease, demo_fail]) \<and> jobs s demo_id = Some demo_leased2"
proof -
  obtain w where w: "Lease ''q'' ''w'' 5 10 submitted_store (demo_disk [demo_submit]) =
      (Inr (Some demo_leased), leased_store\<lparr>log := w\<rparr>, demo_disk [demo_submit, demo_reserve])"
    "commitDurable (leased_store\<lparr>log := w\<rparr>) (demo_disk [demo_submit, demo_reserve]) =
      (None, leased_store, demo_disk [demo_submit, demo_reserve, demo_lease])"
    using demo_leased by blast
  obtain v where v: "Lease ''q'' ''v'' 5 20 failed_store (demo_disk [demo_submit, demo_reserve, demo_lease, demo_fail]) =
      (Inr (Some demo_leased2), again_store\<lparr>log := v\<rparr>, demo_disk [demo_submit, demo_reserve, demo_lease, demo_fail])"
    using demo_leased_again by blast
  have "live submitted_store" using submitted_running by (simp add: running_def)
  moreover have "in_range submitted_store" "in_range failed_store"
    by (simp_all add: in_range_def int64_ok_def failed_store_def)
  moreover have "store_steps (leased_store\<lparr>log := w\<rparr>, demo_disk [demo_submit, demo_reserve])
      (failed_store, demo_disk [demo_submit, demo_reserve, demo_lease, demo_fail])"
    using converse_rtranclp_into_rtranclp [OF store_step.commit [OF w(2)] Nack_steps [OF demo_nacked]] .
  moreover have "ID demo_leased2 = ID demo_leased" "Epoch demo_leased = 1" by (simp_all add: demo_leased2_def)
  ultimately have "Ack demo_id 1 (again_store\<lparr>log := v\<rparr>) (demo_disk [demo_submit, demo_reserve, demo_lease, demo_fail]) =
      (Inr False, again_store\<lparr>log := v\<rparr>, demo_disk [demo_submit, demo_reserve, demo_lease, demo_fail])"
    using stale_token_refused [OF _ _ w(1) _ _ v _ rtranclp.rtrancl_refl] by simp
  then show ?thesis by (intro exI [of _ "again_store\<lparr>log := v\<rparr>"]) (simp add: again_store_def)
qed

section \<open>Deliveries\<close>



text \<open>
  C15. The invariant of the store holds after every interleaving of requests, whether they
  succeed or fail: ids are right, the map of leased jobs is exact, idempotency keys and
  jobs agree, every runnable job is filed in a well-formed index under its own queue and
  priority, and every fencing token in use is below the next one to be issued.
\<close>

theorem requests_keep_store_ok:
  assumes "live s" and "entries_ok s" and "store_steps (s, os) (s', os')"
  shows "store_ok s' \<and> entries_ok s' \<and> nextEpoch s \<le> nextEpoch s'"
  using store_steps_live [OF assms(3,1)] evolves_entries [OF _ assms(2)] by (auto simp: live_def)

theorem requests_keep_store_ok_witness: "store_ok failed_store \<and> entries_ok failed_store"
proof -
  have "live leased_store" "entries_ok leased_store" using leased_running by (simp_all add: running_def)
  from requests_keep_store_ok [OF this Nack_steps [OF demo_nacked]] show ?thesis by simp
qed

section \<open>Failed deliveries\<close>

lemma backoff_range: "0 < Backoff a b c r \<and> Backoff a b c r \<le> effective_cap c"
proof -
  obtain d where d: "0 < d" "d \<le> effective_cap c"
    "Backoff a b c r = (if quot d 2 \<le> 0 then d else quot d 2 + Int64N r (quot d 2))"
    by (rule Backoff_unfold)
  then show ?thesis using jitter_bounds [of d r] by (auto split: if_splits)
qed

text \<open>
  C17. A reported failure is final or leads to a retry: an accepted \<^verbatim>\<open>Nack\<close> dead-letters the
  job exactly when it has used up its retries, and otherwise makes it wait for a positive
  backoff that is at most the configured cap; it records the reason, keeps the token, and
  touches no other job.
\<close>

theorem Nack_outcome:
  assumes "store_ok s" and "jobs s i = Some j" and "holdsLease j ep" and "Nack i ep reason now r s os = (Inr res, s', os')"
  shows "res = (True, MaxRetries j < Attempt j) \<and>
    (\<exists>k. jobs s' = (jobs s)(i \<mapsto> k) \<and> same_spec j k \<and> Attempt k = Attempt j \<and> Epoch k = Epoch j \<and> LeasedBy k = [] \<and>
       LastError k = (if reason = [] then ''handler reported failure'' else reason) \<and>
       (if MaxRetries j < Attempt j then State k = StateDeadLetter
        else State k = StateRetryWait \<and> now < EligibleAt k \<and> EligibleAt k \<le> now + effective_cap (backoffCap s)))"
proof -
  let ?rs = "if reason = [] then ''handler reported failure'' else reason"
  let ?k = "failed_job j ?rs False now r s"
  have id: "ID j = i" using store_ok_ID assms(1,2) by blast
  obtain ph s1 os1 where lk: "Nack_locked i ep reason now r s os = (ph, s1, os1)" by (rule prod_cases3)
  have rc: "run_commit (ph, s1, os1) = (Inr res, s', os')" using assms(4) lk by (simp add: Nack_def)
  obtain q where q: "failLocked j ?rs False now r s os = (q, s1, os1)"
    "ph = (case q of Inl x \<Rightarrow> Answer (Inl x) | Inr dead \<Rightarrow> Flush (True, dead))"
    using lk assms(2,3) by (cases rule: Nack_locked_cases) auto
  have "jobs s (ID j) = Some j" using assms(2) id by simp
  with q(1) have f: "q = Inr (MaxRetries j < Attempt j) \<and> jobs s1 = (jobs s)(i \<mapsto> ?k)"
  proof (cases rule: failLocked_cases)
    case (refused x w)
    then show ?thesis using rc q(2) by (simp add: run_commit_def)
  next
    case (fin w lsn payload)
    then show ?thesis using id by simp
  qed
  have ph: "ph = Flush (True, MaxRetries j < Attempt j)" using f q(2) by simp
  from rc have "res = (True, MaxRetries j < Attempt j) \<and> jobs s' = jobs s1"
  proof (cases rule: run_commit_Inr)
    case (committed s2)
    then show ?thesis using ph by (auto simp: signal_def elim: commitDurable_frame)
  qed (use ph in simp)
  moreover have "same_spec j ?k" by (simp add: failed_job_def apply_fail_def same_spec_def)
  ultimately show ?thesis
    using f backoff_range [of "Attempt j" "backoffBase s" "backoffCap s" r]
    by (intro conjI exI [of _ ?k]) (simp_all add: failed_job_def apply_fail_def fail_event_def)
qed

theorem Nack_outcome_witness:
  "\<exists>k. jobs failed_store demo_id = Some k \<and> State k = StateRetryWait \<and> 12 < EligibleAt k \<and> LastError k = ''boom''"
proof -
  have ok: "store_ok leased_store" using leased_running by (simp add: running_def live_def)
  have j: "jobs leased_store demo_id = Some demo_leased" by simp
  have "\<exists>k. jobs failed_store = (jobs leased_store)(demo_id \<mapsto> k) \<and> State k = StateRetryWait \<and> 12 < EligibleAt k \<and> LastError k = ''boom''"
    using Nack_outcome [OF ok j demo_holds demo_nacked] by auto
  then show ?thesis by (metis fun_upd_same)
qed

section \<open>The sweep of expired leases\<close>

definition expired :: "store \<Rightarrow> gotime \<Rightarrow> string \<Rightarrow> bool" where
  "expired s now i \<longleftrightarrow> (\<exists>j. jobs s i = Some j \<and> State j = StateLeased \<and> LeaseExpiresAt j \<le> now)"

lemma failed_job_cong:
  "backoffBase t = backoffBase s \<Longrightarrow> backoffCap t = backoffCap s \<Longrightarrow> failed_job j r b now d t = failed_job j r b now d s"
  by (simp add: failed_job_def fail_event_def)

lemma reclaim_loop_exact:
  assumes "store_ok s" and "reclaim_loop draw now ids acc s os = (None, acc', s', os')" and "distinct ids"
  shows "acc' = acc @ filter (expired s now) ids \<and>
    jobs s' = (\<lambda>i. if i \<in> set ids \<and> expired s now i
                   then Some (failed_job (the (jobs s i)) ''lease expired'' True now (draw i) s) else jobs s i) \<and>
    backoffBase s' = backoffBase s \<and> backoffCap s' = backoffCap s"
  using assms
proof (induction ids arbitrary: acc s os)
  case Nil
  then show ?case by auto
next
  case (Cons i ids)
  note ok = Cons.prems(1)
  show ?case
  proof (cases "expired s now i")
    case False
    then have "reclaim_loop draw now ids acc s os = (None, acc', s', os')"
      using Cons.prems(2) unfolding expired_def by (simp only: reclaim_loop_Cons [OF ok] if_False)
    from Cons.IH [OF ok this] Cons.prems(3) False show ?thesis by auto
  next
    case True
    then obtain j where j: "jobs s i = Some j" "State j = StateLeased" "LeaseExpiresAt j \<le> now" by (auto simp: expired_def)
    obtain q s1 os1 where fl: "failLocked j ''lease expired'' True now (draw i) s os = (q, s1, os1)" by (rule prod_cases3)
    have id: "ID j = i" "jobs s (ID j) = Some j" using store_ok_ID [OF ok j(1)] j(1) by simp_all
    have loop: "(case q of Inl x \<Rightarrow> (Some x, acc, s1, os1) | Inr dead \<Rightarrow> reclaim_loop draw now ids (acc @ [i]) s1 os1) = (None, acc', s', os')"
      using Cons.prems(2) j fl by (auto simp: reclaim_loop_Cons [OF ok] split: sum.split)
    from fl id(2) show ?thesis
    proof (cases rule: failLocked_cases)
      case (refused x w)
      then show ?thesis using loop by simp
    next
      case (fin w lsn payload)
      let ?k = "failed_job j ''lease expired'' True now (draw i) s"
      have s1: "jobs s1 = (jobs s)(i \<mapsto> ?k)" "backoffBase s1 = backoffBase s" "backoffCap s1 = backoffCap s"
        using fin(5) id by simp_all
      have same: "expired s1 now x = expired s now x" "jobs s1 x = jobs s x" if "x \<noteq> i" for x
        using that s1(1) by (simp_all add: expired_def)
      have ok1: "store_ok s1" using failLocked_ok [OF ok fl id(2)] .
      have "reclaim_loop draw now ids (acc @ [i]) s1 os1 = (None, acc', s', os')" using loop fin(1) by simp
      from Cons.IH [OF ok1 this] Cons.prems(3)
      have ih: "acc' = (acc @ [i]) @ filter (expired s1 now) ids" "backoffBase s' = backoffBase s" "backoffCap s' = backoffCap s"
        "jobs s' = (\<lambda>i. if i \<in> set ids \<and> expired s1 now i
           then Some (failed_job (the (jobs s1 i)) ''lease expired'' True now (draw i) s1) else jobs s1 i)"
        using s1 by simp_all
      have "filter (expired s1 now) ids = filter (expired s now) ids"
      proof (rule filter_cong)
        fix x assume "x \<in> set ids"
        then have "x \<noteq> i" using Cons.prems(3) by auto
        then show "expired s1 now x = expired s now x" by (rule same(1))
      qed simp
      moreover have "jobs s' x = (if x \<in> set (i # ids) \<and> expired s now x
          then Some (failed_job (the (jobs s x)) ''lease expired'' True now (draw x) s) else jobs s x)" for x
      proof (cases "x = i")
        case True
        then show ?thesis using ih(4) Cons.prems(3) \<open>expired s now i\<close> s1(1) j(1) by simp
      next
        case False
        then show ?thesis using ih(4) same [OF False] failed_job_cong [OF s1(2,3)] by simp
      qed
      ultimately show ?thesis using ih(1-3) True by auto
    qed
  qed
qed

text \<open>
  C18. A sweep that succeeds takes back exactly the leases that have expired: each such job
  waits for a retry or is dead-lettered, as its attempts say, with the reason recorded and
  its token kept; live leases and all other jobs are left alone, and the sweep reports
  exactly the ids it took back.
\<close>

theorem ReclaimExpired_exact:
  assumes "store_ok s" and "distinct ids" and "set ids = leased s"
    and "ReclaimExpired draw now ids s os = ((acc, None), s', os')"
  shows "set acc = {i. expired s now i} \<and> distinct acc \<and>
    (\<forall>i. \<not> expired s now i \<longrightarrow> jobs s' i = jobs s i) \<and>
    (\<forall>i j. jobs s i = Some j \<and> expired s now i \<longrightarrow>
       (\<exists>k. jobs s' i = Some k \<and> same_spec j k \<and> Epoch k = Epoch j \<and> Attempt k = Attempt j \<and> LastError k = ''lease expired'' \<and>
          State k = (if MaxRetries j < Attempt j then StateDeadLetter else StateRetryWait)))"
proof -
  obtain x acc1 s1 os1 where lp: "reclaim_loop draw now ids [] s os = (x, acc1, s1, os1)" by (metis prod_cases4)
  have c: "x = None" "acc1 = acc" "jobs s' = jobs s1"
    using assms(4) lp by (auto simp: ReclaimExpired_def signal_def split: option.splits if_splits prod.splits elim: commitDurable_frame)
  have lp': "reclaim_loop draw now ids [] s os = (None, acc1, s1, os1)" using lp c(1) by simp
  note ex = reclaim_loop_exact [OF assms(1) lp' assms(2)]
  have "expired s now i \<Longrightarrow> i \<in> set ids" for i
    using store_ok_leased [OF assms(1), of i] assms(3) by (auto simp: expired_def)
  then have j: "set acc = {i. expired s now i}" "distinct acc"
    "jobs s' = (\<lambda>i. if expired s now i then Some (failed_job (the (jobs s i)) ''lease expired'' True now (draw i) s) else jobs s i)"
    using ex c(2,3) assms(2) by (auto simp: fun_eq_iff)
  moreover have "same_spec k (failed_job k ''lease expired'' True now d s) \<and>
      State (failed_job k ''lease expired'' True now d s) = (if MaxRetries k < Attempt k then StateDeadLetter else StateRetryWait) \<and>
      LastError (failed_job k ''lease expired'' True now d s) = ''lease expired'' \<and>
      Epoch (failed_job k ''lease expired'' True now d s) = Epoch k \<and>
      Attempt (failed_job k ''lease expired'' True now d s) = Attempt k" for k d
    by (simp add: failed_job_def apply_fail_def fail_event_def same_spec_def)
  ultimately show ?thesis by simp
qed

theorem ReclaimExpired_exact_witness:
  "\<exists>s' os' k. ReclaimExpired (\<lambda>_. 0) 20 [demo_id] leased_store (demo_disk [demo_submit, demo_reserve, demo_lease]) = (([demo_id], None), s', os') \<and>
     jobs s' demo_id = Some k \<and> State k = StateRetryWait"
proof -
  obtain s' where r: "ReclaimExpired (\<lambda>_. 0) 20 [demo_id] leased_store (demo_disk [demo_submit, demo_reserve, demo_lease]) =
     (([demo_id], None), s', demo_disk [demo_submit, demo_reserve, demo_lease, demo_expire])" using demo_reclaimed by blast
  have ok: "store_ok leased_store" using leased_running by (simp add: running_def live_def)
  have ids: "distinct [demo_id]" "set [demo_id] = leased leased_store" by simp_all
  have "jobs leased_store demo_id = Some demo_leased" "expired leased_store 20 demo_id" by (simp_all add: expired_def)
  moreover have "\<forall>i j. jobs leased_store i = Some j \<and> expired leased_store 20 i \<longrightarrow>
       (\<exists>k. jobs s' i = Some k \<and> same_spec j k \<and> Epoch k = Epoch j \<and> Attempt k = Attempt j \<and> LastError k = ''lease expired'' \<and>
          State k = (if MaxRetries j < Attempt j then StateDeadLetter else StateRetryWait))"
    using ReclaimExpired_exact [OF ok ids r] by (elim conjE)
  ultimately obtain k where "jobs s' demo_id = Some k" "State k = (if MaxRetries demo_leased < Attempt demo_leased then StateDeadLetter else StateRetryWait)"
    by blast
  then show ?thesis using r by simp
qed

section \<open>A store that lost its durability\<close>

lemma recordLocked_failed: "failed s = Some x \<Longrightarrow> recordLocked s os e = (Some x, s, os)"
  by (simp add: recordLocked_def)

text \<open>What a poisoned store may still do: postpone the expiry of leases, move index entries, reserve tokens.\<close>

definition frozen :: "store \<Rightarrow> store \<Rightarrow> bool" where
  "frozen s s' \<longleftrightarrow>
     failed s' = failed s \<and> idem s' = idem s \<and> dom (jobs s') = dom (jobs s) \<and>
     (\<forall>i j k. jobs s i = Some j \<and> jobs s' i = Some k \<longrightarrow> (\<exists>t. k = j\<lparr>LeaseExpiresAt := t\<rparr>))"

lemma frozen_same: "failed s' = failed s \<Longrightarrow> idem s' = idem s \<Longrightarrow> jobs s' = jobs s \<Longrightarrow> frozen s s'"
  unfolding frozen_def by (metis (no_types) job.surjective job.update_convs(13) option.inject)

lemma same_expiry: "\<exists>t. j = j\<lparr>LeaseExpiresAt := t\<rparr>"
  by (rule exI [of _ "LeaseExpiresAt j"]) simp

lemma frozen_trans: "frozen s s1 \<Longrightarrow> frozen s1 s2 \<Longrightarrow> frozen s s2"
proof -
  assume 1: "frozen s s1" and 2: "frozen s1 s2"
  have "\<exists>t. k = j\<lparr>LeaseExpiresAt := t\<rparr>" if "jobs s i = Some j" "jobs s2 i = Some k" for i j k
  proof -
    have "i \<in> dom (jobs s1)" using 1 that(1) by (auto simp: frozen_def)
    then obtain l where l: "jobs s1 i = Some l" by blast
    have "\<exists>t. l = j\<lparr>LeaseExpiresAt := t\<rparr>" using 1 l that(1) unfolding frozen_def by blast
    moreover have "\<exists>u. k = l\<lparr>LeaseExpiresAt := u\<rparr>" using 2 l that(2) unfolding frozen_def by blast
    ultimately show ?thesis by auto
  qed
  moreover have "failed s2 = failed s" "idem s2 = idem s" "dom (jobs s2) = dom (jobs s)" using 1 2 by (simp_all add: frozen_def)
  ultimately show ?thesis unfolding frozen_def by blast
qed

lemma nextEpochLocked_frozen: "nextEpochLocked s os = (r, s', os') \<Longrightarrow> failed s' = failed s \<and> idem s' = idem s \<and> jobs s' = jobs s"
  by (auto simp: nextEpochLocked_def reserveEpochsLocked_def store_apply_def Let_def
      split: prod.splits option.splits sum.splits if_splits)

lemma lease_loop_frozen:
  "failed s = Some x \<Longrightarrow> lease_loop q w dur now s os = (r, s', os') \<Longrightarrow>
     failed s' = failed s \<and> idem s' = idem s \<and> jobs s' = jobs s \<and> (\<forall>l. r \<noteq> Inr (Some l))"
proof (induction q w dur now s os rule: lease_loop.induct)
  case (1 q w dur now s os)
  show ?case
  proof (cases "index_pop (index s) q")
    case None
    then show ?thesis using "1.prems" by (auto simp: lease_loop.simps [of q w dur now s os])
  next
    case (Some p)
    obtain cand idx where p: "p = (cand, idx)" by (cases p)
    note pop = Some [unfolded p]
    let ?s0 = "s\<lparr>index := idx\<rparr>"
    show ?thesis
    proof (cases "jobs s (entryID cand)")
      case None
      then have "lease_loop q w dur now ?s0 os = (r, s', os')"
        using "1.prems"(2) pop by (simp add: lease_loop.simps [of q w dur now s os])
      from "1.IH"(1) [OF pop refl refl None _ this] "1.prems"(1) show ?thesis by simp
    next
      case j: (Some j)
      consider (stale) "\<not> Leasable (State j) \<or> entryEligibleAt cand \<noteq> EligibleAt j"
        | (early) "Leasable (State j)" "entryEligibleAt cand = EligibleAt j" "EligibleAt j > now"
        | (due) "Leasable (State j)" "entryEligibleAt cand = EligibleAt j" "\<not> EligibleAt j > now" by blast
      then show ?thesis
      proof cases
        case stale
        have l: "lease_loop q w dur now ?s0 os = (r, s', os')"
          using "1.prems"(2) pop j stale by (elim disjE) (simp_all add: lease_loop.simps [of q w dur now s os] Let_def split: if_splits)
        show ?thesis
        proof (cases "Leasable (State j)")
          case False
          from "1.IH"(2) [OF pop refl refl j False _ l] "1.prems"(1) show ?thesis by simp
        next
          case True
          with stale have "entryEligibleAt cand \<noteq> EligibleAt j" by simp
          from "1.IH"(3) [OF pop refl refl j _ this _ l] True "1.prems"(1) show ?thesis by simp
        qed
      next
        case early
        then have l: "lease_loop q w dur now (s\<lparr>index := index_push idx j now\<rparr>) os = (r, s', os')"
          using "1.prems"(2) pop j by (simp add: lease_loop.simps [of q w dur now s os] Let_def)
        from "1.IH"(4) [OF pop refl refl j _ _ early(3) _ l] early "1.prems"(1) show ?thesis by simp
      next
        case due
        obtain e s1 os1 where ne: "nextEpochLocked ?s0 os = (e, s1, os1)" by (rule prod_cases3)
        have f: "failed s1 = failed s" "idem s1 = idem s" "jobs s1 = jobs s" using nextEpochLocked_frozen [OF ne] by simp_all
        then have "recordLocked s1 os1 ev = (Some x, s1, os1)" for ev using "1.prems"(1) by (simp add: recordLocked_failed)
        then have "s' = s1\<lparr>index := index_push (index s1) j now\<rparr> \<and> (\<exists>y. r = Inl y)"
          using "1.prems"(2) pop j due ne by (auto simp: lease_loop.simps [of q w dur now s os] Let_def split: sum.splits)
        then show ?thesis using f by auto
      qed
    qed
  qed
qed

lemma failLocked_failed: "failed s = Some x \<Longrightarrow> failLocked j reason b now d s os = (Inl x, s, os)"
  by (simp add: failLocked_def recordLocked_failed Let_def)

lemma reclaim_loop_frozen:
  "failed s = Some x \<Longrightarrow> reclaim_loop draw now ids acc s os = (r, acc', s', os') \<Longrightarrow>
     failed s' = failed s \<and> idem s' = idem s \<and> jobs s' = jobs s"
proof (induction ids arbitrary: s)
  case (Cons i ids)
  show ?case
  proof (cases "\<exists>s1. failed s1 = failed s \<and> idem s1 = idem s \<and> jobs s1 = jobs s \<and>
      reclaim_loop draw now ids acc s1 os = (r, acc', s', os')")
    case True
    then obtain s1 where s1: "failed s1 = failed s" "idem s1 = idem s" "jobs s1 = jobs s"
      "reclaim_loop draw now ids acc s1 os = (r, acc', s', os')" by blast
    from Cons.IH [OF _ s1(4)] s1(1-3) Cons.prems(1) show ?thesis by simp
  next
    case False
    then have "s' = s"
      using Cons.prems by (auto simp: failLocked_failed split: option.splits if_splits)
    then show ?thesis by simp
  qed
qed simp

lemma store_step_frozen:
  assumes "store_step (s, os) (s', os')" and f: "failed s = Some x"
  shows "frozen s s'"
  using assms(1)
proof cases
  case (submit p nano rnd now ph)
  then have "s' = s" using f by (auto simp: Submit_locked_def split: if_splits)
  then show ?thesis by (simp add: frozen_same)
next
  case (lease queue w dur now res)
  then show ?thesis
    using lease_loop_frozen [of "s\<lparr>index := index_promote (index s) queue now\<rparr>"] f unfolding Lease_def
    by (intro frozen_same) auto
next
  case (ack i ep pa)
  then have "s' = s" using f by (auto simp: Ack_locked_def recordLocked_failed split: option.splits if_splits)
  then show ?thesis by (simp add: frozen_same)
next
  case (nack i ep reason now r pn)
  then have "s' = s" using f by (auto simp: Nack_locked_def failLocked_failed Let_def split: option.splits if_splits)
  then show ?thesis by (simp add: frozen_same)
next
  case (heartbeat i ep dur now rh)
  show ?thesis
  proof (cases "\<exists>j. jobs s i = Some j \<and> holdsLease j ep")
    case False
    then have "s' = s" using heartbeat by (auto simp: Heartbeat_def split: option.splits)
    then show ?thesis by (simp add: frozen_same)
  next
    case True
    then obtain j where j: "jobs s i = Some j" "s' = s\<lparr>jobs := (jobs s)(i \<mapsto> j\<lparr>LeaseExpiresAt := now + dur\<rparr>)\<rparr>"
      using heartbeat by (auto simp: Heartbeat_def)
    have "\<exists>t. k = l\<lparr>LeaseExpiresAt := t\<rparr>" if "jobs s a = Some l" "jobs s' a = Some k" for a l k
      using that j same_expiry [of l] by (cases "a = i") auto
    moreover have "dom (jobs s') = dom (jobs s)" using j by auto
    moreover have "failed s' = failed s" "idem s' = idem s" using j(2) by simp_all
    ultimately show ?thesis unfolding frozen_def by blast
  qed
next
  case (reclaim draw now ids xa acc)
  then show ?thesis using reclaim_loop_frozen f by (intro frozen_same) blast+
next
  case (replay i now pr)
  then have "s' = s" using f by (auto simp: ReplayJob_locked_def recordLocked_failed Let_def split: option.splits if_splits)
  then show ?thesis by (simp add: frozen_same)
next
  case (commit xa)
  then show ?thesis using f by (auto simp: commitDurable_def Let_def intro!: frozen_same split: option.splits prod.splits)
next
  case (notify b)
  then show ?thesis by (auto intro: frozen_same)
next
  case (snapshot col xa)
  then show ?thesis by (rule Snapshot_write_frame) (simp add: frozen_same)
qed


lemma store_steps_frozen: "store_steps (s, os) (s', os') \<Longrightarrow> failed s = Some x \<Longrightarrow> frozen s s'"
proof (induction rule: rtranclp_induct2)
  case refl
  then show ?case by (simp add: frozen_same)
next
  case (step s1 os1 s2 os2)
  then have "frozen s s1" by simp
  moreover from this have "failed s1 = Some x" using step.prems by (simp add: frozen_def)
  ultimately show ?case using store_step_frozen [OF step(2)] frozen_trans by blast
qed



section \<open>Queries\<close>

lemma in_map_filter: "y \<in> set (List.map_filter f xs) \<longleftrightarrow> (\<exists>x \<in> set xs. f x = Some y)"
  by (induction xs) (auto simp: List.map_filter_simps split: option.split)

lemma stored_jobs:
  assumes "store_ok s" and "set ids = dom (jobs s)"
  shows "j \<in> set (List.map_filter (jobs s) ids) \<longleftrightarrow> jobs s (ID j) = Some j"
proof
  assume "j \<in> set (List.map_filter (jobs s) ids)"
  then obtain i where "jobs s i = Some j" by (auto simp: in_map_filter)
  then show "jobs s (ID j) = Some j" using store_ok_ID [OF assms(1)] by metis
next
  assume j: "jobs s (ID j) = Some j"
  then have "ID j \<in> set ids" using assms(2) by blast
  with j show "j \<in> set (List.map_filter (jobs s) ids)" by (auto simp: in_map_filter)
qed

text \<open>
  C23. \<^verbatim>\<open>ListJobs\<close> returns exactly the jobs of the queue and state asked for, each once, the
  newest id first; a positive limit keeps the first that many.
\<close>

theorem ListJobs_exact:
  assumes "store_ok s" and "distinct ids" and "set ids = dom (jobs s)"
  shows "set (ListJobs q st 0 ids s) = {j. jobs s (ID j) = Some j \<and> (q = [] \<or> Queue j = q) \<and> (st = StateUnspecified \<or> State j = st)} \<and>
    sorted_wrt (\<lambda>a b. ID b < ID a) (ListJobs q st 0 ids s) \<and>
    (0 < limit \<longrightarrow> ListJobs q st limit ids s = take (nat limit) (ListJobs q st 0 ids s))"
proof -
  let ?out = "filter (\<lambda>j. (q = [] \<or> Queue j = q) \<and> (st = StateUnspecified \<or> State j = st)) (List.map_filter (jobs s) ids)"
  have id: "jobs s i = Some j \<Longrightarrow> ID j = i" for i j using store_ok_ID [OF assms(1)] .
  have all: "ListJobs q st 0 ids s = rev (sort_key ID ?out)" by (simp add: ListJobs_def)
  have mf: "map ID (List.map_filter (jobs s) xs) = xs" if "set xs \<subseteq> dom (jobs s)" for xs
    using that by (induction xs) (auto simp: List.map_filter_simps id)
  then have "distinct (map ID (List.map_filter (jobs s) ids))" using assms(2,3) by simp
  then have "distinct (map ID ?out)" by (rule List.distinct_map_filter)
  then have d: "distinct (map ID (sort_key ID ?out))" by (simp add: distinct_map)
  have "sorted (map ID (sort_key ID ?out))" by simp
  with d have "sorted_wrt (<) (map ID (sort_key ID ?out))" by (simp add: strict_sorted_iff)
  then have "sorted_wrt (\<lambda>a b. ID b < ID a) (rev (sort_key ID ?out))" by (simp add: sorted_wrt_rev sorted_wrt_map)
  moreover have "set ?out = {j. jobs s (ID j) = Some j \<and> (q = [] \<or> Queue j = q) \<and> (st = StateUnspecified \<or> State j = st)}"
    using stored_jobs [OF assms(1,3)] by auto
  moreover have "0 < limit \<longrightarrow> ListJobs q st limit ids s = take (nat limit) (ListJobs q st 0 ids s)"
    by (simp add: ListJobs_def Let_def)
  ultimately show ?thesis using all by simp
qed

theorem ListJobs_exact_witness:
  "set (ListJobs ''q'' StateRetryWait 0 [demo_id] failed_store) = {demo_failed}"
proof -
  have ok: "store_ok failed_store"
    using sys_steps_running [OF ok_steps_sys [OF failed_ok_steps] leased_running] by (simp add: running_def live_def)
  have js: "jobs failed_store = [demo_id \<mapsto> demo_failed]" by (simp add: failed_store_def)
  have "set (ListJobs ''q'' StateRetryWait 0 [demo_id] failed_store) =
      {j. jobs failed_store (ID j) = Some j \<and> (''q'' = [] \<or> Queue j = ''q'') \<and> (StateRetryWait = StateUnspecified \<or> State j = StateRetryWait)}"
    using ListJobs_exact [OF ok, of "[demo_id]" "''q''" StateRetryWait] js by auto
  also have "\<dots> = {demo_failed}" using js by (auto split: if_splits)
  finally show ?thesis .
qed

text \<open>The counters of one queue add up to its jobs.\<close>

definition qs_total :: "QueueStats \<Rightarrow> int" where
  "qs_total q = qsPending q + qsLeased q + qsRetryWait q + qsDone q + qsDeadLetter q"

definition qs_of :: "job_state \<Rightarrow> QueueStats \<Rightarrow> int" where
  "qs_of st q =
     (case st of StatePending \<Rightarrow> qsPending q | StateLeased \<Rightarrow> qsLeased q | StateRetryWait \<Rightarrow> qsRetryWait q
      | StateDone \<Rightarrow> qsDone q | StateDeadLetter \<Rightarrow> qsDeadLetter q | StateUnspecified \<Rightarrow> 0)"

lemma qs_of_count: "st \<noteq> StateUnspecified \<Longrightarrow> qs_of st (count_state st' q) = qs_of st q + (if st' = st then 1 else 0)"
  by (cases st; cases st') (simp_all add: qs_of_def count_state_def)

lemma count_state_queue [simp]: "qsQueue (count_state st q) = qsQueue q"
  by (cases st) (simp_all add: count_state_def)

lemma qs_of_new [simp]: "qs_of st (new_queue_stats n) = 0" "qsQueue (new_queue_stats n) = n"
  by (cases st; simp add: qs_of_def new_queue_stats_def) (simp add: new_queue_stats_def)

lemma map_of_AList_update: "map_of (AList.update k v al) = (map_of al)(k \<mapsto> v)"
  by (rule AList.update_conv')

lemma stats_loop_counts:
  "stats_loop queue js al tot = (al', tot') \<Longrightarrow> distinct (map fst al) \<Longrightarrow> (\<forall>n q. (n, q) \<in> set al \<longrightarrow> qsQueue q = n) \<Longrightarrow>
     distinct (map fst al') \<and> (\<forall>n q. (n, q) \<in> set al' \<longrightarrow> qsQueue q = n) \<and>
     tot' = tot + int (length (filter (\<lambda>j. queue = [] \<or> Queue j = queue) js)) \<and>
     dom (map_of al') = dom (map_of al) \<union> Queue ` set (filter (\<lambda>j. queue = [] \<or> Queue j = queue) js) \<and>
     (\<forall>n q st. map_of al' n = Some q \<and> st \<noteq> StateUnspecified \<longrightarrow>
        qs_of st q = (case map_of al n of None \<Rightarrow> 0 | Some p \<Rightarrow> qs_of st p) +
          int (length (filter (\<lambda>j. (queue = [] \<or> Queue j = queue) \<and> Queue j = n \<and> State j = st) js)))"
proof (induction queue js al tot rule: stats_loop.induct)
  case (1 queue al tot)
  then show ?case by (auto simp del: map_of_eq_Some_iff Some_eq_map_of_iff)
next
  case (2 queue j js al tot)
  show ?case
  proof (cases "queue \<noteq> [] \<and> Queue j \<noteq> queue")
    case True
    with 2 show ?thesis by simp
  next
    case False
    let ?q = "case map_of al (Queue j) of None \<Rightarrow> new_queue_stats (Queue j) | Some q \<Rightarrow> q"
    let ?al = "AList.update (Queue j) (count_state (State j) ?q) al"
    have qn: "qsQueue ?q = Queue j" using "2.prems"(3) by (auto dest: map_of_SomeD split: option.split)
    have d: "distinct (map fst ?al)" using "2.prems"(2) by (rule distinct_update)
    have k: "\<forall>n q. (n, q) \<in> set ?al \<longrightarrow> qsQueue q = n"
      using "2.prems"(3) qn d by (auto simp: map_of_eq_Some_iff [OF d, symmetric] map_of_eq_Some_iff [OF "2.prems"(2), symmetric]
          map_of_AList_update split: if_splits)
    have l: "stats_loop queue js ?al (tot + 1) = (al', tot')"
      using "2.prems"(1) False by (simp add: Let_def)
    have c: "(case map_of ?al n of None \<Rightarrow> 0 | Some p \<Rightarrow> qs_of st p) =
        (case map_of al n of None \<Rightarrow> 0 | Some p \<Rightarrow> qs_of st p) + (if Queue j = n \<and> State j = st then 1 else 0)"
      if "st \<noteq> StateUnspecified" for n st
      using qs_of_count [OF that] by (auto simp: map_of_AList_update split: option.split)
    note ih = "2.IH"(2) [OF False refl l d k]
    have dm: "dom (map_of ?al) = insert (Queue j) (dom (map_of al))" by (simp only: map_of_AList_update dom_fun_upd) simp
    have mine: "queue = [] \<or> Queue j = queue" using False by blast
    show ?thesis
    proof (intro conjI allI impI)
      fix n q st assume n: "map_of al' n = Some q \<and> st \<noteq> StateUnspecified"
      then have "qs_of st q = (case map_of ?al n of None \<Rightarrow> 0 | Some p \<Rightarrow> qs_of st p) +
          int (length (filter (\<lambda>j. (queue = [] \<or> Queue j = queue) \<and> Queue j = n \<and> State j = st) js))" using ih by blast
      then show "qs_of st q = (case map_of al n of None \<Rightarrow> 0 | Some p \<Rightarrow> qs_of st p) +
          int (length (filter (\<lambda>j. (queue = [] \<or> Queue j = queue) \<and> Queue j = n \<and> State j = st) (j # js)))"
        using c [of st n] n mine by simp
    next
      show "dom (map_of al') = dom (map_of al) \<union> Queue ` set (filter (\<lambda>j. queue = [] \<or> Queue j = queue) (j # js))"
        using ih dm mine by auto
    qed (use ih mine in auto)
  qed
qed

text \<open>Jobs counted along a listing of the ids are the jobs the store has.\<close>

lemma listed_card:
  assumes "distinct ids" and "set ids = dom m"
  shows "length (filter P (List.map_filter m ids)) = card {i. \<exists>j. m i = Some j \<and> P j}"
proof -
  have "length (filter P (List.map_filter m xs)) = length (filter (\<lambda>i. \<exists>j. m i = Some j \<and> P j) xs)" for xs
    by (induction xs) (auto simp: List.map_filter_simps split: option.split)
  then have "length (filter P (List.map_filter m ids)) = card (set (filter (\<lambda>i. \<exists>j. m i = Some j \<and> P j) ids))"
    using distinct_card [OF distinct_filter [OF assms(1)]] by simp
  also have "set (filter (\<lambda>i. \<exists>j. m i = Some j \<and> P j) ids) = {i. \<exists>j. m i = Some j \<and> P j}"
    using assms(2) by auto
  finally show ?thesis .
qed

text \<open>
  C24. \<^verbatim>\<open>Stats\<close> counts right: over all jobs of the store, or those of the queue asked for, it
  reports each queue once, with the exact number of its jobs in every state, and the total
  is their number.
\<close>

theorem Stats_exact:
  assumes "store_ok s" and "distinct ids" and "set ids = dom (jobs s)"
  shows "stTotalJobs (Stats queue ids s) = int (card {i. \<exists>j. jobs s i = Some j \<and> (queue = [] \<or> Queue j = queue)}) \<and>
    distinct (map qsQueue (stQueues (Stats queue ids s))) \<and>
    qsQueue ` set (stQueues (Stats queue ids s)) = {Queue j | i j. jobs s i = Some j \<and> (queue = [] \<or> Queue j = queue)} \<and>
    (\<forall>q st. q \<in> set (stQueues (Stats queue ids s)) \<and> st \<noteq> StateUnspecified \<longrightarrow>
       qs_of st q = int (card {i. \<exists>j. jobs s i = Some j \<and> Queue j = qsQueue q \<and> State j = st}))"
proof -
  let ?js = "List.map_filter (jobs s) ids"
  have js: "set ?js = {j. \<exists>i. jobs s i = Some j}" using assms(3) in_map_filter [of _ "jobs s" ids] by blast
  note ids = listed_card [OF assms(2,3)]
  obtain al tot where l: "stats_loop queue ?js [] 0 = (al, tot)" by (rule prod.exhaust)
  have sc: "distinct (map fst al)" "\<forall>n q. (n, q) \<in> set al \<longrightarrow> qsQueue q = n"
    "tot = int (length (filter (\<lambda>j. queue = [] \<or> Queue j = queue) ?js))"
    "dom (map_of al) = Queue ` set (filter (\<lambda>j. queue = [] \<or> Queue j = queue) ?js)"
    "\<forall>n q st. map_of al n = Some q \<and> st \<noteq> StateUnspecified \<longrightarrow>
        qs_of st q = int (length (filter (\<lambda>j. (queue = [] \<or> Queue j = queue) \<and> Queue j = n \<and> State j = st) ?js))"
    using stats_loop_counts [OF l] by simp_all
  have st: "stTotalJobs (Stats queue ids s) = tot" "stQueues (Stats queue ids s) = sort_key qsQueue (map snd al)"
    using l by (simp_all add: Stats_def)
  have keys: "map qsQueue (map snd al) = map fst al" using sc(2) by auto
  have "distinct (map qsQueue (map snd al))" unfolding keys using sc(1) .
  then have 1: "distinct (map qsQueue (stQueues (Stats queue ids s)))" by (simp add: st distinct_map del: map_map)
  have "qsQueue ` set (map snd al) = fst ` set al" using keys by (metis list.set_map)
  then have 2: "qsQueue ` set (stQueues (Stats queue ids s)) = dom (map_of al)" by (simp add: st dom_map_of_conv_image_fst)
  have 3: "qs_of x q = int (card {i. \<exists>j. jobs s i = Some j \<and> Queue j = qsQueue q \<and> State j = x})"
    if "q \<in> set (stQueues (Stats queue ids s))" "x \<noteq> StateUnspecified" for q x
  proof -
    have "q \<in> snd ` set al" using that(1) by (simp add: st)
    then obtain n where n: "(n, q) \<in> set al" by auto
    then have "map_of al n = Some q" "qsQueue q = n" using sc(1,2) by auto
    then have q: "map_of al (qsQueue q) = Some q" by simp
    then have "qsQueue q \<in> dom (map_of al)" by blast
    then have mine: "queue = [] \<or> qsQueue q = queue" unfolding sc(4) by auto
    then have "filter (\<lambda>j. (queue = [] \<or> Queue j = queue) \<and> Queue j = qsQueue q \<and> State j = x) ?js =
        filter (\<lambda>j. Queue j = qsQueue q \<and> State j = x) ?js" using mine by (intro filter_cong) auto
    moreover have "qs_of x q = int (length (filter (\<lambda>j. (queue = [] \<or> Queue j = queue) \<and> Queue j = qsQueue q \<and> State j = x) ?js))"
      using sc(5) q that(2) by blast
    ultimately show ?thesis using ids [of "\<lambda>j. Queue j = qsQueue q \<and> State j = x"] by simp
  qed
  have 4: "stTotalJobs (Stats queue ids s) = int (card {i. \<exists>j. jobs s i = Some j \<and> (queue = [] \<or> Queue j = queue)})"
    unfolding st(1) sc(3) ids ..
  have 5: "dom (map_of al) = {Queue j | i j. jobs s i = Some j \<and> (queue = [] \<or> Queue j = queue)}"
    unfolding sc(4) set_filter js by blast
  show ?thesis
  proof (intro conjI allI impI)
    fix q st assume "q \<in> set (stQueues (Stats queue ids s)) \<and> st \<noteq> StateUnspecified"
    then show "qs_of st q = int (card {i. \<exists>j. jobs s i = Some j \<and> Queue j = qsQueue q \<and> State j = st})" by (intro 3; simp)
  qed (use 1 2 4 5 in simp_all)
qed

theorem Stats_exact_witness:
  "stTotalJobs (Stats [] [demo_id] failed_store) = 1"
proof -
  have ok: "store_ok failed_store"
    using sys_steps_running [OF ok_steps_sys [OF failed_ok_steps] leased_running] by (simp add: running_def live_def)
  have js: "jobs failed_store = [demo_id \<mapsto> demo_failed]" by (simp add: failed_store_def)
  have "stTotalJobs (Stats [] [demo_id] failed_store) =
      int (card {i. \<exists>j. jobs failed_store i = Some j \<and> (([] :: string) = [] \<or> Queue j = [])})"
    using Stats_exact [OF ok, of "[demo_id]" "[]"] js by (auto split: if_splits)
  also have "{i. \<exists>j. jobs failed_store i = Some j \<and> (([] :: string) = [] \<or> Queue j = [])} = {demo_id}" using js by auto
  finally show ?thesis by simp
qed

end
