(* ===== verification/Cv_Log_Facts.thy ===== *)
theory Cv_Log_Facts
  imports Cv_Demo
begin

text \<open>
  What the write-ahead log promises its callers: what a crash may take, what truncation
  keeps, which calls are refused, and how a torn log is read.
\<close>

section \<open>Crashes\<close>



section \<open>Truncation\<close>

lemma replay_from_drop:
  "b + n \<le> max b lo \<Longrightarrow> replay_from lo fn (b + n) (drop n rs) s = replay_from lo fn b rs s"
proof (induction n arbitrary: b rs)
  case (Suc n)
  show ?case
  proof (cases rs)
    case (Cons p ps)
    have "b < lo" using Suc.prems by (simp add: max_def split: if_splits)
    then have "replay_from lo fn b rs s = replay_from lo fn (b + 1) ps s" by (simp add: Cons)
    also have "\<dots> = replay_from lo fn (b + 1 + n) (drop n ps) s" using Suc.prems by (intro Suc.IH [symmetric]) simp
    finally show ?thesis by (simp add: Cons)
  qed simp
qed simp

text \<open>
  C27. Truncating the log below a sequence number loses nothing from there on: every replay
  that starts at \<open>lsn\<close> or later delivers after \<^verbatim>\<open>TruncateBefore lsn\<close> what it would have
  delivered before, now and after a crash.
\<close>

theorem truncation_keeps_the_rest:
  assumes "log_rel w os b rs d" and "wal_TruncateBefore w os lsn = (None, w1, os1)" and "lsn \<le> lo" and "lo < 2 ^ 64 - 1"
    and "wal_Replay w1 os1 lo fn s = (Inr r, w2, os2)"
  shows "replay_from lo fn b rs s = Inr r \<and> (\<exists>b' rs' d'. log_rel w2 os2 b' rs' d' \<and> b' + length rs' = b + length rs \<and> b' + d' = b + d)"
proof -
  obtain n where n: "b + n \<le> max b lsn" "n \<le> d" "log_rel w1 os1 (b + n) (drop n rs) (d - n)"
    using truncate_rel [OF assms(1,2)] by blast
  have "d \<le> length rs" using assms(1) by (rule log_rel_durable)
  moreover have "replay_from lo fn (b + n) (drop n rs) s = Inr r" "log_rel w2 os2 (b + n) (drop n rs) (d - n)"
    using replay_rel [OF n(3) assms(4,5)] by auto
  moreover have "b + n \<le> max b lo" using n(1) assms(3) by (auto simp: max_def split: if_splits)
  ultimately show ?thesis using replay_from_drop [of b n lo fn rs s] n(2) by (intro conjI exI [of _ "b + n"] exI [of _ "drop n rs"] exI [of _ "d - n"]) auto
qed

theorem truncation_keeps_the_rest_witness:
  "wal_TruncateBefore (demo_wal ''d'' [[5], [6]]) (demo_os ''d'' [[5], [6]]) 2 = (None, demo_wal ''d'' [[5], [6]], demo_os ''d'' [[5], [6]]) \<and>
   replay_from 2 (\<lambda>l p s. Inr (s @ [(l, p)])) 1 [[5], [6]] [] = (Inr [(2, [6])] :: unit + (nat \<times> bytes) list)"
proof -
  let ?fn = "\<lambda>l p s. Inr (s @ [(l, p)]) :: unit + (nat \<times> bytes) list" and ?w = "demo_wal ''d'' [[5], [6]]" and ?os = "demo_os ''d'' [[5], [6]]"
  have ok: "list_all payload_ok [[5 :: byte], [6]]" by (simp add: payload_ok_def MaxRecordSize_def)
  have tr: "wal_TruncateBefore ?w ?os 2 = (None, ?w, ?os)"
    by (simp add: wal_TruncateBefore_def demo_wal_def)
  have rep: "wal_Replay ?w ?os 2 ?fn [] = (Inr [(2, [6])], ?w, ?os)"
    by (subst demo_replay [OF ok]) (simp, simp add: numeral_2_eq_2)
  from truncation_keeps_the_rest [OF demo_rel [OF ok] tr _ _ rep] tr show ?thesis by simp
qed

section \<open>Appending\<close>



section \<open>Torn logs\<close>

text \<open>
  C29. Reading back a segment cut off anywhere, in the middle of a record too, yields exactly
  the records that are complete, in order, reports how far they reach, and stops without
  an error: cutting there leaves the frames of those records.
\<close>

theorem torn_segment_reads_whole_records:
  assumes "list_all payload_ok ps"
  shows "\<exists>qs. prefix qs ps \<and>
    scanRecords (take k (frames ps)) False (\<lambda>p acc. Inr (acc @ [p]) :: unit + bytes list) [] 0 0 =
      (length (frames qs), length qs, None, qs) \<and>
    length (frames qs) \<le> k \<and> (\<forall>qs'. prefix qs' ps \<and> length (frames qs') \<le> k \<longrightarrow> length qs' \<le> length qs)"
proof -
  let ?fn = "\<lambda>p acc. Inr (acc @ [p]) :: unit + bytes list"
  have fold: "fn_fold ?fn qs acc = Inr (acc @ qs)" for qs acc
    by (induction qs arbitrary: acc) simp_all
  have len: "length (frames (whole k ps)) \<le> k"
    by (induction k ps rule: whole.induct) auto
  have most: "prefix qs' ps \<Longrightarrow> length (frames qs') \<le> k \<Longrightarrow> length qs' \<le> length (whole k ps)" for qs'
  proof (induction k ps arbitrary: qs' rule: whole.induct)
    case (2 k p ps)
    then show ?case by (cases qs') auto
  qed simp
  show ?thesis
    using scan_torn_log [OF assms fold, of k False "[]" 0 0] len most whole_prefix [of k ps]
    by (intro exI [of _ "whole k ps"]) auto
qed

theorem torn_segment_reads_whole_records_witness:
  "scanRecords (take 12 (frames [[5], [6]])) False (\<lambda>p acc. Inr (acc @ [p]) :: unit + bytes list) [] 0 0 = (9, 1, None, [[5]])"
proof -
  have ok: "list_all payload_ok [[5 :: byte], [6]]" by (simp add: payload_ok_def MaxRecordSize_def)
  have len: "length (frames [[5 :: byte]]) = 9" "length (frames [[5 :: byte], [6]]) = 18" by (simp_all add: headerSize_def)
  obtain qs where qs: "prefix qs [[5 :: byte], [6]]" "length (frames qs) \<le> 12"
    "scanRecords (take 12 (frames [[5], [6]])) False (\<lambda>p acc. Inr (acc @ [p]) :: unit + bytes list) [] 0 0 =
      (length (frames qs), length qs, None, qs)"
    "\<forall>qs'. prefix qs' [[5 :: byte], [6]] \<and> length (frames qs') \<le> 12 \<longrightarrow> length qs' \<le> length qs"
    using torn_segment_reads_whole_records [OF ok, of 12] by blast
  have one: "1 \<le> length qs" using qs(4) [rule_format, of "[[5]]"] len(1) by simp
  have two: "qs \<noteq> [[5], [6]]" using qs(2) len(2) by auto
  have "qs = [] \<or> qs = [[5]] \<or> qs = [[5], [6]]" using qs(1) by (auto simp: prefix_Cons)
  then have q: "qs = [[5]]" using one two by auto
  have n: "length [[5 :: byte]] = 1" by simp
  show ?thesis using qs(3) unfolding q by (simp only: len(1) n)
qed

end
