(* ===== verification/Cv_Base_Facts.thy ===== *)
theory Cv_Base_Facts
  imports Cv_Event Cv_Index
begin

text \<open>
  What the store's building blocks promise: the retry backoff, job ids, the schedule
  index, and the on-disk formats.
\<close>

section \<open>Backoff\<close>



text \<open>
  C36. The guard against overflow does not cover every base: with a base of
  \<open>2 ^ 32 + 1\<close> nanoseconds (4.3 s) the shift of the 33rd attempt wraps around to a positive
  value, and that attempt waits less than the 10th, however the jitter falls.
\<close>

theorem Backoff_wraps_around:
  "Backoff 33 (2 ^ 32 + 1) 0 r < Backoff 10 (2 ^ 32 + 1) 0 r'"
proof -
  have w: "wrap64 ((2 ^ 32 + 1) * 2 ^ 32) = 2 ^ 32" "wrap64 ((2 ^ 32 + 1) * 2 ^ 9) = (2 ^ 32 + 1) * 2 ^ 9"
    by (simp_all add: wrap64_def)
  have q: "quot (2 ^ 32) 2 = 2 ^ 31" "quot DefaultBackoffCap 2 = 150000000000" "DefaultBackoffCap = 300000000000"
    by (simp_all add: quot_def DefaultBackoffCap_def Minute_def Second_def)
  have "Backoff 33 (2 ^ 32 + 1) 0 r = 2 ^ 31 + Int64N r (2 ^ 31)"
    using w(1) q by (simp add: Backoff_def Let_def maxBackoffShift_def)
  moreover have "Backoff 10 (2 ^ 32 + 1) 0 r' = 150000000000 + Int64N r' 150000000000"
    using w(2) q by (simp add: Backoff_def Let_def maxBackoffShift_def)
  ultimately show ?thesis
    using Int64N_bounds [of "2 ^ 31" r] Int64N_bounds [of 150000000000 r'] by simp
qed

section \<open>Job ids\<close>

text \<open>
  C37. Job ids sort by the time they were made: of two ids drawn at different times, with as
  many random bytes each, the earlier one is the smaller string.
\<close>

theorem NewID_sorts_by_time:
  assumes "0 \<le> t" and "t < u" and "u < 2 ^ 64" and "length x = length y"
  shows "\<exists>i j. NewID t (Some x) = Some i \<and> NewID u (Some y) = Some j \<and> i < j"
proof -
  have "nat (t mod 2 ^ 64) < nat (u mod 2 ^ 64)" "nat (u mod 2 ^ 64) < 256 ^ 8" using assms by simp_all
  then have "be_bytes 8 (nat (t mod 2 ^ 64)) < be_bytes 8 (nat (u mod 2 ^ 64))" by (rule be_bytes_less)
  then have "be_bytes 8 (nat (t mod 2 ^ 64)) @ x < be_bytes 8 (nat (u mod 2 ^ 64)) @ y"
    by (intro list_less_append_same_length) simp_all
  then show ?thesis using assms(4) by (auto simp: NewID_def intro: EncodeToString_less)
qed

theorem NewID_sorts_by_time_witness:
  "\<exists>i j. NewID 1 (Some [9]) = Some i \<and> NewID 2 (Some [3]) = Some j \<and> i < j"
  using NewID_sorts_by_time [of 1 2 "[9]" "[3]"] by simp

section \<open>The schedule index\<close>

text \<open>
  C38. Promoting and then popping a queue is a correct priority queue over everything filed:
  it fails exactly when nothing is ready or due, and otherwise takes out one entry of the
  queue, no due entry of which has a higher priority, or the same and an earlier
  submission; every other entry stays filed, in every queue.
\<close>

theorem promote_then_pop:
  assumes "index_ok s"
  shows "case index_pop (index_promote s q now) q of
      None \<Rightarrow> \<forall>x. x \<in># filed s q \<longrightarrow> now < entryEligibleAt x
    | Some (e, s') \<Rightarrow>
        index_ok s' \<and> (\<forall>n. filed s n = (if n = q then add_mset e (filed s' n) else filed s' n)) \<and>
        (\<forall>x. x \<in># filed s q \<and> entryEligibleAt x \<le> now \<longrightarrow>
           entryPriority x \<le> entryPriority e \<and> (entryPriority x = entryPriority e \<longrightarrow> entryEnqueuedAt e \<le> entryEnqueuedAt x))"
proof (cases "index_pop (index_promote s q now) q")
  case None
  then have "ready_of (index_promote s q now) q = {#}" by (simp add: index_pop_None)
  then have "now < entryEligibleAt x" if "x \<in># filed s q" for x
    using schedule.promote_ready [OF assms that, of now] by (cases "entryEligibleAt x \<le> now") auto
  then show ?thesis using None by simp
next
  case (Some p)
  obtain e s' where p: "p = (e, s')" by (cases p)
  note ok = index_ok_promote [OF assms, of q now] and pop = Some [unfolded p]
  have "filed s n = (if n = q then add_mset e (filed s' n) else filed s' n)" for n
    using filed_pop [OF pop, of n] filed_promote [OF assms] by simp
  moreover have "entryPriority x \<le> entryPriority e \<and> (entryPriority x = entryPriority e \<longrightarrow> entryEnqueuedAt e \<le> entryEnqueuedAt x)"
    if "x \<in># filed s q" "entryEligibleAt x \<le> now" for x
    using index_pop_least [OF ok pop schedule.promote_ready [OF assms that]]
    by (auto simp: readyHeap_Less_def split: if_splits)
  ultimately show ?thesis using index_ok_pop [OF ok pop] Some p by simp
qed

theorem promote_then_pop_witness:
  "\<exists>e s'. index_pop (index_promote (index_push newScheduleIndex zero_job 0) (Queue zero_job) 0) (Queue zero_job) = Some (e, s') \<and>
     index_ok s' \<and> filed s' (Queue zero_job) = {#} \<and> e = entry_of zero_job"
proof -
  let ?s = "index_push newScheduleIndex zero_job 0"
  let ?q = "Queue zero_job"
  note p = promote_then_pop [OF index_ok_push [OF index_ok_new, of zero_job 0], of ?q 0]
  have f: "filed ?s ?q = {#entry_of zero_job#}" by (simp add: filed_push)
  have t: "entryEligibleAt (entry_of zero_job) = 0" by (simp add: entry_of_def zero_job_def)
  show ?thesis
  proof (cases "index_pop (index_promote ?s ?q 0) ?q")
    case None
    then show ?thesis using p f t by simp
  next
    case (Some r)
    obtain e s' where r: "r = (e, s')" by (cases r)
    then have "index_ok s'" "{#entry_of zero_job#} = add_mset e (filed s' ?q)" using p Some f by auto
    then show ?thesis using Some r by simp
  qed
qed

lemma delayed_min:
  assumes "index_ok s" and "s n = Some q" and "x \<in> set (delayed q)"
  shows "delayed q \<noteq> []" and "entryEligibleAt (delayed q ! 0) \<le> entryEligibleAt x"
    and "delayed q ! 0 \<in># delayed_of s n"
proof -
  show ne: "delayed q \<noteq> []" using assms(3) by auto
  have "queue_ok q" using assms(1,2) by (simp add: index_ok_def)
  then show "entryEligibleAt (delayed q ! 0) \<le> entryEligibleAt x"
    using assms(3) ne delayed_root_least [of "delayed q" x] by (simp add: queue_ok_def)
  show "delayed q ! 0 \<in># delayed_of s n" using assms(2) ne by (simp add: delayed_of_def)
qed

text \<open>
  The deadline the dispatcher sleeps towards is right: when the names given are all the
  queues of a well-formed index and every delayed entry has a real time, it is the earliest
  time any delayed entry becomes eligible, and there is none exactly when nothing is delayed.
\<close>

theorem nextDeadline_earliest:
  assumes "index_ok s" and "set names = dom s" and "\<And>n x. x \<in># delayed_of s n \<Longrightarrow> entryEligibleAt x \<noteq> 0"
  shows "case nextDeadline s names of
      None \<Rightarrow> \<forall>n. delayed_of s n = {#}
    | Some t \<Rightarrow> (\<exists>n x. x \<in># delayed_of s n \<and> entryEligibleAt x = t) \<and> (\<forall>n x. x \<in># delayed_of s n \<longrightarrow> t \<le> entryEligibleAt x)"
proof -
  let ?t = "nextDeadline_loop s names 0"
  have root: "delayed q ! 0 \<in># delayed_of s n" if "s n = Some q" "delayed q \<noteq> []" for n q
    using that by (simp add: delayed_of_def)
  then have nz: "\<forall>n q. s n = Some q \<and> delayed q \<noteq> [] \<longrightarrow> entryEligibleAt (delayed q ! 0) \<noteq> 0"
    using assms(3) by blast
  have le: "?t \<noteq> 0 \<and> ?t \<le> entryEligibleAt x" if x: "x \<in># delayed_of s n" for n x
  proof -
    obtain q where q: "s n = Some q" "x \<in> set (delayed q)" using x by (auto simp: delayed_of_def split: option.splits)
    have "n \<in> set names" using q(1) assms(2) by auto
    from nextDeadline_loop_le [OF nz this q(1), of 0] delayed_min [OF assms(1) q] show ?thesis by fastforce
  qed
  have at: "?t = 0 \<or> (\<exists>n x. x \<in># delayed_of s n \<and> entryEligibleAt x = ?t)"
    using nextDeadline_loop_attained [of s names 0] root by metis
  show ?thesis
  proof (cases "?t = 0")
    case True
    then have "delayed_of s n = {#}" for n using le [of _ n] by (cases "delayed_of s n") auto
    then show ?thesis using True by (simp add: nextDeadline_def)
  next
    case False
    then show ?thesis using at le by (auto simp: nextDeadline_def)
  qed
qed

theorem nextDeadline_earliest_witness:
  "\<exists>t. nextDeadline (newScheduleIndex(''q'' \<mapsto> \<lparr>ready = [], delayed = [\<lparr>entryID = ''1'', entryPriority = PriorityLow,
     entryEnqueuedAt = 2, entryEligibleAt = 7\<rparr>]\<rparr>)) [''q''] = Some t \<and> t = 7"
proof -
  let ?e = "\<lparr>entryID = ''1'', entryPriority = PriorityLow, entryEnqueuedAt = 2, entryEligibleAt = 7\<rparr>"
  let ?s = "newScheduleIndex(''q'' \<mapsto> \<lparr>ready = [], delayed = [?e]\<rparr>)"
  have ok: "index_ok ?s" by (simp add: index_ok_def newScheduleIndex_def queue_ok_def is_heap_def)
  have d: "delayed_of ?s n = (if n = ''q'' then {#?e#} else {#})" for n by (simp add: delayed_of_def newScheduleIndex_def)
  have n: "set [''q''] = dom ?s" by (simp add: newScheduleIndex_def)
  have e: "x \<in># delayed_of ?s n \<Longrightarrow> entryEligibleAt x \<noteq> 0" for n x by (simp add: d split: if_splits)
  have r: "case nextDeadline ?s [''q''] of None \<Rightarrow> \<forall>n. delayed_of ?s n = {#}
    | Some t \<Rightarrow> (\<exists>n x. x \<in># delayed_of ?s n \<and> entryEligibleAt x = t) \<and> (\<forall>n x. x \<in># delayed_of ?s n \<longrightarrow> t \<le> entryEligibleAt x)"
    by (rule nextDeadline_earliest [OF ok n e])
  then obtain t where t: "nextDeadline ?s [''q''] = Some t" by (cases "nextDeadline ?s [''q'']") (auto simp: d dest: spec [of _ "''q''"])
  then have "\<exists>n x. x \<in># delayed_of ?s n \<and> entryEligibleAt x = t" using r by simp
  then have "t = 7" by (auto simp: d split: if_splits)
  with t show ?thesis by blast
qed

section \<open>Formats on disk\<close>

text \<open>
  C39. Every event the store can produce is encoded, and decoding gives it back: for texts in
  valid UTF-8, attempts of 64 bits and times up to the year 9994 or so, \<^verbatim>\<open>decodeEvent\<close>
  inverts \<^verbatim>\<open>encodeEvent\<close>, which never fails.
\<close>

theorem event_round_trip:
  assumes "event_text_ok e" and "event_times_ok e"
  shows "\<exists>b. encodeEvent e = Some b \<and> decodeEvent b = Some e"
  using encodeEvent_ok [OF assms(2)] decode_encodeEvent [OF assms(1)] by blast

theorem event_round_trip_witness:
  "\<exists>b. encodeEvent (zero_event\<lparr>evType := eventAck, evJobID := ''7'', evEpoch := 3\<rparr>) = Some b \<and>
     decodeEvent b = Some (zero_event\<lparr>evType := eventAck, evJobID := ''7'', evEpoch := 3\<rparr>)"
proof -
  have "event_text_ok (zero_event\<lparr>evType := eventAck, evJobID := ''7'', evEpoch := 3\<rparr>)"
    by (simp add: event_text_ok_def zero_event_def event_types int64_ok_def) (code_simp)
  moreover have "event_times_ok (zero_event\<lparr>evType := eventAck, evJobID := ''7'', evEpoch := 3\<rparr>)"
    by (simp add: event_times_ok_def zero_event_def time_ok_def day_nanos_def Hour_def Minute_def Second_def)
  ultimately show ?thesis by (rule event_round_trip)
qed

text \<open>
  C40. Snapshots are read back as they were written: whenever a snapshot of jobs with valid
  texts was encoded, decoding the file gives the same jobs, sequence number and token limit.
\<close>

theorem snapshot_round_trip:
  assumes "\<forall>j \<in> set (snJobs s). \<exists>x. j = Some x \<and> job_text_ok x" and "encodeSnapshot s = Some b"
  shows "decodeSnapshot b = Some s"
  using decode_encodeSnapshot [OF assms] .

theorem snapshot_round_trip_witness:
  "\<exists>b. encodeSnapshot \<lparr>snLastLSN = 7, snReservedUpTo = 9, snJobs = []\<rparr> = Some b \<and>
     decodeSnapshot b = Some \<lparr>snLastLSN = 7, snReservedUpTo = 9, snJobs = []\<rparr>"
proof -
  obtain b where b: "encodeSnapshot \<lparr>snLastLSN = 7, snReservedUpTo = 9, snJobs = []\<rparr> = Some b"
    by (simp add: encodeSnapshot_def)
  from snapshot_round_trip [OF _ b] b show ?thesis by simp
qed

end
