(* ===== verification/Cv_Commit.thy ===== *)
theory Cv_Commit
  imports Cv_Demo
begin

text \<open>
  The group committer (\<^verbatim>\<open>commit.go\<close>): one background loop flushes the log for everybody
  who waits.  Callers, the loop's program counter and the log interleave; \<^verbatim>\<open>Sync\<close> is its
  two critical sections, so appends and rotations may come between them.
\<close>

section \<open>Half a flush\<close>

text \<open>
  \<open>log_written w os b rs d n\<close>: besides the \<open>d\<close> records on stable storage, the first \<open>n\<close> ones
  have left the buffer.
\<close>

definition written_count :: "wal \<Rightarrow> os \<Rightarrow> bytes list list \<Rightarrow> bytes list \<Rightarrow> nat" where
  "written_count w os old cur =
     length (concat old) +
     length (whole (case file_at os (wdir w) (active w) of None \<Rightarrow> 0 | Some f \<Rightarrow> length (fdata f)) cur)"

definition log_written :: "wal \<Rightarrow> os \<Rightarrow> nat \<Rightarrow> bytes list \<Rightarrow> nat \<Rightarrow> nat \<Rightarrow> bool" where
  "log_written w os b rs d n \<longleftrightarrow>
     (\<exists>old cur. wal_rel w os b old cur \<and> rs = concat old @ cur \<and> d = durable_count w os old cur \<and>
        n = written_count w os old cur)"

lemma log_written_rel: "log_written w os b rs d n \<Longrightarrow> log_rel w os b rs d"
  by (auto simp: log_written_def log_rel_def)

lemma log_rel_written: "log_rel w os b rs d \<Longrightarrow> \<exists>n. log_written w os b rs d n"
  by (auto simp: log_written_def log_rel_def)

lemma log_written_le: "log_written w os b rs d n \<Longrightarrow> n \<le> length rs"
  by (auto simp: log_written_def written_count_def length_whole_le)

lemma durable_written: "log_written w os b rs d n \<Longrightarrow> d \<le> n"
proof -
  assume "log_written w os b rs d n"
  then obtain old cur where r: "wal_rel w os b old cur" "d = durable_count w os old cur" "n = written_count w os old cur"
    by (auto simp: log_written_def)
  obtain f where f: "file_at os (wdir w) (active w) = Some f" "fsynced f \<le> length (fdata f)"
    using r(1) by (rule wal_rel_active)
  have "length (whole (fsynced f) cur) \<le> length (whole (length (fdata f)) cur)"
    using whole_mono [OF f(2)] by (rule prefix_length_le)
  then show ?thesis using r(2,3) f(1) by (simp add: durable_count_def written_count_def)
qed

lemma log_written_next: "log_written w os b rs d n \<Longrightarrow> nextLSN w = b + length rs"
  by (auto simp: log_written_def wal_rel_def Let_def)

lemma written_count_append:
  assumes "wal_rel w os b old cur"
  shows "written_count w os old (cur @ [p]) = written_count w os old cur"
proof -
  obtain f where f: "file_at os (wdir w) (active w) = Some f" "fdata f @ buf w = frames cur"
    using assms by (rule wal_rel_active)
  then have "length (fdata f) \<le> length (frames cur)" by (metis length_append le_add1)
  with f(1) show ?thesis by (simp add: written_count_def whole_append_short)
qed

lemma append_written:
  assumes rel: "log_written w os b rs d n" and app: "wal_Append w os p = (Inr lsn, w', os')"
  shows "\<exists>d' n'. d \<le> d' \<and> n \<le> n' \<and> log_written w' os' b (rs @ [p]) d' n'"
proof -
  obtain old cur where r: "wal_rel w os b old cur" "rs = concat old @ cur" "d = durable_count w os old cur"
    "n = written_count w os old cur"
    using rel by (auto simp: log_written_def)
  let ?sz = "int (headerSize + length p)"
  let ?add = "\<lambda>w. w\<lparr>buf := buf w @ frame p, activeSize := activeSize w + ?sz, nextLSN := nextLSN w + 1\<rparr>"
  have p: "payload_ok p" and open_w: "\<not> closed w"
    using app by (auto simp: wal_Append_def appendLocked_def payload_ok_def split: if_splits)
  show ?thesis
  proof (cases "activeSize w > 0 \<and> activeSize w + ?sz > maxSegmentSize w")
    case False
    then have eq: "w' = ?add w" "os' = os"
      using app p open_w by (auto simp: wal_Append_def appendLocked_def payload_ok_def Let_def)
    have "durable_count w' os' old (cur @ [p]) = d" "written_count w' os' old (cur @ [p]) = n"
      using eq r durable_count_append [OF r(1), of p] written_count_append [OF r(1), of p]
      by (simp_all add: durable_count_def written_count_def)
    moreover have "wal_rel w' os' b old (cur @ [p])" using append_buffer_rel [OF r(1) p] eq by simp
    moreover have "rs @ [p] = concat old @ (cur @ [p])" using r(2) by simp
    ultimately show ?thesis unfolding log_written_def by blast
  next
    case True
    then obtain w1 where rot: "rotateLocked w os = (None, w1, os')" and eq: "w' = ?add w1"
      using app p open_w
      by (auto simp: wal_Append_def appendLocked_def payload_ok_def Let_def split: prod.splits option.splits)
    have "wal_rel w1 os' b (old @ [cur]) []" using rotate_rel(1) [OF r(1) activeSize_pos [OF r(1)] rot] True by blast
    then have "wal_rel w' os' b (old @ [cur]) [p]" using append_buffer_rel [OF _ p] eq by fastforce
    moreover have "d \<le> durable_count w' os' (old @ [cur]) [p]" "n \<le> written_count w' os' (old @ [cur]) [p]"
      using durable_count_le [of w os old cur] r log_written_le [OF rel]
      by (simp_all add: durable_count_def written_count_def)
    moreover have "rs @ [p] = concat (old @ [cur]) @ [p]" using r(2) by simp
    ultimately show ?thesis unfolding log_written_def by blast
  qed
qed

lemma Sync_write_written:
  assumes rel: "log_written w os b rs d n" and wr: "Sync_write w os = (None, w', os')"
  shows "log_written w' os' b rs d (length rs)"
proof -
  obtain old cur where r: "wal_rel w os b old cur" "rs = concat old @ cur" "d = durable_count w os old cur"
    using rel by (auto simp: log_written_def)
  have "flushBufferLocked w os = (None, w', os')" using wr by (auto simp: Sync_write_def split: if_splits)
  note f = flush_rel [OF r(1) this]
  obtain g where g: "file_at os' (wdir w') (active w') = Some g" "fdata g @ buf w' = frames cur"
    using f(1) by (rule wal_rel_active)
  have "written_count w' os' old cur = length rs" using g f(2) r(2) by (simp add: written_count_def whole_all)
  moreover have "durable_count w' os' old cur = d"
    using f(3,4) r(3) by (auto simp: durable_count_def split: option.splits)
  ultimately show ?thesis using f(1) r(2) unfolding log_written_def by metis
qed

lemma Sync_flush_written:
  assumes rel: "log_written w os b rs d n" and fl: "Sync_flush w os = (None, w', os')"
  shows "log_written w' os' b rs n n" and "w' = w"
proof -
  obtain old cur where r: "wal_rel w os b old cur" "rs = concat old @ cur" "n = written_count w os old cur"
    using rel by (auto simp: log_written_def)
  have sy: "sync_active w os = (None, os')" and w': "w' = w"
    using fl by (auto simp: Sync_flush_def split: if_splits prod.splits option.splits)
  obtain f where f: "file_at os (wdir w) (active w) = Some f" "fdata f @ buf w = frames cur"
    "fsynced f \<le> length (fdata f)" "\<not> flost f" "flinked f"
    using r(1) by (rule wal_rel_active)
  obtain os1 where os1: "dirs os1 = dirs os" "os' = upd_file synced_ok os1 (wdir w) (active w)"
    using sy by (rule sync_active_None)
  then have os': "os' = set_file os1 (wdir w) (active w) (f\<lparr>fsynced := length (fdata f)\<rparr>)"
    using f by (simp add: upd_file_def file_at_dirs_cong [OF os1(1)] synced_ok_def)
  have "w\<lparr>buf := buf w\<rparr> = w" by simp
  with wal_rel_active_update [OF r(1) os1(1), of "f\<lparr>fsynced := length (fdata f)\<rparr>" "buf w"] f os'
  have "wal_rel w os' b old cur" by simp
  moreover have "durable_count w os' old cur = n" "written_count w os' old cur = n"
    using f(1) os' r(3) by (simp_all add: durable_count_def written_count_def)
  ultimately show "log_written w' os' b rs n n" using r(2) w' unfolding log_written_def by metis
  show "w' = w" by (fact w')
qed

section \<open>The committer\<close>

type_synonym caller = nat

record committer =
  waiters :: "caller list"
  crunning :: bool

definition newCommitter :: committer where "newCommitter = \<lparr>waiters = [], crunning = False\<rparr>"

text \<open>The locked part of \<^verbatim>\<open>commit\<close>: join the waiters, and start the loop unless it runs.\<close>

definition commit_enter :: "caller \<Rightarrow> committer \<Rightarrow> committer \<times> bool" where
  "commit_enter ch c =
     (let c1 = c\<lparr>waiters := waiters c @ [ch]\<rparr>
      in if \<not> crunning c1 then (c1\<lparr>crunning := True\<rparr>, True) else (c1, False))"

text \<open>The locked part of \<^verbatim>\<open>flushLoop\<close>: take all waiters, or stop when there are none.\<close>

definition take_batch :: "committer \<Rightarrow> committer \<times> caller list" where
  "take_batch c =
     (let batch = waiters c; c1 = c\<lparr>waiters := []\<rparr>
      in if batch = [] then (c1\<lparr>crunning := False\<rparr>, []) else (c1, batch))"

text \<open>Where the loop is: before its lock, before the write, before the flush, handing out the result.\<close>

datatype flush_pc = Stopped | Head | Writing "caller list" | Flushing "caller list" | Replying "caller list" "wal_error option"

text \<open>
  \<open>answers\<close> are the callers' channels.  \<open>need\<close> and \<open>clean\<close> are for the specification only:
  the log position at which a caller joined, and whether no operation on the log has failed.
\<close>

record group =
  com :: committer
  pc :: flush_pc
  glog :: wal
  gos :: os
  answers :: "caller \<Rightarrow> wal_error option option"
  entered :: "caller set"
  need :: "caller \<Rightarrow> nat"
  clean :: bool

inductive loop_step :: "group \<Rightarrow> group \<Rightarrow> bool" where
  take_some: "pc g = Head \<Longrightarrow> take_batch (com g) = (c, x # xs) \<Longrightarrow> loop_step g (g\<lparr>com := c, pc := Writing (x # xs)\<rparr>)"
| take_none: "pc g = Head \<Longrightarrow> take_batch (com g) = (c, []) \<Longrightarrow> loop_step g (g\<lparr>com := c, pc := Stopped\<rparr>)"
| write_ok: "pc g = Writing b \<Longrightarrow> Sync_write (glog g) (gos g) = (None, w, os) \<Longrightarrow>
    loop_step g (g\<lparr>pc := Flushing b, glog := w, gos := os\<rparr>)"
| write_err: "pc g = Writing b \<Longrightarrow> Sync_write (glog g) (gos g) = (Some e, w, os) \<Longrightarrow>
    loop_step g (g\<lparr>pc := Replying b (Some e), glog := w, gos := os, clean := False\<rparr>)"
| flush_ok: "pc g = Flushing b \<Longrightarrow> Sync_flush (glog g) (gos g) = (None, w, os) \<Longrightarrow>
    loop_step g (g\<lparr>pc := Replying b None, glog := w, gos := os\<rparr>)"
| flush_err: "pc g = Flushing b \<Longrightarrow> Sync_flush (glog g) (gos g) = (Some e, w, os) \<Longrightarrow>
    loop_step g (g\<lparr>pc := Replying b (Some e), glog := w, gos := os, clean := False\<rparr>)"
| reply: "pc g = Replying (x # xs) r \<Longrightarrow>
    loop_step g (g\<lparr>pc := (if xs = [] then Head else Replying xs r), answers := (answers g)(x \<mapsto> r)\<rparr>)"

inductive group_step :: "group \<Rightarrow> group \<Rightarrow> bool" where
  enter: "x \<notin> entered g \<Longrightarrow> commit_enter x (com g) = (c, started) \<Longrightarrow>
    group_step g (g\<lparr>com := c, pc := (if started then Head else pc g), entered := insert x (entered g),
      need := (need g)(x := nextLSN (glog g))\<rparr>)"
| append_ok: "wal_Append (glog g) (gos g) p = (Inr l, w, os) \<Longrightarrow> group_step g (g\<lparr>glog := w, gos := os\<rparr>)"
| append_err: "wal_Append (glog g) (gos g) p = (Inl e, w, os) \<Longrightarrow> group_step g (g\<lparr>glog := w, gos := os, clean := False\<rparr>)"
| loop: "loop_step g g' \<Longrightarrow> group_step g g'"

inductive_cases loop_stepE: "loop_step g g'"
inductive_cases group_stepE: "group_step g g'"

definition group_start :: "wal \<Rightarrow> os \<Rightarrow> group" where
  "group_start w os =
     \<lparr>com = newCommitter, pc = Stopped, glog = w, gos = os, answers = Map.empty, entered = {}, need = (\<lambda>_. 0), clean = True\<rparr>"


abbreviation group_steps :: "group \<Rightarrow> group \<Rightarrow> bool" where "group_steps \<equiv> group_step\<^sup>*\<^sup>*"
abbreviation loop_steps :: "group \<Rightarrow> group \<Rightarrow> bool" where "loop_steps \<equiv> loop_step\<^sup>*\<^sup>*"

section \<open>Nobody is forgotten\<close>

fun batch_of :: "flush_pc \<Rightarrow> caller list" where
  "batch_of Stopped = []"
| "batch_of Head = []"
| "batch_of (Writing b) = b"
| "batch_of (Flushing b) = b"
| "batch_of (Replying b r) = b"

text \<open>
  Every caller that entered is in exactly one place: among the waiters, in the batch, or
  answered; and the loop runs whenever there is anybody to serve.
\<close>

definition flow_ok :: "group \<Rightarrow> bool" where
  "flow_ok g \<longleftrightarrow>
     crunning (com g) = (pc g \<noteq> Stopped) \<and> (pc g = Stopped \<longrightarrow> waiters (com g) = []) \<and>
     (batch_of (pc g) = [] \<longrightarrow> pc g \<in> {Stopped, Head}) \<and>
     distinct (waiters (com g) @ batch_of (pc g)) \<and>
     (\<forall>x. x \<in> set (waiters (com g) @ batch_of (pc g)) \<longrightarrow> answers g x = None) \<and>
     (\<forall>x. x \<in> entered g \<longleftrightarrow> x \<in> set (waiters (com g) @ batch_of (pc g)) \<or> answers g x \<noteq> None)"

lemma commit_enter_eq: "commit_enter x c = (\<lparr>waiters = waiters c @ [x], crunning = True\<rparr>, \<not> crunning c)"
  by (cases c) (simp add: commit_enter_def Let_def)

lemma take_batch_eq: "take_batch c = (\<lparr>waiters = [], crunning = crunning c \<and> waiters c \<noteq> []\<rparr>, waiters c)"
  by (cases c) (simp add: take_batch_def Let_def)

lemma flow_start: "flow_ok (group_start w os)"
  by (simp add: flow_ok_def group_start_def newCommitter_def)

lemma flow_loop: "loop_step g g' \<Longrightarrow> flow_ok g \<Longrightarrow> flow_ok g'"
proof (induction rule: loop_step.induct)
  case (reply g x xs r)
  then show ?case by (cases "xs = []") (auto simp: flow_ok_def)
qed (auto simp: flow_ok_def take_batch_eq)

lemma flow_group: "group_step g g' \<Longrightarrow> flow_ok g \<Longrightarrow> flow_ok g'"
proof (induction rule: group_step.induct)
  case (enter x g c started)
  then show ?case by (cases "pc g") (auto simp: flow_ok_def commit_enter_eq)
next
  case (loop g g')
  then show ?case by (simp add: flow_loop)
qed (auto simp: flow_ok_def)

lemma flow_steps: "group_steps g g' \<Longrightarrow> flow_ok g \<Longrightarrow> flow_ok g'"
  by (induction rule: rtranclp_induct) (auto intro: flow_group)

lemma loop_steps_group: "loop_steps g g' \<Longrightarrow> group_steps g g'"
  by (induction rule: rtranclp_induct) (auto intro: rtranclp.rtrancl_into_rtrancl group_step.loop)

text \<open>The loop can always go on until it stops, and it does stop when nobody new comes.\<close>

lemma loop_entered: "loop_steps g g' \<Longrightarrow> entered g' = entered g"
proof (induction rule: rtranclp_induct)
  case (step y z)
  have "entered z = entered y" using step(2) by (induction rule: loop_step.induct) simp_all
  with step(3) show ?case by simp
qed simp

lemma loop_progress: "flow_ok g \<Longrightarrow> pc g \<noteq> Stopped \<Longrightarrow> \<exists>g'. loop_step g g'"
proof -
  assume ok: "flow_ok g" and run: "pc g \<noteq> Stopped"
  show ?thesis
  proof (cases "pc g")
    case Stopped
    with run show ?thesis by simp
  next
    case Head
    obtain c b where b: "take_batch (com g) = (c, b)" by (rule prod.exhaust)
    with Head show ?thesis by (cases b) (auto intro: loop_step.intros)
  next
    case (Writing b)
    obtain e w os where "Sync_write (glog g) (gos g) = (e, w, os)" by (rule prod_cases3)
    with Writing show ?thesis by (cases e) (auto intro: loop_step.intros)
  next
    case (Flushing b)
    obtain e w os where "Sync_flush (glog g) (gos g) = (e, w, os)" by (rule prod_cases3)
    with Flushing show ?thesis by (cases e) (auto intro: loop_step.intros)
  next
    case (Replying b r)
    then obtain x xs where "b = x # xs" using ok by (cases b) (auto simp: flow_ok_def)
    with Replying show ?thesis by (auto intro: loop_step.intros)
  qed
qed

fun pc_weight :: "flush_pc \<Rightarrow> nat" where
  "pc_weight Stopped = 0"
| "pc_weight Head = 1"
| "pc_weight (Writing b) = length b + 3"
| "pc_weight (Flushing b) = length b + 2"
| "pc_weight (Replying b r) = length b + 1"

definition work_left :: "group \<Rightarrow> nat" where
  "work_left g = 5 * length (waiters (com g)) + pc_weight (pc g)"

lemma loop_step_work: "loop_step g g' \<Longrightarrow> work_left g' < work_left g"
  by (induction rule: loop_step.induct) (auto simp: work_left_def take_batch_eq)

lemma loop_finishes: "flow_ok g \<Longrightarrow> \<exists>g'. loop_steps g g' \<and> pc g' = Stopped"
proof (induction "work_left g" arbitrary: g rule: less_induct)
  case less
  show ?case
  proof (cases "pc g = Stopped")
    case False
    then obtain g1 where g1: "loop_step g g1" using loop_progress less.prems by blast
    from less.hyps [OF loop_step_work [OF g1] flow_loop [OF g1 less.prems]]
    show ?thesis using g1 by (meson converse_rtranclp_into_rtranclp)
  qed blast
qed


section \<open>What an answer means\<close>

text \<open>
  While nothing has failed, whoever has been told so is on stable storage up to the
  position at which they joined, and so is whoever is about to be told.
\<close>

definition covered :: "group \<Rightarrow> nat \<Rightarrow> nat \<Rightarrow> nat \<Rightarrow> nat \<Rightarrow> bool" where
  "covered g b len d n \<longleftrightarrow>
     (\<forall>x \<in> entered g. need g x \<le> b + len) \<and>
     (\<forall>x. answers g x = Some None \<longrightarrow> x \<in> entered g \<and> need g x \<le> b + d) \<and>
     (case pc g of
        Flushing xs \<Rightarrow> \<forall>x \<in> set xs. x \<in> entered g \<and> need g x \<le> b + n
      | Replying xs None \<Rightarrow> \<forall>x \<in> set xs. x \<in> entered g \<and> need g x \<le> b + d
      | _ \<Rightarrow> True)"

definition promise_ok :: "group \<Rightarrow> nat \<Rightarrow> bool" where
  "promise_ok g b \<longleftrightarrow>
     (clean g \<longrightarrow> (\<exists>rs d n. log_written (glog g) (gos g) b rs d n \<and> covered g b (length rs) d n))"

lemma promise_start: "log_rel w os b rs d \<Longrightarrow> promise_ok (group_start w os) b"
  using log_rel_written [of w os b rs d] unfolding promise_ok_def covered_def
  by (auto simp: group_start_def intro: exI)

lemma covered_mono:
  "covered g b len d n \<Longrightarrow> len \<le> len' \<Longrightarrow> d \<le> d' \<Longrightarrow> n \<le> n' \<Longrightarrow> covered g b len' d' n'"
  by (fastforce simp: covered_def split: flush_pc.splits option.splits)

lemma promiseI: "log_written (glog g) (gos g) b rs d n \<Longrightarrow> covered g b (length rs) d n \<Longrightarrow> promise_ok g b"
  unfolding promise_ok_def by blast

lemma promise_dirty [simp]: "\<not> clean g \<Longrightarrow> promise_ok g b"
  by (simp add: promise_ok_def)

lemma loop_dirty: "loop_step g g' \<Longrightarrow> clean g' \<Longrightarrow> clean g"
  by (induction rule: loop_step.induct) simp_all

lemma promise_loop:
  assumes step: "loop_step g g'" and flow: "flow_ok g" and pr: "promise_ok g b"
  shows "promise_ok g' b"
proof (cases "clean g")
  case False
  then have "\<not> clean g'" using loop_dirty [OF step] by blast
  then show ?thesis by simp
next
  case True
  then obtain rs d n where l: "log_written (glog g) (gos g) b rs d n" and c: "covered g b (length rs) d n"
    using pr by (auto simp: promise_ok_def)
  have in_entered: "x \<in> set (batch_of (pc g)) \<Longrightarrow> x \<in> entered g" for x using flow by (auto simp: flow_ok_def)
  show ?thesis using step
  proof cases
    case (take_some c' x xs)
    then show ?thesis using l c by (intro promiseI [of _ _ rs d n]) (auto simp: covered_def)
  next
    case (take_none c')
    then show ?thesis using l c by (intro promiseI [of _ _ rs d n]) (auto simp: covered_def)
  next
    case (write_ok xs w os)
    from Sync_write_written [OF l write_ok(3)] have "log_written w os b rs d (length rs)" .
    then show ?thesis using c write_ok(1,2) in_entered
      by (intro promiseI [of _ _ rs d "length rs"]) (auto simp: covered_def)
  next
    case (flush_ok xs w os)
    have le: "d \<le> n" using l by (rule durable_written)
    have "covered (g\<lparr>pc := Replying xs None, glog := w, gos := os\<rparr>) b (length rs) n n"
      using c flush_ok(2) le by (fastforce simp: covered_def)
    then show ?thesis using Sync_flush_written(1) [OF l flush_ok(3)] flush_ok(1)
      by (intro promiseI [of _ _ rs n n]) simp_all
  next
    case (reply x xs r)
    then show ?thesis using l c
      by (intro promiseI [of _ _ rs d n]) (auto simp: covered_def split: option.splits)
  qed simp_all
qed


lemma promise_group:
  assumes step: "group_step g g'" and flow: "flow_ok g" and pr: "promise_ok g b"
  shows "promise_ok g' b"
  using step
proof cases
  case (enter x c started)
  show ?thesis
  proof (cases "clean g")
    case True
    then obtain rs d n where l: "log_written (glog g) (gos g) b rs d n" and c: "covered g b (length rs) d n"
      using pr by (auto simp: promise_ok_def)
    have "started \<Longrightarrow> pc g = Stopped" using enter(3) flow by (auto simp: commit_enter_eq flow_ok_def)
    moreover have "y \<in> set (batch_of (pc g)) \<Longrightarrow> y \<noteq> x" for y using enter(2) flow by (auto simp: flow_ok_def)
    moreover have "answers g y \<noteq> None \<Longrightarrow> y \<noteq> x" for y using enter(2) flow by (auto simp: flow_ok_def)
    ultimately have "covered g' b (length rs) d n"
      using c log_written_next [OF l] unfolding enter(1)
      by (auto simp: covered_def split: flush_pc.splits option.splits)
    then show ?thesis using l enter(1) by (intro promiseI [of _ _ rs d n]) simp_all
  qed (use enter(1) in simp)
next
  case (append_ok p l w os)
  show ?thesis
  proof (cases "clean g")
    case True
    then obtain rs d n where l: "log_written (glog g) (gos g) b rs d n" and c: "covered g b (length rs) d n"
      using pr by (auto simp: promise_ok_def)
    obtain d' n' where m: "d \<le> d'" "n \<le> n'" "log_written w os b (rs @ [p]) d' n'"
      using append_written [OF l append_ok(2)] by blast
    have "covered g b (length (rs @ [p])) d' n'" using covered_mono [OF c _ m(1,2)] by simp
    then have "covered g' b (length (rs @ [p])) d' n'" unfolding append_ok(1)
      by (simp add: covered_def split: flush_pc.splits option.splits)
    then show ?thesis using m(3) append_ok(1) by (intro promiseI [of _ _ "rs @ [p]" d' n']) simp_all
  qed (use append_ok(1) in simp)
next
  case (append_err p e w os)
  then show ?thesis by simp
next
  case loop
  then show ?thesis using promise_loop flow pr by blast
qed

lemma group_steps_ok:
  "group_steps g g' \<Longrightarrow> flow_ok g \<Longrightarrow> promise_ok g b \<Longrightarrow> flow_ok g' \<and> promise_ok g' b"
  by (induction rule: rtranclp_induct) (auto intro: flow_group promise_group)

lemma group_reach:
  "log_rel w os b rs d \<Longrightarrow> group_steps (group_start w os) g \<Longrightarrow> flow_ok g \<and> promise_ok g b"
  using group_steps_ok flow_start promise_start by blast

text \<open>
  C6. A caller of \<^verbatim>\<open>commit\<close> that gets no error can rely on it: in every interleaving of
  callers, appends, rotations and the flush loop in which no operation on the log has
  failed, every record appended before the call is on stable storage when the answer comes.
\<close>

theorem commit_answers_durable:
  assumes "log_rel w os b rs d" and "group_steps (group_start w os) g" and "clean g" and "answers g x = Some None"
  shows "\<exists>rs' d'. log_rel (glog g) (gos g) b rs' d' \<and> need g x \<le> b + d'"
proof -
  have "promise_ok g b" using group_reach [OF assms(1,2)] by simp
  then obtain rs' d' n where "log_written (glog g) (gos g) b rs' d' n" "covered g b (length rs') d' n"
    using assms(3) by (auto simp: promise_ok_def)
  then show ?thesis using log_written_rel assms(4) unfolding covered_def by blast
qed

text \<open>
  C21. Nobody waits in vain: in every reachable state each caller is either queued, in the
  batch being served, or answered, exactly one of them, and the loop runs as long as anybody
  is not answered; left to itself it stops after finitely many steps, and then everybody who
  ever called has been answered, whatever the disk did.
\<close>

theorem commit_serves_everyone:
  assumes "log_rel w os b rs d" and "group_steps (group_start w os) g"
  shows "((\<exists>x \<in> entered g. answers g x = None) \<longrightarrow> (\<exists>g'. loop_step g g')) \<and>
    (\<exists>g'. loop_steps g g' \<and> pc g' = Stopped \<and> entered g' = entered g \<and> (\<forall>x \<in> entered g. answers g' x \<noteq> None))"
proof -
  have flow: "flow_ok g" using group_reach [OF assms] by simp
  then have "pc g \<noteq> Stopped" if "x \<in> entered g" "answers g x = None" for x using that by (auto simp: flow_ok_def)
  then have 1: "(\<exists>x \<in> entered g. answers g x = None) \<longrightarrow> (\<exists>g'. loop_step g g')" using loop_progress [OF flow] by blast
  obtain g' where g': "loop_steps g g'" "pc g' = Stopped" using loop_finishes [OF flow] by blast
  have e: "entered g' = entered g" using loop_entered [OF g'(1)] .
  have "flow_ok g'" using flow_steps [OF loop_steps_group [OF g'(1)] flow] .
  then have "\<forall>x \<in> entered g. answers g' x \<noteq> None" using g'(2) e by (auto simp: flow_ok_def)
  then show ?thesis using 1 g' e by blast
qed

section \<open>A run, and a flush that failed\<close>

text \<open>One record is appended, one caller comes, the loop serves it and stops.\<close>

lemma demo_group:
  "\<exists>g. group_steps (group_start (demo_wal ''d'' []) (demo_os ''d'' [])) g \<and> clean g \<and> answers g 7 = Some None \<and>
     need g 7 = 2 \<and> entered g = {7} \<and> glog g = demo_wal ''d'' [[5]] \<and> gos g = demo_os ''d'' [[5]]"
proof -
  let ?w = "(demo_wal ''d'' [])\<lparr>buf := frame [5], activeSize := int (length (frames [[5]])), nextLSN := 2\<rparr>"
  let ?os = "demo_os ''d'' []"
  let ?g = "group_start (demo_wal ''d'' []) ?os"
  have app: "wal_Append (demo_wal ''d'' []) ?os [5] = (Inr 1, ?w, ?os)"
    using demo_append [where p = "[5]" and ps = "[]" and dir = "''d''"]
    by (simp add: payload_ok_def MaxRecordSize_def DefaultMaxSegmentSize_def headerSize_def)
  have "wal_Sync ?w ?os = (None, demo_wal ''d'' [[5]], demo_os ''d'' [[5]])"
    using demo_sync [where p = "[5]" and ps = "[]" and dir = "''d''"] by simp
  then obtain w1 os1 where sy: "Sync_write ?w ?os = (None, w1, os1)"
    "Sync_flush w1 os1 = (None, demo_wal ''d'' [[5]], demo_os ''d'' [[5]])"
    by (auto simp: wal_Sync_def split: prod.splits option.splits)
  define g1 where "g1 = ?g\<lparr>glog := ?w\<rparr>"
  define g2 where "g2 = g1\<lparr>com := \<lparr>waiters = [7], crunning = True\<rparr>, pc := Head, entered := {7}, need := (\<lambda>_. 0)(7 := 2)\<rparr>"
  define g3 where "g3 = g2\<lparr>com := \<lparr>waiters = [], crunning = True\<rparr>, pc := Writing [7]\<rparr>"
  define g4 where "g4 = g3\<lparr>pc := Flushing [7], glog := w1, gos := os1\<rparr>"
  define g5 where "g5 = g4\<lparr>pc := Replying [7] None, glog := demo_wal ''d'' [[5]], gos := demo_os ''d'' [[5]]\<rparr>"
  define g6 where "g6 = g5\<lparr>pc := Head, answers := [7 \<mapsto> None]\<rparr>"
  note gs = g6_def g5_def g4_def g3_def g2_def g1_def
  have "group_step ?g g1"
    using group_step.append_ok [of ?g "[5]" 1 ?w ?os] app by (simp add: group_start_def g1_def)
  moreover have "group_step g1 g2"
    using group_step.enter [of 7 g1 "\<lparr>waiters = [7], crunning = True\<rparr>" True]
    by (simp add: g1_def g2_def group_start_def commit_enter_eq newCommitter_def)
  moreover have "group_step g2 g3"
    using loop_step.take_some [of g2 "\<lparr>waiters = [], crunning = True\<rparr>" 7 "[]"] group_step.loop
    by (simp add: g2_def g3_def take_batch_eq)
  moreover have "group_step g3 g4"
    using loop_step.write_ok [of g3 "[7]" w1 os1] sy(1) group_step.loop
    by (simp add: g4_def g3_def g2_def g1_def group_start_def)
  moreover have "group_step g4 g5"
    using loop_step.flush_ok [of g4 "[7]"] sy(2) group_step.loop by (simp add: g5_def g4_def)
  moreover have "group_step g5 g6"
    using loop_step.reply [of g5 7 "[]" None] group_step.loop
    by (simp add: g6_def g5_def g4_def g3_def g2_def g1_def group_start_def)
  ultimately have "group_steps ?g g6" by (meson converse_rtranclp_into_rtranclp rtranclp.rtrancl_refl)
  then show ?thesis by (intro exI [of _ g6]) (simp add: gs group_start_def)
qed

theorem commit_answers_durable_witness:
  "\<exists>g :: group. answers g 7 = Some None \<and> (\<exists>rs d. log_rel (glog g) (gos g) 1 rs d \<and> 2 \<le> 1 + d)"
proof -
  obtain g where g: "group_steps (group_start (demo_wal ''d'' []) (demo_os ''d'' [])) g" "clean g" "answers g 7 = Some None" "need g 7 = 2"
    using demo_group by blast
  have rel: "log_rel (demo_wal ''d'' []) (demo_os ''d'' []) 1 [] 0" using demo_rel [of "[]" "''d''"] by simp
  obtain rs d where "log_rel (glog g) (gos g) 1 rs d" "need g 7 \<le> 1 + d"
    using commit_answers_durable [OF rel g(1-3)] by blast
  with g(3,4) show ?thesis by (intro exI [of _ g] conjI exI [of _ rs] exI [of _ d]) simp_all
qed

theorem commit_serves_everyone_witness:
  "\<exists>g g' :: group. entered g = {7} \<and> loop_steps g g' \<and> pc g' = Stopped \<and> answers g' 7 \<noteq> None"
proof -
  obtain g where g: "group_steps (group_start (demo_wal ''d'' []) (demo_os ''d'' [])) g" "entered g = {7}"
    using demo_group by blast
  have rel: "log_rel (demo_wal ''d'' []) (demo_os ''d'' []) 1 [] 0" using demo_rel [of "[]" "''d''"] by simp
  from commit_serves_everyone [OF rel g(1)] g(2) show ?thesis by blast
qed

lemma torn_then_whole:
  "scanRecords (take 3 (frame p) @ frame [5] @ frame [6]) False scan_count () 0 0 = (0, 0, None, ())"
  if "length p = 1" for p :: bytes
proof -
  have f: "\<exists>xs. frame q = [1, 0, 0, 0] @ xs" if "length q = 1" for q
  proof -
    have "le_bytes 4 1 = [1, 0, 0, 0 :: byte]" by code_simp
    then show ?thesis using that unfolding frame_def Let_def by simp
  qed
  let ?r = "take 3 (frame p) @ frame [5] @ frame [6]"
  have "length [5 :: byte] = 1" by simp
  with f that obtain xs ys where xs: "frame p = [1, 0, 0, 0] @ xs" "frame [5] = [1, 0, 0, 0] @ ys" by meson
  have r: "?r = [1, 0, 0, 1, 0, 0, 0] @ (ys @ frame [6])" by (simp add: xs numeral_3_eq_3)
  have "length ?r = 21" using that by (simp add: headerSize_def)
  then have len: "\<not> length ?r < headerSize" by (simp only: headerSize_def)
  have val: "le_val (take 4 ?r) = 16777217"
  proof -
    have "take 4 ?r = [1, 0, 0, 1]" unfolding r by simp
    moreover have "le_val [1, 0, 0, 1 :: byte] = 16777217" by simp
    ultimately show ?thesis by simp
  qed
  have ok: "\<not> (16777217 = (0 :: nat) \<or> MaxRecordSize < 16777217)" unfolding MaxRecordSize_def by simp
  have "length (drop headerSize ?r) = 13" using that by (simp add: headerSize_def)
  then have short: "length (drop headerSize ?r) < 16777217" by simp
  show ?thesis
    by (subst scanRecords.simps) (simp only: len val ok short Let_def if_True if_False)
qed


end
