(* ===== verification/Cv_Dispatch.thy ===== *)
theory Cv_Dispatch
  imports Cv_Store_Facts
begin

text \<open>
  The dispatcher (\<^verbatim>\<open>dispatcher.go\<close>): it hands ready jobs to the connected workers that have
  room, one job per worker and pass, and takes expired leases back.  A worker's stream is
  an object on a heap of its own, named by its id; its channel is a list of at most
  \<^verbatim>\<open>maxInFlight\<close> jobs.
\<close>

section \<open>State\<close>

definition DefaultDispatchTick :: duration where "DefaultDispatchTick = 200 * Millisecond"

record workerStream =
  wsQueue :: string
  wsWorker :: string
  wsMax :: int
  wsDur :: duration
  wsDone :: bool
  wsCh :: "job list"
  wsInFlight :: int

record dispatcher =
  dTick :: duration
  dHeap :: "nat \<rightharpoonup> workerStream"
  dStreams :: "nat set"
  jobOwner :: "string \<rightharpoonup> nat"
  dNextID :: nat
  dWake :: bool

definition NewDispatcher :: dispatcher where
  "NewDispatcher =
     \<lparr>dTick = DefaultDispatchTick, dHeap = Map.empty, dStreams = {}, jobOwner = Map.empty, dNextID = 0, dWake = False\<rparr>"

definition d_signal :: "dispatcher \<Rightarrow> dispatcher" where "d_signal d = d\<lparr>dWake := True\<rparr>"

text \<open>\<^verbatim>\<open>register\<close> returns the new stream, here its id.\<close>

definition register :: "string \<Rightarrow> string \<Rightarrow> int \<Rightarrow> duration \<Rightarrow> dispatcher \<Rightarrow> nat \<times> dispatcher" where
  "register queue worker maxInFlight dur d =
     (let i = dNextID d + 1;
          st = \<lparr>wsQueue = queue, wsWorker = worker, wsMax = maxInFlight, wsDur = dur, wsDone = False, wsCh = [], wsInFlight = 0\<rparr>
      in (i, d_signal (d\<lparr>dNextID := i, dHeap := (dHeap d)(i \<mapsto> st), dStreams := insert i (dStreams d)\<rparr>)))"

definition unregister :: "nat \<Rightarrow> dispatcher \<Rightarrow> dispatcher" where
  "unregister i d =
     d\<lparr>dStreams := dStreams d - {i}, jobOwner := (\<lambda>x. if jobOwner d x = Some i then None else jobOwner d x)\<rparr>"

definition release :: "string \<Rightarrow> dispatcher \<Rightarrow> dispatcher" where
  "release x d =
     d_signal
       (case jobOwner d x of
          None \<Rightarrow> d
        | Some i \<Rightarrow>
            (let d1 = d\<lparr>jobOwner := (jobOwner d)(x := None)\<rparr>
             in case dHeap d i of
                  None \<Rightarrow> d1
                | Some st \<Rightarrow>
                    if wsInFlight st > 0 then d1\<lparr>dHeap := (dHeap d)(i \<mapsto> st\<lparr>wsInFlight := wsInFlight st - 1\<rparr>)\<rparr> else d1))"

text \<open>
  How long the loop sleeps: the tick, or less when a delayed job comes due before.  The
  clock is read only when there is such a deadline.
\<close>

definition sleepFor :: "duration \<Rightarrow> gotime option \<Rightarrow> gotime \<Rightarrow> duration" where
  "sleepFor tick deadline now =
     (let wait = tick;
          wait1 = (case deadline of
                     None \<Rightarrow> wait
                   | Some t \<Rightarrow> if t - now > 0 \<and> t - now < wait then t - now else wait)
      in if wait1 < Millisecond then Millisecond else wait1)"

section \<open>Dispatching\<close>

text \<open>
  What a pass works on: the store, the disk, the dispatcher, how often the clock was read,
  and whether a lease failed.  \<open>wStuck\<close>: the loop hangs on a full channel.
\<close>

record world =
  wStore :: store
  wOs :: os
  wDisp :: dispatcher
  wReads :: nat
  wErr :: bool
  wStuck :: bool

text \<open>
  One stream in one pass; the result tells whether a job was placed.  \<open>gone\<close> tells, by the
  number of the request, whether the hand-over saw that the worker hung up meanwhile: then the
  lease is left to expire.
\<close>

definition dispatch_visit :: "(nat \<Rightarrow> gotime) \<Rightarrow> (nat \<Rightarrow> bool) \<Rightarrow> nat \<Rightarrow> world \<Rightarrow> bool \<times> world" where
  "dispatch_visit clock gone i w =
     (case dHeap (wDisp w) i of
        None \<Rightarrow> (False, w)
      | Some st \<Rightarrow>
          if wStuck w \<or> wsDone st then (False, w)
          else if \<not> wsInFlight st < wsMax st then (False, w)
          else (case Lease (wsQueue st) (wsWorker st) (wsDur st) (clock (wReads w)) (wStore w) (wOs w) of
                  (Inl e, s, os) \<Rightarrow> (False, w\<lparr>wStore := s, wOs := os, wReads := wReads w + 1, wErr := True\<rparr>)
                | (Inr None, s, os) \<Rightarrow> (False, w\<lparr>wStore := s, wOs := os, wReads := wReads w + 1\<rparr>)
                | (Inr (Some j), s, os) \<Rightarrow>
                    (let st1 = st\<lparr>wsInFlight := wsInFlight st + 1\<rparr>;
                         d = (wDisp w)\<lparr>dHeap := (dHeap (wDisp w))(i \<mapsto> st1), jobOwner := (jobOwner (wDisp w))(ID j \<mapsto> i)\<rparr>;
                         w1 = w\<lparr>wStore := s, wOs := os, wReads := wReads w + 1, wDisp := d\<rparr>
                     in if gone (wReads w)
                        then (False, w1\<lparr>wDisp := d\<lparr>dHeap := (dHeap d)(i \<mapsto> st1\<lparr>wsDone := True\<rparr>)\<rparr>\<rparr>)
                        else if int (length (wsCh st)) < wsMax st
                        then (True, w1\<lparr>wDisp := d\<lparr>dHeap := (dHeap d)(i \<mapsto> st1\<lparr>wsCh := wsCh st @ [j]\<rparr>)\<rparr>\<rparr>)
                        else (False, w1\<lparr>wStuck := True\<rparr>))))"

fun dispatch_pass :: "(nat \<Rightarrow> gotime) \<Rightarrow> (nat \<Rightarrow> bool) \<Rightarrow> nat list \<Rightarrow> world \<Rightarrow> bool \<times> world" where
  "dispatch_pass clock gone [] w = (False, w)"
| "dispatch_pass clock gone (i # is) w =
     (let (p, w1) = dispatch_visit clock gone i w; (q, w2) = dispatch_pass clock gone is w1 in (p \<or> q, w2))"

text \<open>The room the streams have, which every placed job takes one of.\<close>

definition room_of :: "dispatcher \<Rightarrow> nat \<Rightarrow> nat" where
  "room_of d i = (case dHeap d i of None \<Rightarrow> 0 | Some st \<Rightarrow> nat (wsMax st - wsInFlight st))"

definition rooms :: "nat list \<Rightarrow> dispatcher \<Rightarrow> nat" where
  "rooms is d = sum (room_of d) (set is)"

lemma visit_room:
  assumes "dispatch_visit clock gone i w = (p, w')"
  shows "room_of (wDisp w') x \<le> room_of (wDisp w) x" and "p \<Longrightarrow> room_of (wDisp w') i < room_of (wDisp w) i"
  using assms
  by (auto simp: dispatch_visit_def room_of_def Let_def split: option.splits if_splits prod.splits sum.splits)

lemma pass_room:
  "dispatch_pass clock gone js w = (p, w') \<Longrightarrow> set js \<subseteq> set is \<Longrightarrow>
     rooms is (wDisp w') \<le> rooms is (wDisp w) \<and> (p \<longrightarrow> rooms is (wDisp w') < rooms is (wDisp w))"
proof (induction clock gone js w arbitrary: p w' rule: dispatch_pass.induct)
  case (2 clock gone i js w)
  obtain p1 w1 where v: "dispatch_visit clock gone i w = (p1, w1)" by (rule prod.exhaust)
  obtain p2 w2 where t: "dispatch_pass clock gone js w1 = (p2, w2)" by (rule prod.exhaust)
  have r: "p = (p1 \<or> p2)" "w' = w2" using "2.prems"(1) v t by auto
  have ih: "rooms is (wDisp w2) \<le> rooms is (wDisp w1) \<and> (p2 \<longrightarrow> rooms is (wDisp w2) < rooms is (wDisp w1))"
    using "2.IH" [OF v [symmetric] refl t] "2.prems"(2) by simp
  have "rooms is (wDisp w1) \<le> rooms is (wDisp w)"
    unfolding rooms_def by (rule sum_mono) (rule visit_room(1) [OF v])
  moreover have "rooms is (wDisp w1) < rooms is (wDisp w)" if p1
  proof -
    have "i \<in> set is" using "2.prems"(2) by simp
    then show ?thesis unfolding rooms_def
      by (intro sum_strict_mono_ex1) (use visit_room [OF v] that in auto)
  qed
  ultimately show ?case using ih r by auto
qed simp

text \<open>\<^verbatim>\<open>dispatch\<close>: passes until one places nothing.  \<open>is\<close> lists the registered streams in the order visited.\<close>

function dispatch :: "(nat \<Rightarrow> gotime) \<Rightarrow> (nat \<Rightarrow> bool) \<Rightarrow> nat list \<Rightarrow> world \<Rightarrow> world" where
  "dispatch clock gone is w =
     (case dispatch_pass clock gone is w of
        (False, w1) \<Rightarrow> w1
      | (True, w1) \<Rightarrow> if wStuck w1 then w1 else dispatch clock gone is w1)"
  by pat_completeness auto
termination
  by (relation "measure (\<lambda>(clock, gone, is, w). rooms is (wDisp w))") (auto dest!: pass_room [OF sym])

declare dispatch.simps [simp del]

text \<open>
  One turn of \<^verbatim>\<open>Run\<close>: expired leases back, jobs out, and how long to wait for a signal.
  \<open>ids\<close>, \<open>is\<close> and \<open>names\<close> list the leased jobs, the streams and the queues in the order the
  runtime visits them.
\<close>

definition reclaimExpired ::
  "(string \<Rightarrow> nat) \<Rightarrow> gotime \<Rightarrow> string list \<Rightarrow> store \<Rightarrow> os \<Rightarrow> dispatcher \<Rightarrow> store \<times> os \<times> dispatcher"
where
  "reclaimExpired draw now ids s os d =
     (case ReclaimExpired draw now ids s os of ((acc, err), s', os') \<Rightarrow> (s', os', fold release acc d))"

definition Run_turn ::
  "(string \<Rightarrow> nat) \<Rightarrow> gotime \<Rightarrow> string list \<Rightarrow> (nat \<Rightarrow> gotime) \<Rightarrow> (nat \<Rightarrow> bool) \<Rightarrow> nat list \<Rightarrow> string list \<Rightarrow> gotime \<Rightarrow>
     store \<Rightarrow> os \<Rightarrow> dispatcher \<Rightarrow> duration \<times> world"
where
  "Run_turn draw now ids clock gone is names later s os d =
     (case reclaimExpired draw now ids s os d of
        (s1, os1, d1) \<Rightarrow>
          (let w = dispatch clock gone is
                     \<lparr>wStore = s1, wOs = os1, wDisp = d1, wReads = 0, wErr = False, wStuck = False\<rparr>
           in (sleepFor (dTick (wDisp w)) (NextDelayedDeadline names (wStore w)) later, w)))"

section \<open>Worker slots\<close>

text \<open>
  The accounting: every owned job is leased, a registered stream counts exactly the jobs it
  owns, and no stream exceeds its worker's limit.
\<close>

definition owned :: "dispatcher \<Rightarrow> nat \<Rightarrow> string set" where
  "owned d i = {x. jobOwner d x = Some i}"

definition stream_ok :: "dispatcher \<Rightarrow> nat \<Rightarrow> workerStream \<Rightarrow> bool" where
  "stream_ok d i st \<longleftrightarrow>
     i \<le> dNextID d \<and> int (card (owned d i)) \<le> wsInFlight st \<and> wsInFlight st \<le> max 0 (wsMax st) \<and>
     (i \<in> dStreams d \<longrightarrow> wsInFlight st = int (card (owned d i)))"

definition slots_ok :: "store \<Rightarrow> dispatcher \<Rightarrow> bool" where
  "slots_ok s d \<longleftrightarrow>
     finite (dom (jobOwner d)) \<and> dStreams d \<subseteq> dom (dHeap d) \<and> ran (jobOwner d) \<subseteq> dom (dHeap d) \<and>
     (\<forall>x \<in> dom (jobOwner d). \<exists>k. jobs s x = Some k \<and> State k = StateLeased) \<and>
     (\<forall>i st. dHeap d i = Some st \<longrightarrow> stream_ok d i st)"

lemma finite_owned: "finite (dom (jobOwner d)) \<Longrightarrow> finite (owned d i)"
  by (rule finite_subset [of _ "dom (jobOwner d)"]) (auto simp: owned_def)

lemma NewDispatcher_slots: "slots_ok s NewDispatcher"
  by (simp add: slots_ok_def NewDispatcher_def)

lemma slots_stream: "slots_ok s d \<Longrightarrow> dHeap d i = Some st \<Longrightarrow> stream_ok d i st"
  by (simp add: slots_ok_def)

lemma stream_ok_nonneg: "stream_ok d i st \<Longrightarrow> 0 \<le> wsInFlight st"
  by (simp add: stream_ok_def)

lemma slots_owner:
  assumes "slots_ok s d" and "jobOwner d x = Some i"
  obtains st where "dHeap d i = Some st" "stream_ok d i st"
proof -
  have "i \<in> dom (dHeap d)" using assms by (auto simp: slots_ok_def ran_def)
  then show thesis using that slots_stream [OF assms(1)] by blast
qed

text \<open>Only the owned jobs matter in the store.\<close>

lemma slots_ok_store:
  assumes "slots_ok s d"
    and "\<And>x k. x \<in> dom (jobOwner d) \<Longrightarrow> jobs s x = Some k \<Longrightarrow> State k = StateLeased \<Longrightarrow> \<exists>l. jobs s' x = Some l \<and> State l = StateLeased"
  shows "slots_ok s' d"
  using assms unfolding slots_ok_def by blast

lemma slots_ok_signal [simp]: "slots_ok s (d_signal d) = slots_ok s d"
  by (simp add: slots_ok_def d_signal_def stream_ok_def owned_def)

lemma register_slots:
  assumes "register q w m dur d = (i, d')" and ok: "slots_ok s d"
  shows "slots_ok s d'"
proof -
  have new: "dHeap d (dNextID d + 1) = None"
    using slots_stream [OF ok, of "dNextID d + 1"] by (cases "dHeap d (dNextID d + 1)") (auto simp: stream_ok_def)
  then have none: "owned d (dNextID d + 1) = {}" using ok by (fastforce simp: slots_ok_def owned_def ran_def)
  let ?d = "d\<lparr>dNextID := i, dHeap := (dHeap d)(i \<mapsto> \<lparr>wsQueue = q, wsWorker = w, wsMax = m, wsDur = dur, wsDone = False, wsCh = [], wsInFlight = 0\<rparr>),
      dStreams := insert i (dStreams d)\<rparr>"
  have i: "i = dNextID d + 1" "d' = d_signal ?d" using assms(1) by (auto simp: register_def Let_def)
  have "stream_ok ?d k st" if "dHeap ?d k = Some st" for k st
  proof (cases "k = i")
    case True
    then show ?thesis using that none i(1) by (auto simp: stream_ok_def owned_def)
  next
    case False
    then have "stream_ok d k st" using that slots_stream [OF ok] by simp
    then show ?thesis using False by (simp add: stream_ok_def owned_def i(1))
  qed
  moreover have "ran (jobOwner ?d) \<subseteq> dom (dHeap ?d)" "dStreams ?d \<subseteq> dom (dHeap ?d)" "finite (dom (jobOwner ?d))"
    "\<forall>x \<in> dom (jobOwner ?d). \<exists>k. jobs s x = Some k \<and> State k = StateLeased"
    using ok by (auto simp: slots_ok_def)
  ultimately have "slots_ok s ?d" unfolding slots_ok_def by blast
  then show ?thesis by (simp add: i(2))
qed

lemma unregister_slots:
  assumes ok: "slots_ok s d"
  shows "slots_ok s (unregister i d)"
proof -
  let ?d = "unregister i d"
  have o: "owned ?d k = (if k = i then {} else owned d k)" for k by (auto simp: unregister_def owned_def)
  have sub: "dom (jobOwner ?d) \<subseteq> dom (jobOwner d)" "ran (jobOwner ?d) \<subseteq> ran (jobOwner d)"
    by (auto simp: unregister_def ran_def split: if_splits)
  have "stream_ok ?d k st" if "dHeap ?d k = Some st" for k st
    using slots_stream [OF ok, of k st] stream_ok_nonneg [of d k st] that o [of k]
    by (auto simp: stream_ok_def unregister_def split: if_splits)
  moreover have "finite (dom (jobOwner ?d))" using sub(1) ok finite_subset by (auto simp: slots_ok_def)
  moreover have "dStreams ?d \<subseteq> dom (dHeap ?d)" "ran (jobOwner ?d) \<subseteq> dom (dHeap ?d)"
    using ok sub(2) by (auto simp: slots_ok_def unregister_def)
  ultimately show ?thesis using sub(1) ok unfolding slots_ok_def by blast
qed

text \<open>Releasing a job, before or after it stops being leased.\<close>

lemma release_frame:
  "jobOwner (release x d) = (jobOwner d)(x := None)" "dStreams (release x d) = dStreams d" "dNextID (release x d) = dNextID d"
  by (auto simp: release_def d_signal_def Let_def split: option.split)

lemma release_heap:
  assumes ok: "slots_ok s d"
  shows "dHeap (release x d) = (case jobOwner d x of None \<Rightarrow> dHeap d
    | Some i \<Rightarrow> (dHeap d)(i \<mapsto> (the (dHeap d i))\<lparr>wsInFlight := wsInFlight (the (dHeap d i)) - 1\<rparr>))"
proof (cases "jobOwner d x")
  case None
  then show ?thesis by (simp add: release_def d_signal_def)
next
  case (Some i)
  then obtain st where st: "dHeap d i = Some st" "stream_ok d i st" by (rule slots_owner [OF ok])
  have "finite (owned d i)" using ok finite_owned by (simp add: slots_ok_def)
  then have "0 < card (owned d i)" using Some by (subst card_gt_0_iff) (auto simp: owned_def)
  then have "0 < wsInFlight st" using st(2) by (auto simp: stream_ok_def)
  then show ?thesis using Some st(1) by (simp add: release_def d_signal_def Let_def)
qed

lemma release_slots:
  assumes ok: "slots_ok s d"
  shows "slots_ok s (release x d)"
proof (cases "jobOwner d x")
  case None
  then have "release x d = d_signal d" by (simp add: release_def)
  then show ?thesis using ok by simp
next
  case (Some i)
  let ?d = "release x d"
  have fin: "finite (dom (jobOwner d))" using ok by (simp add: slots_ok_def)
  have heap: "dHeap ?d = (dHeap d)(i \<mapsto> (the (dHeap d i))\<lparr>wsInFlight := wsInFlight (the (dHeap d i)) - 1\<rparr>)"
    using release_heap [OF ok] Some by simp
  have o: "owned ?d k = (if k = i then owned d i - {x} else owned d k)" for k
    using Some by (auto simp: release_frame owned_def)
  have x: "x \<in> owned d i" using Some by (simp add: owned_def)
  obtain st where st: "dHeap d i = Some st" "stream_ok d i st" using slots_owner [OF ok Some] .
  have c: "int (card (owned d i - {x})) = int (card (owned d i)) - 1" 
    using card_Suc_Diff1 [OF finite_owned [OF fin] x] by simp
  have "stream_ok ?d k st'" if "dHeap ?d k = Some st'" for k st'
  proof (cases "k = i")
    case True
    then have "st' = st\<lparr>wsInFlight := wsInFlight st - 1\<rparr>" using that heap st(1) by simp
    then show ?thesis using True st(2) c o [of i] by (auto simp: stream_ok_def release_frame)
  next
    case False
    then have "stream_ok d k st'" using that heap slots_stream [OF ok] by simp
    then show ?thesis using False o [of k] by (simp add: stream_ok_def release_frame)
  qed
  moreover have dom: "dom (dHeap d) \<subseteq> dom (dHeap ?d)" by (auto simp: heap)
  moreover have "dStreams ?d \<subseteq> dom (dHeap ?d)" 
    by (rule order_trans [OF _ dom]) (use ok in \<open>simp add: slots_ok_def release_frame\<close>)
  moreover have "finite (dom (jobOwner ?d))" using fin by (simp add: release_frame)
  moreover have "\<forall>y \<in> dom (jobOwner ?d). \<exists>k. jobs s y = Some k \<and> State k = StateLeased"
    using ok by (auto simp: slots_ok_def release_frame)
  moreover have "ran (jobOwner ?d) \<subseteq> dom (dHeap ?d)"
  proof -
    have "ran (jobOwner ?d) \<subseteq> ran (jobOwner d)" by (auto simp: release_frame ran_def)
    also have "\<dots> \<subseteq> dom (dHeap d)" using ok by (simp add: slots_ok_def)
    finally show ?thesis using dom by (rule order_trans)
  qed
  ultimately show ?thesis unfolding slots_ok_def by blast
qed

lemma release_all_slots: "slots_ok s d \<Longrightarrow> slots_ok s (fold release xs d)"
  by (induction xs arbitrary: d) (simp_all add: release_slots)

lemma release_all_owner: "jobOwner (fold release xs d) = (\<lambda>x. if x \<in> set xs then None else jobOwner d x)"
  by (induction xs arbitrary: d) (auto simp: release_frame)

text \<open>Jobs that stop being leased while they are released.\<close>

lemma release_all_gone:
  assumes ok: "slots_ok s d" and "\<And>x. x \<notin> set xs \<Longrightarrow> jobs s' x = jobs s x"
  shows "slots_ok s' (fold release xs d)"
  using release_all_slots [OF ok] by (rule slots_ok_store) (auto simp: release_all_owner assms(2) split: if_splits)

section \<open>A pass keeps the accounting\<close>

text \<open>The counters have room for \<open>n\<close> more leases.\<close>

definition lasting :: "nat \<Rightarrow> store \<Rightarrow> bool" where
  "lasting n s \<longleftrightarrow>
     unat (nextEpoch s) + n + unat (epochBlockSize s) < 2 ^ 64 \<and>
     (\<forall>i j. jobs s i = Some j \<longrightarrow> int64_ok (Attempt j + 1) \<and> (Leasable (State j) \<longrightarrow> int64_ok (Attempt j + 2)))"

lemma lasting_range: "lasting n s \<Longrightarrow> in_range s"
  by (auto simp: lasting_def in_range_def)

lemma lasting_mono: "lasting n s \<Longrightarrow> m \<le> n \<Longrightarrow> lasting m s"
  by (simp add: lasting_def)

lemma apply_lease_fields:
  "State (apply_lease (lease_event j e w t) j) = StateLeased" "Attempt (apply_lease (lease_event j e w t) j) = Attempt j + 1"
  by (simp_all add: apply_lease_def lease_event_def)

lemma Lease_lasting:
  assumes ok: "store_ok s" and l: "lasting (Suc n) s" and lease: "Lease q w dur now s os = (res, s', os')"
  shows "store_ok s' \<and> lasting n s'"
proof -
  have e: "unat (nextEpoch s) + Suc n + unat (epochBlockSize s) < 2 ^ 64"
    and a: "\<And>i j. jobs s i = Some j \<Longrightarrow> int64_ok (Attempt j + 1) \<and> (Leasable (State j) \<longrightarrow> int64_ok (Attempt j + 2))"
    using l by (auto simp: lasting_def)
  have "lasting n s'"
    using ok lasting_range [OF l] lease
  proof (cases rule: Lease_cases)
    case (empty q')
    then show ?thesis using l by (simp add: lasting_def)
  next
    case (refused x)
    then show ?thesis using e a by (simp add: lasting_def)
  next
    case (leased q' cand idx j s1 os1 u lw n')
    let ?l = "apply_lease (lease_event j (nextEpoch s) w (now + dur)) j"
    have "unat (nextEpoch s + 1) = unat (nextEpoch s) + 1"
      using e by (simp add: unat_word_ariths)
    moreover have "int64_ok (Attempt j + 2)" using a [OF leased(4)] leased(5) by blast
    then have "int64_ok (Attempt ?l + 1) \<and> \<not> Leasable (State ?l)" by (simp add: apply_lease_fields Leasable_def add.commute)
    ultimately show ?thesis using e a leased(12) by (simp add: lasting_def)
  qed
  with Lease_ok [OF ok lasting_range [OF l] lease] show ?thesis by simp
qed

text \<open>What one visit can do.\<close>

lemma visit_cases:
  assumes "dispatch_visit clock gone i w = (p, w')"
  obtains (skipped) "p = False" "w' = w"
      "wStuck w \<or> (case dHeap (wDisp w) i of None \<Rightarrow> True | Some st \<Rightarrow> wsDone st \<or> wsMax st \<le> wsInFlight st)"
  | (refused) st x s' os' where "dHeap (wDisp w) i = Some st" "p = False"
      "Lease (wsQueue st) (wsWorker st) (wsDur st) (clock (wReads w)) (wStore w) (wOs w) = (Inl x, s', os')"
      "w' = w\<lparr>wStore := s', wOs := os', wReads := wReads w + 1, wErr := True\<rparr>"
  | (none) st s' os' where "dHeap (wDisp w) i = Some st" "p = False"
      "Lease (wsQueue st) (wsWorker st) (wsDur st) (clock (wReads w)) (wStore w) (wOs w) = (Inr None, s', os')"
      "w' = w\<lparr>wStore := s', wOs := os', wReads := wReads w + 1\<rparr>"
  | (granted) st st' j s' os' where "dHeap (wDisp w) i = Some st" "\<not> wStuck w" "\<not> wsDone st" "wsInFlight st < wsMax st"
      "Lease (wsQueue st) (wsWorker st) (wsDur st) (clock (wReads w)) (wStore w) (wOs w) = (Inr (Some j), s', os')"
      "p = (\<not> gone (wReads w) \<and> int (length (wsCh st)) < wsMax st)" "wsCh st' = (if p then wsCh st @ [j] else wsCh st)"
      "wsInFlight st' = wsInFlight st + 1" "wsMax st' = wsMax st" "wsQueue st' = wsQueue st" "wsDone st' = gone (wReads w)"
      "w' = w\<lparr>wStore := s', wOs := os', wReads := wReads w + 1, wStuck := \<not> p \<and> \<not> gone (wReads w),
         wDisp := (wDisp w)\<lparr>dHeap := (dHeap (wDisp w))(i \<mapsto> st'), jobOwner := (jobOwner (wDisp w))(ID j \<mapsto> i)\<rparr>\<rparr>"
proof (cases "dHeap (wDisp w) i")
  case None
  then show thesis using assms skipped by (simp add: dispatch_visit_def)
next
  case (Some st)
  show thesis
  proof (cases "wStuck w \<or> wsDone st \<or> \<not> wsInFlight st < wsMax st")
    case True
    then have "dispatch_visit clock gone i w = (False, w)"
      using Some by (cases "wStuck w \<or> wsDone st") (simp_all add: dispatch_visit_def)
    then have "p = False" "w' = w" using assms by simp_all
    then show thesis using True Some skipped by auto
  next
    case False
    obtain r s' os' where l: "Lease (wsQueue st) (wsWorker st) (wsDur st) (clock (wReads w)) (wStore w) (wOs w) = (r, s', os')"
      by (rule prod_cases3)
    show thesis
    proof (cases r)
      case (Inl x)
      then show thesis using assms False Some l refused [OF Some] by (simp add: dispatch_visit_def)
    next
      case (Inr o1)
      show thesis
      proof (cases o1)
        case None
        then show thesis using assms False Some l Inr none [OF Some] by (simp add: dispatch_visit_def)
      next
        case j: (Some j)
        let ?st = "if gone (wReads w) then st\<lparr>wsInFlight := wsInFlight st + 1, wsDone := True\<rparr>
          else if int (length (wsCh st)) < wsMax st then st\<lparr>wsInFlight := wsInFlight st + 1, wsCh := wsCh st @ [j]\<rparr>
          else st\<lparr>wsInFlight := wsInFlight st + 1\<rparr>"
        show thesis
          by (rule granted [OF Some _ _ _ l [unfolded Inr j], where st' = ?st])
            (use assms False Some l Inr j in \<open>auto simp: dispatch_visit_def Let_def split: if_splits\<close>)
      qed
    qed
  qed
qed

text \<open>
  The channels: no job is in one twice, and all are owned by its stream.  Then a channel
  holds no more jobs than the stream counts, so there is space for the next one.
\<close>

definition channels_ok :: "dispatcher \<Rightarrow> bool" where
  "channels_ok d \<longleftrightarrow>
     (\<forall>i st. dHeap d i = Some st \<longrightarrow> distinct (map ID (wsCh st)) \<and> (\<forall>j \<in> set (wsCh st). jobOwner d (ID j) = Some i))"

lemma channels_room:
  assumes "channels_ok d" and ok: "slots_ok s d" and st: "dHeap d i = Some st"
  shows "int (length (wsCh st)) \<le> wsInFlight st"
proof -
  have c: "distinct (map ID (wsCh st))" "ID ` set (wsCh st) \<subseteq> owned d i"
    using assms(1) st by (auto simp: channels_ok_def owned_def)
  have "length (wsCh st) = card (ID ` set (wsCh st))"
    using distinct_card [OF c(1)] by simp
  also have "\<dots> \<le> card (owned d i)"
    using ok c(2) by (intro card_mono finite_owned) (auto simp: slots_ok_def)
  finally show ?thesis using slots_stream [OF ok st] by (simp add: stream_ok_def)
qed

lemma grant_channels:
  assumes c: "channels_ok d" and st: "dHeap d i = Some st" and new: "jobOwner d (ID j) = None"
    and ch: "wsCh st1 = wsCh st \<or> wsCh st1 = wsCh st @ [j]"
  shows "channels_ok (d\<lparr>dHeap := (dHeap d)(i \<mapsto> st1), jobOwner := (jobOwner d)(ID j \<mapsto> i)\<rparr>)"
    (is "channels_ok ?d")
proof -
  have own: "\<forall>l \<in> set (wsCh st'). jobOwner d (ID l) = Some k \<and> ID l \<noteq> ID j" if "dHeap d k = Some st'" for k st'
    using c that new unfolding channels_ok_def by (metis option.distinct(1))
  have "distinct (map ID (wsCh st')) \<and> (\<forall>l \<in> set (wsCh st'). jobOwner ?d (ID l) = Some k)" if h: "dHeap ?d k = Some st'" for k st'
  proof (cases "k = i")
    case True
    then have "st' = st1" using h by simp
    moreover have "distinct (map ID (wsCh st))" using c st by (simp add: channels_ok_def)
    moreover have "ID j \<notin> ID ` set (wsCh st)" using own [OF st] by fastforce
    ultimately show ?thesis using own [OF st] True ch by (elim disjE) simp_all
  next
    case False
    then have "dHeap d k = Some st'" using h by simp
    then show ?thesis using own [of k st'] c by (auto simp: channels_ok_def)
  qed
  then show ?thesis unfolding channels_ok_def by blast
qed

lemma grant_slots:
  assumes ok: "slots_ok s d" and st: "dHeap d i = Some st" "wsInFlight st < wsMax st" and new: "jobOwner d x = None"
    and l: "jobs s' = (jobs s)(x \<mapsto> l)" "State l = StateLeased" and st1: "wsInFlight st1 = wsInFlight st + 1" "wsMax st1 = wsMax st"
  shows "slots_ok s' (d\<lparr>dHeap := (dHeap d)(i \<mapsto> st1), jobOwner := (jobOwner d)(x \<mapsto> i)\<rparr>)"
    (is "slots_ok s' ?d")
proof -
  have fin: "finite (dom (jobOwner d))" using ok by (simp add: slots_ok_def)
  have o: "owned ?d k = (if k = i then insert x (owned d i) else owned d k)" for k
    using new by (auto simp: owned_def)
  have c: "card (insert x (owned d i)) = card (owned d i) + 1"
    using finite_owned [OF fin] new by (simp add: owned_def)
  have "stream_ok ?d k st'" if "dHeap ?d k = Some st'" for k st'
  proof (cases "k = i")
    case True
    then have "st' = st1" using that by simp
    then show ?thesis using True slots_stream [OF ok st(1)] st(2) st1 c o [of i] by (auto simp: stream_ok_def)
  next
    case False
    then have "stream_ok d k st'" using that slots_stream [OF ok] by simp
    then show ?thesis using False o [of k] by (simp add: stream_ok_def)
  qed
  moreover have "finite (dom (jobOwner ?d))" using fin by simp
  moreover have dom: "dom (dHeap ?d) = dom (dHeap d)" using st(1) by auto
  moreover have "dStreams ?d \<subseteq> dom (dHeap ?d)" unfolding dom using ok by (simp add: slots_ok_def)
  moreover have "ran (jobOwner ?d) \<subseteq> dom (dHeap ?d)"
    unfolding dom using ok st(1) new by (auto simp: slots_ok_def)
  moreover have "\<forall>y \<in> dom (jobOwner ?d). \<exists>k. jobs s' y = Some k \<and> State k = StateLeased"
    using ok l by (auto simp: slots_ok_def)
  ultimately show ?thesis unfolding slots_ok_def by blast
qed

text \<open>What a pass works on.\<close>

definition world_ok :: "nat \<Rightarrow> world \<Rightarrow> bool" where
  "world_ok n w \<longleftrightarrow> store_ok (wStore w) \<and> lasting n (wStore w) \<and> slots_ok (wStore w) (wDisp w)"

lemma visit_slots:
  assumes ok: "store_ok (wStore w)" and range: "in_range (wStore w)" and so: "slots_ok (wStore w) (wDisp w)"
    and v: "dispatch_visit clock gone i w = (p, w')"
  shows "slots_ok (wStore w') (wDisp w')"
    and "channels_ok (wDisp w) \<Longrightarrow> \<not> wStuck w \<Longrightarrow> channels_ok (wDisp w') \<and> \<not> wStuck w'"
proof -
  have "slots_ok (wStore w') (wDisp w') \<and> (channels_ok (wDisp w) \<and> \<not> wStuck w \<longrightarrow> channels_ok (wDisp w') \<and> \<not> wStuck w')"
    using v
  proof (cases rule: visit_cases)
    case (refused st x s' os')
    have "jobs s' = jobs (wStore w)" using ok range refused(3) by (cases rule: Lease_cases) simp_all
    then have "slots_ok s' (wDisp w)" using so by (simp add: slots_ok_def)
    then show ?thesis using refused(4) by simp
  next
    case (none st s' os')
    have "jobs s' = jobs (wStore w)" using ok range none(3) by (cases rule: Lease_cases) simp_all
    then have "slots_ok s' (wDisp w)" using so by (simp add: slots_ok_def)
    then show ?thesis using none(4) by simp
  next
    case (granted st st' j s' os')
    obtain k where k: "jobs (wStore w) (ID k) = Some k" "Leasable (State k)" "ID j = ID k" "jobs s' = (jobs (wStore w))(ID k \<mapsto> j)"
      "State j = StateLeased"
      by (rule Lease_Some [OF ok range granted(5)]) (use apply_lease_fields in blast)
    have new: "jobOwner (wDisp w) (ID j) = None"
    proof (rule ccontr)
      assume "jobOwner (wDisp w) (ID j) \<noteq> None"
      then have "ID j \<in> dom (jobOwner (wDisp w))" by blast
      moreover have "\<forall>x \<in> dom (jobOwner (wDisp w)). \<exists>k. jobs (wStore w) x = Some k \<and> State k = StateLeased"
        using so by (simp add: slots_ok_def)
      ultimately obtain k' where "jobs (wStore w) (ID j) = Some k'" "State k' = StateLeased" by blast
      then have "State k = StateLeased" using k(1,3) by simp
      then show False using k(2) by (simp add: Leasable_def)
    qed
    have "slots_ok s' (wDisp w')"
      using grant_slots [OF so granted(1,4) new _ k(5) granted(8,9)] k(3,4) granted(12) by simp
    moreover have "channels_ok (wDisp w') \<and> \<not> wStuck w'" if c: "channels_ok (wDisp w)"
    proof
      have "p \<or> gone (wReads w)" using channels_room [OF c so granted(1)] granted(4,6) by simp
      then show "\<not> wStuck w'" using granted(12) by simp
      have "wsCh st' = wsCh st \<or> wsCh st' = wsCh st @ [j]" using granted(7) by simp
      then show "channels_ok (wDisp w')" using grant_channels [OF c granted(1) new] granted(12) by simp
    qed
    ultimately show ?thesis using granted(12) by simp
  qed (use so in simp)
  then show "slots_ok (wStore w') (wDisp w')"
    "channels_ok (wDisp w) \<Longrightarrow> \<not> wStuck w \<Longrightarrow> channels_ok (wDisp w') \<and> \<not> wStuck w'" by simp_all
qed

text \<open>
  What every visit keeps, paying one unit of a budget, a pass and the whole loop keep: a
  pass costs one unit per stream, and there are at most as many passes as there is room.
\<close>

lemma pass_rule:
  assumes visit: "\<And>n i w p w'. P (Suc n) w \<Longrightarrow> dispatch_visit clock gone i w = (p, w') \<Longrightarrow> P n w' \<and> R w w'"
    and refl: "\<And>w. R w w" and trans: "\<And>u v w. R u v \<Longrightarrow> R v w \<Longrightarrow> R u w"
  shows "dispatch_pass clock gone js w = (p, w') \<Longrightarrow> P (n + length js) w \<Longrightarrow> P n w' \<and> R w w'"
proof (induction js arbitrary: w p w')
  case Nil
  then show ?case using refl by simp
next
  case (Cons i js)
  obtain p1 w1 where v: "dispatch_visit clock gone i w = (p1, w1)" by (rule prod.exhaust)
  obtain p2 w2 where t: "dispatch_pass clock gone js w1 = (p2, w2)" by (rule prod.exhaust)
  have r: "w' = w2" using Cons.prems(1) v t by auto
  have "P (Suc (n + length js)) w" using Cons.prems(2) by simp
  note 1 = visit [OF this v]
  then have "P n w2 \<and> R w1 w2" using Cons.IH [OF t] by simp
  then show ?case using 1 r trans [of w w1 w2] by simp
qed

lemma dispatch_rule:
  assumes visit: "\<And>n i w p w'. P (Suc n) w \<Longrightarrow> dispatch_visit clock gone i w = (p, w') \<Longrightarrow> P n w' \<and> R w w'"
    and refl: "\<And>w. R w w" and trans: "\<And>u v w. R u v \<Longrightarrow> R v w \<Longrightarrow> R u w"
    and mono: "\<And>m n w. P n w \<Longrightarrow> m \<le> n \<Longrightarrow> P m w"
  shows "P (n + (rooms is (wDisp w) + 1) * length is) w \<Longrightarrow> P n (dispatch clock gone is w) \<and> R w (dispatch clock gone is w)"
proof (induction "rooms is (wDisp w)" arbitrary: w rule: less_induct)
  case less
  obtain p w1 where t: "dispatch_pass clock gone is w = (p, w1)" by (rule prod.exhaust)
  let ?m = "n + rooms is (wDisp w) * length is"
  have "n + (rooms is (wDisp w) + 1) * length is = ?m + length is" by (simp add: algebra_simps)
  with less.prems have "P (?m + length is) w" by (simp only:)
  with _ _ _ t have w1: "P ?m w1 \<and> R w w1"
    by (rule pass_rule [where P = P and R = R]) (fact visit refl | rule trans; assumption)+
  show ?case
  proof (cases "p \<and> \<not> wStuck w1")
    case False
    then have "dispatch clock gone is w = w1" using t by (simp add: dispatch.simps split: bool.split)
    then show ?thesis using w1 mono [of ?m w1 n] by simp
  next
    case True
    then have d: "dispatch clock gone is w = dispatch clock gone is w1" using t by (simp add: dispatch.simps)
    have lt: "rooms is (wDisp w1) < rooms is (wDisp w)" using pass_room [OF t subset_refl] True by simp
    then have "n + (rooms is (wDisp w1) + 1) * length is \<le> ?m" by (intro add_mono mult_right_mono) simp_all
    with w1 mono have "P (n + (rooms is (wDisp w1) + 1) * length is) w1" by blast
    from less.hyps [OF lt this] w1 d trans show ?thesis by metis
  qed
qed

text \<open>The store's part: it sees a sequence of requests.\<close>

definition world_live :: "nat \<Rightarrow> world \<Rightarrow> bool" where
  "world_live n w \<longleftrightarrow> store_ok (wStore w) \<and> lasting n (wStore w)"

definition world_steps :: "world \<Rightarrow> world \<Rightarrow> bool" where
  "world_steps w w' \<longleftrightarrow> store_steps (wStore w, wOs w) (wStore w', wOs w')"

lemma visit_live:
  assumes w: "world_live (Suc n) w" and v: "dispatch_visit clock gone i w = (p, w')"
  shows "world_live n w' \<and> world_steps w w'"
proof -
  have ok: "store_ok (wStore w)" and l: "lasting (Suc n) (wStore w)" using w by (simp_all add: world_live_def)
  have leased: "world_live n w' \<and> world_steps w w'"
    if "Lease q k dur t (wStore w) (wOs w) = (r, wStore w', wOs w')" for q k dur t r
    using Lease_lasting [OF ok l that] store_step.lease [OF that lasting_range [OF l]]
    by (auto simp: world_live_def world_steps_def)
  from v show ?thesis
  proof (cases rule: visit_cases)
    case skipped
    then show ?thesis using ok lasting_mono [OF l] by (simp add: world_live_def world_steps_def)
  next
    case (refused st x s' os')
    show ?thesis by (rule leased) (use refused in simp)
  next
    case (none st s' os')
    show ?thesis by (rule leased) (use none in simp)
  next
    case (granted st st' j s' os')
    show ?thesis by (rule leased) (use granted in simp)
  qed
qed

lemma dispatch_live:
  assumes "world_live (n + (rooms is (wDisp w) + 1) * length is) w"
  shows "world_live n (dispatch clock gone is w) \<and> world_steps w (dispatch clock gone is w)"
  using visit_live _ _ _ assms
  by (rule dispatch_rule [where P = world_live and R = world_steps])
    (auto simp: world_steps_def world_live_def intro: lasting_mono rtranclp_trans)

text \<open>The dispatcher's part.\<close>

definition handoff_ok :: "world \<Rightarrow> bool" where
  "handoff_ok w \<longleftrightarrow> channels_ok (wDisp w) \<and> \<not> wStuck w"

lemma visit_keeps: "world_ok (Suc n) w \<Longrightarrow> dispatch_visit clock gone i w = (p, w') \<Longrightarrow> world_ok n w' \<and> (handoff_ok w \<longrightarrow> handoff_ok w')"
  using visit_live [of n w] visit_slots [of w] lasting_range
  by (auto simp: handoff_ok_def world_ok_def world_live_def)

lemma pass_ok:
  "dispatch_pass clock gone js w = (p, w') \<Longrightarrow> world_ok (n + length js) w \<Longrightarrow> world_ok n w' \<and> (handoff_ok w \<longrightarrow> handoff_ok w')"
  using visit_keeps by (rule pass_rule [where P = world_ok and R = "\<lambda>w w'. handoff_ok w \<longrightarrow> handoff_ok w'"]) auto

lemma dispatch_ok:
  assumes "world_ok (n + (rooms is (wDisp w) + 1) * length is) w"
  shows "world_ok n (dispatch clock gone is w) \<and> (handoff_ok w \<longrightarrow> handoff_ok (dispatch clock gone is w))"
  using visit_keeps _ _ _ assms
  by (rule dispatch_rule [where P = world_ok and R = "\<lambda>w w'. handoff_ok w \<longrightarrow> handoff_ok w'"])
    (auto simp: world_ok_def intro: lasting_mono)

section \<open>Nothing eligible is left behind\<close>

text \<open>A stream that could not be given a job, judged by a reading of the clock not before the \<open>n\<close>-th.\<close>

definition idle :: "(nat \<Rightarrow> gotime) \<Rightarrow> nat \<Rightarrow> world \<Rightarrow> nat \<Rightarrow> bool" where
  "idle clock n w i \<longleftrightarrow>
     (case dHeap (wDisp w) i of
        None \<Rightarrow> True
      | Some st \<Rightarrow> wsDone st \<or> wsMax st \<le> wsInFlight st \<or>
          (\<exists>m\<ge>n. m < wReads w \<and>
             (\<forall>x k. jobs (wStore w) x = Some k \<and> Queue k = wsQueue st \<and> Leasable (State k) \<longrightarrow> clock m < EligibleAt k)))"

text \<open>Later visits keep a stream idle: slots only fill, and leases only take jobs away.\<close>

lemma visit_keeps_idle:
  assumes w: "world_ok (Suc n) w" and v: "dispatch_visit clock gone k w = (p, w')" and idle: "idle clock m w i"
  shows "idle clock m w' i"
proof -
  have ok: "store_ok (wStore w)" and r: "in_range (wStore w)" using w lasting_range by (auto simp: world_ok_def)
  from v show ?thesis
  proof (cases rule: visit_cases)
    case skipped
    then show ?thesis using idle by simp
  next
    case (refused st x s' os')
    have "jobs s' = jobs (wStore w)" using ok r refused(3) by (cases rule: Lease_cases) simp_all
    then show ?thesis using refused(4) idle by (fastforce simp: idle_def split: option.splits)
  next
    case (none st s' os')
    have "jobs s' = jobs (wStore w)" using ok r none(3) by (cases rule: Lease_cases) simp_all
    then show ?thesis using none(4) idle by (fastforce simp: idle_def split: option.splits)
  next
    case (granted st st' j s' os')
    obtain l where l: "jobs (wStore w) (ID l) = Some l" "jobs s' = (jobs (wStore w))(ID l \<mapsto> j)" "State j = StateLeased"
      by (rule Lease_Some [OF ok r granted(5)]) (use apply_lease_fields in blast)
    have less: "jobs (wStore w) x = Some y" if "jobs (wStore w') x = Some y" "Leasable (State y)" for x y
      using that l(2,3) granted(12) by (auto simp: Leasable_def split: if_splits)
    show ?thesis
    proof (cases "dHeap (wDisp w) i")
      case None
      then show ?thesis using granted(1,12) by (auto simp: idle_def)
    next
      case (Some si)
      obtain si' where si': "dHeap (wDisp w') i = Some si'" "wsMax si' = wsMax si" "wsInFlight si \<le> wsInFlight si'"
        "wsQueue si' = wsQueue si" "wsDone si \<Longrightarrow> wsDone si'"
      proof (cases "i = k")
        case True
        then have "si = st" using Some granted(1) by simp
        then show thesis using that [of st'] True granted(3,8-10,12) by simp
      next
        case False
        then show thesis using that [of si] Some granted(12) by simp
      qed
      have "wReads w < wReads w'" using granted(12) by simp
      then show ?thesis using idle Some si' less by (auto simp: idle_def) (meson less_trans)
    qed
  qed
qed

lemma visit_err: "dispatch_visit clock gone i w = (p, w') \<Longrightarrow> wErr w \<Longrightarrow> wErr w'"
  by (erule visit_cases) simp_all

lemma visit_reads: "dispatch_visit clock gone i w = (p, w') \<Longrightarrow> wReads w \<le> wReads w'"
  by (erule visit_cases) simp_all

lemma visit_stuck: "dispatch_visit clock gone i w = (p, w') \<Longrightarrow> wStuck w \<Longrightarrow> wStuck w'"
  by (erule visit_cases) auto

lemma visit_idle:
  assumes w: "world_ok (Suc n) w" and v: "dispatch_visit clock gone i w = (False, w')" and "\<not> wStuck w'" and "\<not> wErr w'"
  shows "idle clock (wReads w) w' i"
proof -
  have ok: "store_ok (wStore w)" and r: "in_range (wStore w)" using w lasting_range by (auto simp: world_ok_def)
  from v show ?thesis
  proof (cases rule: visit_cases)
    case skipped
    then show ?thesis using assms(3) by (auto simp: idle_def split: option.splits)
  next
    case (none st s' os')
    have "jobs s' = jobs (wStore w) \<and>
        (\<forall>x k. jobs (wStore w) x = Some k \<and> Queue k = wsQueue st \<and> Leasable (State k) \<longrightarrow> clock (wReads w) < EligibleAt k)"
      using ok r none(3) by (cases rule: Lease_cases) auto
    then show ?thesis using none(1,4) by (auto simp: idle_def)
  next
    case (granted st st' j s' os')
    then have "wsDone st'" using assms(3) by simp
    then show ?thesis using granted(12) by (simp add: idle_def)
  qed (use assms(4) in simp)
qed

lemma pass_sticky:
  "dispatch_pass clock gone js w = (p, w') \<Longrightarrow> (wErr w \<longrightarrow> wErr w') \<and> (wStuck w \<longrightarrow> wStuck w') \<and> wReads w \<le> wReads w'"
proof (induction clock gone js w arbitrary: p w' rule: dispatch_pass.induct)
  case (2 clock gone i js w)
  obtain p1 w1 where v: "dispatch_visit clock gone i w = (p1, w1)" by (rule prod.exhaust)
  obtain p2 w2 where t: "dispatch_pass clock gone js w1 = (p2, w2)" by (rule prod.exhaust)
  have "w' = w2" using "2.prems"(1) v t by auto
  then show ?case
    using "2.IH" [OF v [symmetric] refl t] visit_err [OF v] visit_stuck [OF v] visit_reads [OF v] by auto
qed simp

lemma pass_keeps_idle:
  "dispatch_pass clock gone js w = (p, w') \<Longrightarrow> world_ok (length js) w \<Longrightarrow> idle clock m w i \<Longrightarrow> idle clock m w' i"
proof (induction clock gone js w arbitrary: p w' rule: dispatch_pass.induct)
  case (2 clock gone k js w)
  obtain p1 w1 where v: "dispatch_visit clock gone k w = (p1, w1)" by (rule prod.exhaust)
  obtain p2 w2 where t: "dispatch_pass clock gone js w1 = (p2, w2)" by (rule prod.exhaust)
  have w: "world_ok (Suc (length js)) w" and "w' = w2" using "2.prems" v t by auto
  then show ?case
    using "2.IH" [OF v [symmetric] refl t] visit_keeps [OF w v] visit_keeps_idle [OF w v "2.prems"(3)] by simp
qed simp

lemma idle_earlier: "idle clock n w i \<Longrightarrow> m \<le> n \<Longrightarrow> idle clock m w i"
  by (auto simp: idle_def split: option.splits) (meson le_trans)

lemma pass_idle:
  "dispatch_pass clock gone js w = (False, w') \<Longrightarrow> world_ok (length js) w \<Longrightarrow> \<not> wStuck w' \<Longrightarrow> \<not> wErr w' \<Longrightarrow>
     \<forall>i \<in> set js. idle clock (wReads w) w' i"
proof (induction clock gone js w arbitrary: w' rule: dispatch_pass.induct)
  case (2 clock gone i js w)
  obtain p1 w1 where v: "dispatch_visit clock gone i w = (p1, w1)" by (rule prod.exhaust)
  obtain p2 w2 where t: "dispatch_pass clock gone js w1 = (p2, w2)" by (rule prod.exhaust)
  have r: "w' = w2" "\<not> p1" "\<not> p2" using "2.prems"(1) v t by auto
  have t': "dispatch_pass clock gone js w1 = (False, w2)" and v': "dispatch_visit clock gone i w = (False, w1)" using t v r by simp_all
  have w: "world_ok (Suc (length js)) w" using "2.prems"(2) by simp
  have w1: "world_ok (length js) w1" using visit_keeps [OF w v] by simp
  have ne: "\<not> wStuck w1" "\<not> wErr w1" using pass_sticky [OF t] "2.prems"(3,4) r(1) by auto
  have "idle clock (wReads w) w2 i" by (rule pass_keeps_idle [OF t w1 visit_idle [OF w v' ne]])
  moreover have "\<forall>i \<in> set js. idle clock (wReads w1) w2 i"
    by (rule "2.IH" [OF v [symmetric] refl t' w1]) (use "2.prems"(3,4) r(1) in simp_all)
  ultimately show ?case using r(1) idle_earlier visit_reads [OF v] by auto
qed simp

lemma dispatch_idle:
  "world_ok ((rooms is (wDisp w) + 1) * length is) w \<Longrightarrow> \<not> wStuck (dispatch clock gone is w) \<Longrightarrow> \<not> wErr (dispatch clock gone is w) \<Longrightarrow>
     \<forall>i \<in> set is. idle clock (wReads w) (dispatch clock gone is w) i"
proof (induction clock gone "is" w rule: dispatch.induct)
  case (1 clock gone "is" w)
  obtain p w1 where t: "dispatch_pass clock gone is w = (p, w1)" by (rule prod.exhaust)
  have w: "world_ok (rooms is (wDisp w) * length is + length is) w" using "1.prems"(1) by (simp add: algebra_simps)
  note w1 = pass_ok [OF t w]
  show ?case
  proof (cases "p \<and> \<not> wStuck w1")
    case False
    then have d: "dispatch clock gone is w = w1" using t by (simp add: dispatch.simps split: bool.split)
    then have "\<not> wStuck w1" "\<not> wErr w1" using "1.prems" by simp_all
    moreover from this False have "dispatch_pass clock gone is w = (False, w1)" using t by simp
    moreover have "world_ok (length is) w" using w lasting_mono [of _ _ "length is"] by (auto simp: world_ok_def)
    ultimately show ?thesis using pass_idle d by simp
  next
    case True
    then have d: "dispatch clock gone is w = dispatch clock gone is w1" using t by (simp add: dispatch.simps)
    have "rooms is (wDisp w1) + 1 \<le> rooms is (wDisp w)" using pass_room [OF t subset_refl] True by simp
    then have "(rooms is (wDisp w1) + 1) * length is \<le> rooms is (wDisp w) * length is" by (rule mult_right_mono) simp
    then have "world_ok ((rooms is (wDisp w1) + 1) * length is) w1"
      using w1 lasting_mono by (auto simp: world_ok_def)
    then have "\<forall>i \<in> set is. idle clock (wReads w1) (dispatch clock gone is w1) i"
      using "1.IH" [OF t [symmetric]] True "1.prems"(2,3) d by simp
    then show ?thesis using pass_sticky [OF t] idle_earlier unfolding d by blast
  qed
qed

end
