(* ===== verification/Cv_Server.thy ===== *)
theory Cv_Server
  imports Cv_Dispatch
begin

text \<open>
  The RPC surface (\<^verbatim>\<open>server.go\<close>): messages to calls of the store and the dispatcher, and
  results to messages.  The fields of the messages are those of \<^verbatim>\<open>queue.proto\<close>; enumerations
  travel as 32-bit integers, so any integer may arrive.  Each handler takes the store, the
  disk and the dispatcher and returns them changed.
\<close>

section \<open>Messages\<close>

record SubmitRequest =
  sqQueue :: string
  sqPayload :: bytes
  sqHandler :: string
  sqIdempotencyKey :: string
  sqPriority :: int
  sqMaxRetries :: int
  sqDelayMs :: int

record SubmitResponse =
  srJobId :: string
  srDeduplicated :: bool

record LeaseRequest =
  lqQueue :: string
  lqWorkerId :: string
  lqMaxInFlight :: int
  lqLeaseDurationMs :: int

record LeaseResponse =
  lrJobId :: string
  lrEpoch :: u64
  lrQueue :: string
  lrIdempotencyKey :: string
  lrHandler :: string
  lrPayload :: bytes
  lrAttempt :: int
  lrLeaseExpiresAtUnixMs :: int

record NackResponse =
  nrAccepted :: bool
  nrDeadLettered :: bool

record HeartbeatResponse =
  hrAccepted :: bool
  hrNewLeaseExpiresAtUnixMs :: int

record JobProto =
  jpId :: string
  jpQueue :: string
  jpHandler :: string
  jpPayload :: bytes
  jpIdempotencyKey :: string
  jpPriority :: int
  jpMaxRetries :: int
  jpAttempt :: int
  jpState :: int
  jpEpoch :: u64
  jpEnqueuedAtUnixMs :: int
  jpEligibleAtUnixMs :: int
  jpLeaseExpiresAtUnixMs :: int
  jpLeasedBy :: string
  jpLastError :: string

text \<open>The status codes in use.  \<open>CodePanic\<close>: the handler panics instead of answering.\<close>

datatype rpc_code = CodeInvalidArgument | CodeNotFound | CodeFailedPrecondition | CodeInternal | CodePanic

type_synonym 'a rpc = "(rpc_code \<times> store_error) + 'a"

section \<open>Conversions\<close>

definition PRIORITY_UNSPECIFIED :: int where "PRIORITY_UNSPECIFIED = 0"
definition PRIORITY_LOW :: int where "PRIORITY_LOW = 1"
definition PRIORITY_NORMAL :: int where "PRIORITY_NORMAL = 2"
definition PRIORITY_HIGH :: int where "PRIORITY_HIGH = 3"

lemmas PRIORITY_defs = PRIORITY_UNSPECIFIED_def PRIORITY_LOW_def PRIORITY_NORMAL_def PRIORITY_HIGH_def

definition priorityFromProto :: "int \<Rightarrow> priority" where
  "priorityFromProto p =
     (if p = PRIORITY_LOW then PriorityLow else if p = PRIORITY_HIGH then PriorityHigh else PriorityNormal)"

fun priorityToProto :: "priority \<Rightarrow> int" where
  "priorityToProto PriorityLow = PRIORITY_LOW"
| "priorityToProto PriorityHigh = PRIORITY_HIGH"
| "priorityToProto PriorityNormal = PRIORITY_NORMAL"

definition JOB_STATE_UNSPECIFIED :: int where "JOB_STATE_UNSPECIFIED = 0"
definition JOB_STATE_PENDING :: int where "JOB_STATE_PENDING = 1"
definition JOB_STATE_LEASED :: int where "JOB_STATE_LEASED = 2"
definition JOB_STATE_RETRY_WAIT :: int where "JOB_STATE_RETRY_WAIT = 3"
definition JOB_STATE_DONE :: int where "JOB_STATE_DONE = 4"
definition JOB_STATE_DEAD_LETTER :: int where "JOB_STATE_DEAD_LETTER = 5"

lemmas JOB_STATE_defs =
  JOB_STATE_UNSPECIFIED_def JOB_STATE_PENDING_def JOB_STATE_LEASED_def JOB_STATE_RETRY_WAIT_def
  JOB_STATE_DONE_def JOB_STATE_DEAD_LETTER_def

fun stateToProto :: "job_state \<Rightarrow> int" where
  "stateToProto StatePending = JOB_STATE_PENDING"
| "stateToProto StateLeased = JOB_STATE_LEASED"
| "stateToProto StateRetryWait = JOB_STATE_RETRY_WAIT"
| "stateToProto StateDone = JOB_STATE_DONE"
| "stateToProto StateDeadLetter = JOB_STATE_DEAD_LETTER"
| "stateToProto StateUnspecified = JOB_STATE_UNSPECIFIED"

definition stateFromProto :: "int \<Rightarrow> job_state" where
  "stateFromProto s =
     (if s = JOB_STATE_PENDING then StatePending
      else if s = JOB_STATE_LEASED then StateLeased
      else if s = JOB_STATE_RETRY_WAIT then StateRetryWait
      else if s = JOB_STATE_DONE then StateDone
      else if s = JOB_STATE_DEAD_LETTER then StateDeadLetter
      else StateUnspecified)"

definition DefaultLeaseDuration :: duration where "DefaultLeaseDuration = 30 * Second"
definition MinLeaseDuration :: duration where "MinLeaseDuration = Second"
definition MaxLeaseDuration :: duration where "MaxLeaseDuration = Hour"

definition clampLease :: "duration \<Rightarrow> duration" where
  "clampLease d =
     (if d \<le> 0 then DefaultLeaseDuration
      else if d < MinLeaseDuration then MinLeaseDuration
      else if d > MaxLeaseDuration then MaxLeaseDuration
      else d)"

text \<open>\<open>time.Duration(ms) * time.Millisecond\<close>, which wraps around.\<close>

definition from_ms :: "int \<Rightarrow> duration" where
  "from_ms ms = wrap64 (ms * Millisecond)"

text \<open>\<^verbatim>\<open>Time.UnixMilli\<close>: times count nanoseconds from the year 1, Unix milliseconds from 1970.\<close>

definition UnixMilli :: "gotime \<Rightarrow> int" where
  "UnixMilli t = wrap64 (t div 1000000 - 62135596800000)"

definition jobToProto :: "job option \<Rightarrow> JobProto option" where
  "jobToProto oj =
     (case oj of
        None \<Rightarrow> None
      | Some j \<Rightarrow>
          (let p = \<lparr>jpId = ID j, jpQueue = Queue j, jpHandler = Handler j, jpPayload = Payload j,
                    jpIdempotencyKey = IdempotencyKey j, jpPriority = priorityToProto (Priority j),
                    jpMaxRetries = wrap32 (MaxRetries j), jpAttempt = wrap32 (Attempt j),
                    jpState = stateToProto (State j), jpEpoch = Epoch j,
                    jpEnqueuedAtUnixMs = UnixMilli (EnqueuedAt j), jpEligibleAtUnixMs = UnixMilli (EligibleAt j),
                    jpLeaseExpiresAtUnixMs = 0, jpLeasedBy = LeasedBy j, jpLastError = LastError j\<rparr>
           in Some (if LeaseExpiresAt j \<noteq> 0
                    then p\<lparr>jpLeaseExpiresAtUnixMs := UnixMilli (LeaseExpiresAt j)\<rparr> else p)))"

section \<open>Handlers\<close>

definition submit_params :: "SubmitRequest \<Rightarrow> SubmitParams" where
  "submit_params msg =
     \<lparr>pQueue = sqQueue msg, pHandler = sqHandler msg, pPayload = sqPayload msg,
      pIdempotencyKey = sqIdempotencyKey msg, pPriority = priorityFromProto (sqPriority msg),
      pMaxRetries = sqMaxRetries msg, pDelay = from_ms (sqDelayMs msg)\<rparr>"

text \<open>A submission answered with no job dereferences a nil pointer.\<close>

definition Server_Submit ::
  "SubmitRequest \<Rightarrow> int \<Rightarrow> bytes option \<Rightarrow> gotime \<Rightarrow> store \<Rightarrow> os \<Rightarrow> dispatcher \<Rightarrow>
     SubmitResponse rpc \<times> store \<times> os \<times> dispatcher"
where
  "Server_Submit msg nano rnd now s os d =
     (case Submit (submit_params msg) nano rnd now s os of
        (Inl err, s1, os1) \<Rightarrow>
          (Inl (if err = Panic then CodePanic else if err = ErrQueueRequired then CodeInvalidArgument else CodeInternal, err),
           s1, os1, d)
      | (Inr (None, dedup), s1, os1) \<Rightarrow> (Inl (CodePanic, Panic), s1, os1, d)
      | (Inr (Some j, dedup), s1, os1) \<Rightarrow> (Inr \<lparr>srJobId = ID j, srDeduplicated = dedup\<rparr>, s1, os1, d))"

text \<open>
  \<^verbatim>\<open>Lease\<close> registers a stream, sends what the dispatcher puts into its channel, and
  unregisters the stream when it returns.  It comes in those three parts.
\<close>

definition Server_Lease_open ::
  "LeaseRequest \<Rightarrow> int \<Rightarrow> bytes option \<Rightarrow> dispatcher \<Rightarrow> nat rpc \<times> dispatcher"
where
  "Server_Lease_open msg nano rnd d =
     (if lqQueue msg = [] then (Inl (CodeInvalidArgument, ErrQueueRequired), d)
      else
        case (if lqWorkerId msg = [] then NewID nano rnd else Some (lqWorkerId msg)) of
          None \<Rightarrow> (Inl (CodePanic, Panic), d)
        | Some workerID \<Rightarrow>
            (let maxInFlight = (if lqMaxInFlight msg < 1 then 1 else lqMaxInFlight msg);
                 leaseDur = clampLease (from_ms (lqLeaseDurationMs msg));
                 (i, d') = register (lqQueue msg) workerID maxInFlight leaseDur d
             in (Inr i, d')))"

definition lease_message :: "job \<Rightarrow> LeaseResponse" where
  "lease_message j =
     \<lparr>lrJobId = ID j, lrEpoch = Epoch j, lrQueue = Queue j, lrIdempotencyKey = IdempotencyKey j,
      lrHandler = Handler j, lrPayload = Payload j, lrAttempt = wrap32 (Attempt j),
      lrLeaseExpiresAtUnixMs = UnixMilli (LeaseExpiresAt j)\<rparr>"

definition Server_Lease_recv :: "nat \<Rightarrow> dispatcher \<Rightarrow> LeaseResponse option \<times> dispatcher" where
  "Server_Lease_recv i d =
     (case dHeap d i of
        None \<Rightarrow> (None, d)
      | Some st \<Rightarrow>
          (case wsCh st of
             [] \<Rightarrow> (None, d)
           | j # js \<Rightarrow> (Some (lease_message j), d\<lparr>dHeap := (dHeap d)(i \<mapsto> st\<lparr>wsCh := js\<rparr>)\<rparr>)))"

text \<open>The client goes away, at any time; the handler notices and returns.\<close>

definition disconnect :: "nat \<Rightarrow> dispatcher \<Rightarrow> dispatcher" where
  "disconnect i d =
     (case dHeap d i of None \<Rightarrow> d | Some st \<Rightarrow> d\<lparr>dHeap := (dHeap d)(i \<mapsto> st\<lparr>wsDone := True\<rparr>)\<rparr>)"

definition not_found_or_internal :: "store_error \<Rightarrow> rpc_code" where
  "not_found_or_internal err = (if err = ErrJobNotFound then CodeNotFound else CodeInternal)"

definition Server_Ack :: "string \<Rightarrow> u64 \<Rightarrow> store \<Rightarrow> os \<Rightarrow> dispatcher \<Rightarrow> bool rpc \<times> store \<times> os \<times> dispatcher" where
  "Server_Ack jobId epoch s os d =
     (case Ack jobId epoch s os of
        (Inl err, s1, os1) \<Rightarrow> (Inl (not_found_or_internal err, err), s1, os1, d)
      | (Inr accepted, s1, os1) \<Rightarrow> (Inr accepted, s1, os1, if accepted then release jobId d else d))"

definition Server_Nack ::
  "string \<Rightarrow> u64 \<Rightarrow> string \<Rightarrow> gotime \<Rightarrow> nat \<Rightarrow> store \<Rightarrow> os \<Rightarrow> dispatcher \<Rightarrow>
     NackResponse rpc \<times> store \<times> os \<times> dispatcher"
where
  "Server_Nack jobId epoch reason now r s os d =
     (case Nack jobId epoch reason now r s os of
        (Inl err, s1, os1) \<Rightarrow> (Inl (not_found_or_internal err, err), s1, os1, d)
      | (Inr (accepted, deadLettered), s1, os1) \<Rightarrow>
          (Inr \<lparr>nrAccepted = accepted, nrDeadLettered = deadLettered\<rparr>, s1, os1, if accepted then release jobId d else d))"

definition Server_Heartbeat ::
  "string \<Rightarrow> u64 \<Rightarrow> int \<Rightarrow> gotime \<Rightarrow> store \<Rightarrow> HeartbeatResponse rpc \<times> store"
where
  "Server_Heartbeat jobId epoch leaseDurationMs now s =
     (case Heartbeat jobId epoch (clampLease (from_ms leaseDurationMs)) now s of
        (Inl err, s1) \<Rightarrow> (Inl (not_found_or_internal err, err), s1)
      | (Inr (accepted, expires), s1) \<Rightarrow>
          (Inr \<lparr>hrAccepted = accepted, hrNewLeaseExpiresAtUnixMs = (if accepted then UnixMilli expires else 0)\<rparr>, s1))"

text \<open>The answer's \<^verbatim>\<open>Found\<close> and \<^verbatim>\<open>Job\<close>.\<close>

definition Server_Get :: "string \<Rightarrow> store \<Rightarrow> bool \<times> JobProto option" where
  "Server_Get jobId s = (case Get jobId s of (j, ok) \<Rightarrow> if \<not> ok then (False, None) else (True, jobToProto j))"

definition Server_ListJobs :: "string \<Rightarrow> int \<Rightarrow> int \<Rightarrow> string list \<Rightarrow> store \<Rightarrow> JobProto option list" where
  "Server_ListJobs queue st limit ids s =
     map (\<lambda>j. jobToProto (Some j)) (ListJobs queue (stateFromProto st) limit ids s)"

definition Server_ReplayJob :: "string \<Rightarrow> gotime \<Rightarrow> store \<Rightarrow> os \<Rightarrow> bool rpc \<times> store \<times> os" where
  "Server_ReplayJob jobId now s os =
     (case ReplayJob jobId now s os of
        (Inr (), s1, os1) \<Rightarrow> (Inr True, s1, os1)
      | (Inl err, s1, os1) \<Rightarrow>
          (Inl (if err = ErrJobNotFound then CodeNotFound
                else if err = ErrNotDeadLettered then CodeFailedPrecondition
                else CodeInternal, err), s1, os1))"

record StatsResponse =
  spQueues :: "QueueStats list"
  spTotalJobs :: int
  spLastLsn :: nat

definition Server_Stats :: "string \<Rightarrow> string list \<Rightarrow> store \<Rightarrow> StatsResponse" where
  "Server_Stats queue ids s =
     (let st = Stats queue ids s
      in \<lparr>spQueues = map (\<lambda>q. \<lparr>qsQueue = qsQueue q, qsPending = qsPending q, qsLeased = qsLeased q,
                              qsRetryWait = qsRetryWait q, qsDone = qsDone q, qsDeadLetter = qsDeadLetter q\<rparr>) (stQueues st),
          spTotalJobs = stTotalJobs st, spLastLsn = stLastLSN st\<rparr>)"

end
