(* ===== verification/Cv_Broker.thy ===== *)
theory Cv_Broker
  imports Cv_Server
begin

text \<open>
  The broker as a whole: the server's handlers, the worker streams and the dispatcher's
  loop, interleaved in any order.  To the store every run of them is a run of its own
  requests, and the dispatcher's count of busy worker slots stays exact.  A handler that
  accepts a report gives the slot back in the same step; the store is locked once per
  visit of the dispatcher, not once per pass, so requests may come between two visits.
\<close>

section \<open>Steps\<close>

definition world_of :: "store \<Rightarrow> os \<Rightarrow> dispatcher \<Rightarrow> world" where
  "world_of s os d = \<lparr>wStore = s, wOs = os, wDisp = d, wReads = 0, wErr = False, wStuck = False\<rparr>"

inductive broker_step :: "store \<times> os \<times> dispatcher \<Rightarrow> store \<times> os \<times> dispatcher \<Rightarrow> bool" where
  submit: "Server_Submit msg nano rnd now s os d = (r1, s', os', d') \<Longrightarrow> fresh_id s nano rnd \<Longrightarrow>
    broker_step (s, os, d) (s', os', d')"
| connect: "Server_Lease_open lmsg nano rnd d = (r2, d') \<Longrightarrow> broker_step (s, os, d) (s, os, d')"
| recv: "Server_Lease_recv i d = (m, d') \<Longrightarrow> broker_step (s, os, d) (s, os, d')"
| gone: "broker_step (s, os, d) (s, os, disconnect i d)"
| close: "broker_step (s, os, d) (s, os, unregister i d)"
| ack: "Server_Ack x ep s os d = (r3, s', os', d') \<Longrightarrow> broker_step (s, os, d) (s', os', d')"
| nack: "Server_Nack x ep reason now r s os d = (r4, s', os', d') \<Longrightarrow> broker_step (s, os, d) (s', os', d')"
| heartbeat: "Server_Heartbeat x ep ms now s = (r5, s') \<Longrightarrow> broker_step (s, os, d) (s', os, d)"
| replay: "Server_ReplayJob x now s os = (r6, s', os') \<Longrightarrow> broker_step (s, os, d) (s', os', d)"
| reclaim: "reclaimExpired draw now ids s os d = (s', os', d') \<Longrightarrow> broker_step (s, os, d) (s', os', d')"
| visit: "dispatch_visit clock gone i (world_of s os d) = (p, w') \<Longrightarrow> in_range s \<Longrightarrow>
    broker_step (s, os, d) (wStore w', wOs w', wDisp w')"

abbreviation broker_steps :: "store \<times> os \<times> dispatcher \<Rightarrow> store \<times> os \<times> dispatcher \<Rightarrow> bool" where
  "broker_steps \<equiv> broker_step\<^sup>*\<^sup>*"

section \<open>The store sees its own requests\<close>

lemma ReclaimExpired_steps:
  assumes "ReclaimExpired draw now ids s os = (r, s', os')"
  shows "store_steps (s, os) (s', os')"
proof -
  obtain x acc s1 os1 where lp: "reclaim_loop draw now ids [] s os = (x, acc, s1, os1)" by (rule prod_cases4)
  have 1: "store_step (s, os) (s1, os1)" using lp by (rule store_step.reclaim)
  have "store_steps (s1, os1) (s', os')"
  proof (cases "x = None \<and> acc \<noteq> []")
    case False
    then have "(s', os') = (s1, os1)" using assms lp by (auto simp: ReclaimExpired_def split: option.splits if_splits)
    then show ?thesis by simp
  next
    case True
    obtain c s2 os2 where c: "commitDurable s1 os1 = (c, s2, os2)" by (rule prod_cases3)
    note 2 = store_step.commit [OF c]
    have "(s', os') = (s2, os2) \<or> (s', os') = (s2\<lparr>notifyCh := True\<rparr>, os2)"
      using assms lp True c by (cases c) (auto simp: ReclaimExpired_def signal_def)
    then show ?thesis using 2 rtranclp.rtrancl_into_rtrancl [OF r_into_rtranclp [where r = store_step, OF 2] store_step.notify]
      by auto
  qed
  with 1 show ?thesis by (rule converse_rtranclp_into_rtranclp)
qed

lemma visit_store:
  assumes "dispatch_visit clock gone i w = (p, w')"
  shows "(wStore w', wOs w') = (wStore w, wOs w) \<or>
    (\<exists>q k dur t r. Lease q k dur t (wStore w) (wOs w) = (r, wStore w', wOs w'))"
  using assms by (cases rule: visit_cases) auto

text \<open>What each handler does to the store and the dispatcher.\<close>

lemma Server_Submit_call:
  assumes "Server_Submit msg nano rnd now s os d = (r, s', os', d')"
  obtains q where "Submit (submit_params msg) nano rnd now s os = (q, s', os')" "d' = d"
proof -
  obtain q t ost where q: "Submit (submit_params msg) nano rnd now s os = (q, t, ost)" by (rule prod_cases3)
  have "t = s' \<and> ost = os' \<and> d' = d"
  proof (cases q)
    case (Inl err)
    then show ?thesis using assms q by (simp add: Server_Submit_def)
  next
    case (Inr a)
    obtain j dd where "a = (j, dd)" by (rule prod.exhaust)
    then show ?thesis using assms q Inr by (cases j) (simp_all add: Server_Submit_def)
  qed
  with q that show thesis by blast
qed

lemma Server_Ack_call:
  assumes "Server_Ack x ep s os d = (r, s', os', d')"
  obtains q where "Ack x ep s os = (q, s', os')" "d' = (if q = Inr True then release x d else d)"
proof -
  obtain q t ost where q: "Ack x ep s os = (q, t, ost)" by (rule prod_cases3)
  have "t = s' \<and> ost = os' \<and> d' = (if q = Inr True then release x d else d)"
    using assms q by (cases q) (simp_all add: Server_Ack_def)
  with q that show thesis by blast
qed

lemma Server_Nack_call:
  assumes "Server_Nack x ep reason now r s os d = (res, s', os', d')"
  obtains q where "Nack x ep reason now r s os = (q, s', os')" "d' = (if \<exists>dead. q = Inr (True, dead) then release x d else d)"
proof -
  obtain q t ost where q: "Nack x ep reason now r s os = (q, t, ost)" by (rule prod_cases3)
  have "t = s' \<and> ost = os' \<and> d' = (if \<exists>dead. q = Inr (True, dead) then release x d else d)"
  proof (cases q)
    case (Inl err)
    then show ?thesis using assms q by (simp add: Server_Nack_def)
  next
    case (Inr a)
    obtain acc dead where "a = (acc, dead)" by (rule prod.exhaust)
    then show ?thesis using assms q Inr by (simp add: Server_Nack_def)
  qed
  with q that show thesis by blast
qed

lemma Server_Heartbeat_call:
  assumes "Server_Heartbeat x ep ms now s = (r, s')"
  obtains q where "Heartbeat x ep (clampLease (from_ms ms)) now s = (q, s')"
proof -
  obtain q t where q: "Heartbeat x ep (clampLease (from_ms ms)) now s = (q, t)" by (rule prod.exhaust)
  have "t = s'"
  proof (cases q)
    case (Inl err)
    then show ?thesis using assms q by (simp add: Server_Heartbeat_def)
  next
    case (Inr a)
    obtain acc ex where "a = (acc, ex)" by (rule prod.exhaust)
    then show ?thesis using assms q Inr by (simp add: Server_Heartbeat_def)
  qed
  with q that show thesis by blast
qed

lemma Server_ReplayJob_call:
  assumes "Server_ReplayJob x now s os = (r, s', os')"
  obtains q where "ReplayJob x now s os = (q, s', os')"
proof -
  obtain q t ost where q: "ReplayJob x now s os = (q, t, ost)" by (rule prod_cases3)
  have "t = s' \<and> ost = os'" using assms q by (cases q) (auto simp: Server_ReplayJob_def split: unit.splits)
  with q that show thesis by blast
qed

lemma reclaimExpired_call:
  assumes "reclaimExpired draw now ids s os d = (s', os', d')"
  obtains acc x where "ReclaimExpired draw now ids s os = ((acc, x), s', os')" "d' = fold release acc d"
proof -
  obtain r t ost where r: "ReclaimExpired draw now ids s os = (r, t, ost)" by (rule prod_cases3)
  obtain acc x where "r = (acc, x)" by (rule prod.exhaust)
  then show thesis using assms r that by (simp add: reclaimExpired_def)
qed

lemma broker_step_store:
  assumes "broker_step (s, os, d) (s', os', d')"
  shows "store_steps (s, os) (s', os')"
  using assms
proof cases
  case (submit msg nano rnd now r1)
  then show ?thesis by (elim Server_Submit_call) (rule Submit_steps)
next
  case (ack x ep r3)
  then show ?thesis by (elim Server_Ack_call) (rule Ack_steps)
next
  case (nack x ep reason now r r4)
  then show ?thesis by (elim Server_Nack_call) (rule Nack_steps)
next
  case (heartbeat x ep ms now r5)
  then obtain q where "Heartbeat x ep (clampLease (from_ms ms)) now s = (q, s')" by (elim Server_Heartbeat_call)
  then show ?thesis using store_step.heartbeat heartbeat(1) by blast
next
  case (replay x now r6)
  then show ?thesis by (elim Server_ReplayJob_call) (rule ReplayJob_steps)
next
  case (reclaim draw now ids)
  then show ?thesis by (elim reclaimExpired_call) (rule ReclaimExpired_steps)
next
  case (visit clock i p w')
  from visit_store [OF visit(4)] visit(5) show ?thesis
    unfolding visit(1,2) by (auto simp: world_of_def intro: store_step.lease)
qed simp_all

lemma broker_steps_store: "broker_steps (s, os, d) (s', os', d') \<Longrightarrow> store_steps (s, os) (s', os')"
proof (induction "(s', os', d')" arbitrary: s' os' d' rule: rtranclp_induct)
  case (step y)
  obtain s1 os1 d1 where y: "y = (s1, os1, d1)" by (rule prod_cases3)
  then show ?case using step(3) [OF y] broker_step_store step(2) by (meson rtranclp_trans)
qed simp

section \<open>Slots\<close>

text \<open>How a locked section and its flush end.\<close>

lemma run_commit_result:
  assumes "run_commit (ph, s, os) = (r, s', os')"
  shows "jobs s' = jobs s" and "failed s' = None \<Longrightarrow> ph = Answer r \<or> (\<exists>a. ph = Flush a \<and> r = Inr a)"
proof -
  have "jobs s' = jobs s \<and> (failed s' = None \<longrightarrow> ph = Answer r \<or> (\<exists>a. ph = Flush a \<and> r = Inr a))"
  proof (cases ph)
    case (Answer q)
    then show ?thesis using assms by (simp add: run_commit_def)
  next
    case (Flush a)
    obtain c s1 os1 where c: "commitDurable s os = (c, s1, os1)" by (rule prod_cases3)
    then have "jobs s1 = jobs s" by (elim commitDurable_frame) simp
    moreover have "c \<noteq> None \<Longrightarrow> failed s1 \<noteq> None"
      using c by (auto simp: commitDurable_def Let_def split: prod.splits option.splits)
    ultimately show ?thesis using assms Flush c by (cases c) (auto simp: run_commit_def signal_def)
  qed
  then show "jobs s' = jobs s" "failed s' = None \<Longrightarrow> ph = Answer r \<or> (\<exists>a. ph = Flush a \<and> r = Inr a)" by simp_all
qed

lemma failed_before: "store_steps (s, os) (s', os') \<Longrightarrow> failed s' = None \<Longrightarrow> failed s = None"
  using store_steps_frozen by (cases "failed s") (auto simp: frozen_def)

text \<open>A request that leaves every leased job leased leaves the slots as they are.\<close>

lemma slots_ok_same: "jobs s' = jobs s \<Longrightarrow> slots_ok s d \<Longrightarrow> slots_ok s' d"
  by (simp add: slots_ok_def)

lemma Submit_slots:
  assumes "Submit p nano rnd now s os = (r, s', os')" and fresh: "fresh_id s nano rnd" and ok: "slots_ok s d"
  shows "slots_ok s' d"
proof -
  obtain ph s1 os1 where l: "Submit_locked p nano rnd now s os = (ph, s1, os1)" by (rule prod_cases3)
  have j: "jobs s' = jobs s1" using run_commit_result(1) assms(1) l by (auto simp: Submit_def)
  from l have "jobs s1 = jobs s \<or> (\<exists>i k. jobs s i = None \<and> jobs s1 = (jobs s)(i \<mapsto> k))"
  proof (cases rule: Submit_locked_cases)
    case (accepted i s2)
    obtain t w lsn where t: "store_apply s (zero_event\<lparr>evType := eventSubmit, evJob := Some (submitted_job p i now)\<rparr>) = Inr t"
      "s2 = t\<lparr>log := w, lastLSN := lsn\<rparr>"
      using accepted(4) by (rule recordLocked_done)
    have "jobs s1 = (jobs s)(i \<mapsto> submitted_job p i now)"
      using t accepted(6) by (auto simp: store_apply_def submitted_job_def Let_def split: if_splits)
    then show ?thesis using fresh_idD [OF fresh accepted(2)] by blast
  qed auto
  then show ?thesis
    unfolding j by (intro slots_ok_store [OF ok]) (auto simp: j split: if_splits)
qed

lemma Ack_slots:
  assumes ack: "Ack x ep s os = (q, s', os')" and f: "failed s' = None" and ok: "slots_ok s d"
  shows "slots_ok s' (if q = Inr True then release x d else d)"
proof -
  obtain ph s1 os1 where l: "Ack_locked x ep s os = (ph, s1, os1)" by (rule prod_cases3)
  have rc: "run_commit (ph, s1, os1) = (q, s', os')" using ack l by (simp add: Ack_def)
  note r = run_commit_result [OF rc]
  from l show ?thesis
  proof (cases rule: Ack_locked_cases)
    case (fin j)
    have "q = Inr True" using r(2) [OF f] fin(3) by auto
    moreover have "jobs s' y = jobs s y" if "y \<noteq> x" for y
      using recordLocked_jobs(1) [OF fin(4), of j] fin(1) that r(1) by simp
    ultimately show ?thesis using release_all_gone [OF ok, of "[x]" s'] by simp
  qed (use r f ok slots_ok_same in auto)
qed

lemma Nack_slots:
  assumes nack: "Nack x ep reason now d0 s os = (q, s', os')" and f: "failed s' = None" and ok: "slots_ok s d" and st: "store_ok s"
  shows "slots_ok s' (if \<exists>dead. q = Inr (True, dead) then release x d else d)"
proof -
  obtain ph s1 os1 where l: "Nack_locked x ep reason now d0 s os = (ph, s1, os1)" by (rule prod_cases3)
  have rc: "run_commit (ph, s1, os1) = (q, s', os')" using nack l by (simp add: Nack_def)
  note r = run_commit_result [OF rc]
  from l show ?thesis
  proof (cases rule: Nack_locked_cases)
    case (held j res)
    have id: "ID j = x" "jobs s (ID j) = Some j" using store_ok_ID [OF st held(1)] held(1) by simp_all
    from held(3) id(2) show ?thesis
    proof (cases rule: failLocked_cases)
      case (refused e w)
      then have "q = Inl e" using r(2) [OF f] held(4) by simp
      then show ?thesis using refused r(1) ok slots_ok_same by auto
    next
      case (fin w lsn payload)
      have "\<exists>dead. q = Inr (True, dead)" using r(2) [OF f] held(4) fin(1) by simp
      moreover have "jobs s' y = jobs s y" if "y \<noteq> x" for y using fin(5) id(1) that r(1) by simp
      ultimately show ?thesis using release_all_gone [OF ok, of "[x]" s'] by auto
    qed
  qed (use r f ok slots_ok_same in auto)
qed

lemma Heartbeat_slots: "Heartbeat x ep dur now s = (q, s') \<Longrightarrow> slots_ok s d \<Longrightarrow> slots_ok s' d"
  by (erule slots_ok_store) (auto simp: Heartbeat_def holdsLease_def split: option.splits if_splits)

lemma ReplayJob_slots:
  assumes "ReplayJob x now s os = (q, s', os')" and ok: "slots_ok s d"
  shows "slots_ok s' d"
proof -
  obtain ph s1 os1 where l: "ReplayJob_locked x now s os = (ph, s1, os1)" by (rule prod_cases3)
  have j: "jobs s' = jobs s1" using run_commit_result(1) assms(1) l by (auto simp: ReplayJob_def)
  from l have "jobs s1 = jobs s \<or> (\<exists>k l. jobs s x = Some k \<and> State k = StateDeadLetter \<and> jobs s1 = (jobs s)(x \<mapsto> l))"
  proof (cases rule: ReplayJob_locked_cases)
    case (fin k s2)
    then show ?thesis using recordLocked_jobs(1) [OF fin(4), of k] by auto
  qed auto
  then show ?thesis by (intro slots_ok_store [OF ok]) (auto simp: j)
qed

lemma reclaim_loop_others:
  "store_ok s \<Longrightarrow> reclaim_loop draw now ids acc s os = (r, acc', s', os') \<Longrightarrow>
     set acc \<subseteq> set acc' \<and> (\<forall>x. x \<notin> set acc' \<longrightarrow> jobs s' x = jobs s x)"
proof (induction ids arbitrary: acc s os)
  case (Cons i ids)
  note ok = Cons.prems(1)
  show ?case
  proof (cases "\<exists>j. jobs s i = Some j \<and> State j = StateLeased \<and> LeaseExpiresAt j \<le> now")
    case False
    then have "reclaim_loop draw now ids acc s os = (r, acc', s', os')"
      using Cons.prems(2) by (simp only: reclaim_loop_Cons [OF ok] if_False)
    from Cons.IH [OF ok this] show ?thesis .
  next
    case True
    then obtain j where j: "jobs s i = Some j" "State j = StateLeased" "LeaseExpiresAt j \<le> now" by blast
    have id: "ID j = i" "jobs s (ID j) = Some j" using store_ok_ID [OF ok j(1)] j(1) by simp_all
    obtain q s1 os1 where fl: "failLocked j ''lease expired'' True now (draw i) s os = (q, s1, os1)" by (rule prod_cases3)
    have lp: "(case q of Inl x \<Rightarrow> (Some x, acc, s1, os1) | Inr dead \<Rightarrow> reclaim_loop draw now ids (acc @ [i]) s1 os1) = (r, acc', s', os')"
      using Cons.prems(2) j fl by (cases q) (auto simp: reclaim_loop_Cons [OF ok])
    from fl id(2) show ?thesis
    proof (cases rule: failLocked_cases)
      case (refused x w)
      then show ?thesis using lp by auto
    next
      case (fin w lsn payload)
      have "set (acc @ [i]) \<subseteq> set acc' \<and> (\<forall>x. x \<notin> set acc' \<longrightarrow> jobs s' x = jobs s1 x)"
        by (rule Cons.IH [OF failLocked_ok [OF ok fl id(2)]]) (use lp fin(1) in simp)
      then show ?thesis using fin(5) id(1) by auto
    qed
  qed
qed simp

lemma reclaimExpired_slots:
  assumes "reclaimExpired draw now ids s os d = (s', os', d')" and st: "store_ok s" and ok: "slots_ok s d"
  shows "slots_ok s' d'"
proof -
  obtain acc x where r: "ReclaimExpired draw now ids s os = ((acc, x), s', os')" "d' = fold release acc d"
    using assms(1) by (rule reclaimExpired_call)
  obtain y acc1 s1 os1 where lp: "reclaim_loop draw now ids [] s os = (y, acc1, s1, os1)" by (rule prod_cases4)
  have "acc1 = acc \<and> jobs s' = jobs s1"
    using r(1) lp by (auto simp: ReclaimExpired_def signal_def split: option.splits if_splits prod.splits elim: commitDurable_frame)
  then have "x \<notin> set acc \<Longrightarrow> jobs s' x = jobs s x" for x using reclaim_loop_others [OF st lp] by simp
  then show ?thesis unfolding r(2) by (rule release_all_gone [OF ok])
qed

text \<open>Changes to a stream that leave its count and limit alone.\<close>

lemma touch_slots:
  assumes ok: "slots_ok s d" and "dHeap d i = Some st" "wsInFlight st' = wsInFlight st" "wsMax st' = wsMax st"
  shows "slots_ok s (d\<lparr>dHeap := (dHeap d)(i \<mapsto> st')\<rparr>)"
proof -
  have "stream_ok (d\<lparr>dHeap := (dHeap d)(i \<mapsto> st')\<rparr>) k l" if "((dHeap d)(i \<mapsto> st')) k = Some l" for k l
    using that slots_stream [OF ok, of k] assms(2-4) by (auto simp: stream_ok_def owned_def split: if_splits)
  moreover have "dom ((dHeap d)(i \<mapsto> st')) = dom (dHeap d)" using assms(2) by auto
  ultimately show ?thesis using ok by (simp add: slots_ok_def)
qed

lemma broker_step_slots:
  assumes "broker_step (s, os, d) (s', os', d')" and ok: "slots_ok s d" and st: "store_ok s" and f: "failed s' = None"
  shows "slots_ok s' d'"
  using assms(1)
proof cases
  case (submit msg nano rnd now r1)
  from submit(1) obtain q where "Submit (submit_params msg) nano rnd now s os = (q, s', os')" "d' = d" by (rule Server_Submit_call)
  then show ?thesis using Submit_slots submit(2) ok by blast
next
  case (connect msg nano rnd r2)
  then have "d' = d \<or> (\<exists>q w m dur i. register q w m dur d = (i, d'))"
    by (auto simp: Server_Lease_open_def Let_def split: if_splits option.splits prod.splits)
  then show ?thesis using register_slots ok connect(1) by blast
next
  case (recv i m)
  then show ?thesis using ok touch_slots [OF ok, of i] by (auto simp: Server_Lease_recv_def split: option.splits list.splits)
next
  case (gone i)
  then show ?thesis using ok touch_slots [OF ok, of i] by (auto simp: disconnect_def split: option.splits)
next
  case (close i)
  then show ?thesis using unregister_slots [OF ok] by simp
next
  case (ack x ep r3)
  then obtain q where "Ack x ep s os = (q, s', os')" "d' = (if q = Inr True then release x d else d)" by (rule Server_Ack_call)
  then show ?thesis using Ack_slots f ok by blast
next
  case (nack x ep reason now r r4)
  then obtain q where "Nack x ep reason now r s os = (q, s', os')"
    "d' = (if \<exists>dead. q = Inr (True, dead) then release x d else d)" by (rule Server_Nack_call)
  then show ?thesis using Nack_slots f ok st by blast
next
  case (heartbeat x ep ms now r5)
  then obtain q where "Heartbeat x ep (clampLease (from_ms ms)) now s = (q, s')" by (elim Server_Heartbeat_call)
  then show ?thesis using Heartbeat_slots ok heartbeat(2) by blast
next
  case (replay x now r6)
  then obtain q where "ReplayJob x now s os = (q, s', os')" by (elim Server_ReplayJob_call)
  then show ?thesis using ReplayJob_slots ok replay(1) by blast
next
  case (reclaim draw now ids)
  then show ?thesis using reclaimExpired_slots st ok by blast
next
  case (visit clock i p w')
  then show ?thesis using visit_slots(1) [of "world_of s os d" clock i p w'] st ok by (simp add: world_of_def)
qed

lemma broker_steps_slots:
  "broker_steps (s, os, d) (s', os', d') \<Longrightarrow> live s \<Longrightarrow> slots_ok s d \<Longrightarrow> failed s' = None \<Longrightarrow> slots_ok s' d'"
proof (induction "(s', os', d')" arbitrary: s' os' d' rule: rtranclp_induct)
  case (step y)
  obtain s1 os1 d1 where y: "y = (s1, os1, d1)" by (rule prod_cases3)
  have st: "broker_step (s1, os1, d1) (s', os', d')" using step(2) y by simp
  have f: "failed s1 = None" using failed_before [OF broker_step_store [OF st]] step.prems(3) by simp
  have "live s1" using store_steps_live [OF broker_steps_store [OF step(1) [unfolded y]] step.prems(1)] by simp
  then show ?case
    using broker_step_slots [OF st step(3) [OF y step.prems(1,2) f]] step.prems(3) by (simp add: live_def)
qed simp

end
