(* ===== verification/Cv_Worker.thy ===== *)
theory Cv_Worker
  imports Cv_Broker
begin

text \<open>
  The worker's side: the handlers that run a job (\<^verbatim>\<open>internal/handler\<close>) and the pool that
  leases jobs, keeps their leases alive and reports how they ended (\<^verbatim>\<open>internal/worker\<close>).
  What a shell command or a web server does is an argument, and so is every reply of the
  broker; a context is present through what it lets those do.
\<close>

section \<open>What a handler sees\<close>

record handler_job =
  hjID :: string
  hjQueue :: string
  hjHandler :: string
  hjIdempotencyKey :: string
  hjPayload :: bytes
  hjAttempt :: int

definition DedupKey :: "handler_job \<Rightarrow> string" where
  "DedupKey j = (if hjIdempotencyKey j \<noteq> [] then hjIdempotencyKey j else hjID j)"

text \<open>A handler returns \<^verbatim>\<open>nil\<close>, here \<open>None\<close>, or the text of its error.\<close>

type_synonym handler = "handler_job \<Rightarrow> string option"
type_synonym registry = "string \<rightharpoonup> handler"

definition Registry_Get :: "registry \<Rightarrow> string \<Rightarrow> handler option" where
  "Registry_Get r name = r name"

definition handler_truncate :: "string \<Rightarrow> nat \<Rightarrow> string" where
  "handler_truncate s0 lim =
     (let s = TrimSpace s0
      in if length s \<le> lim then s
         else take lim s @ ''... ('' @ Itoa (int (length s - lim)) @ '' bytes truncated)'')"

section \<open>The shell handler\<close>

definition maxCapturedOutput :: nat where "maxCapturedOutput = 2048"

record Shell =
  shProgram :: string
  shGracefulTimeout :: duration

definition NewShell :: Shell where "NewShell = \<lparr>shProgram = ''sh'', shGracefulTimeout = 5 * Second\<rparr>"

record shell_command =
  scProgram :: string
  scArgs :: "string list"
  scEnv :: "string list"
  scWaitDelay :: duration

definition Shell_command :: "Shell \<Rightarrow> string list \<Rightarrow> handler_job \<Rightarrow> shell_command" where
  "Shell_command h environ j =
     \<lparr>scProgram = (if shProgram h = [] then ''sh'' else shProgram h),
      scArgs = [''-c'', of_bytes (hjPayload j)],
      scEnv = environ @
        [''CONVEYOR_JOB_ID='' @ hjID j, ''CONVEYOR_QUEUE='' @ hjQueue j,
         ''CONVEYOR_ATTEMPT='' @ Itoa (hjAttempt j), ''CONVEYOR_DEDUP_KEY='' @ DedupKey j],
      scWaitDelay = (if shGracefulTimeout h \<le> 0 then 5 * Second else shGracefulTimeout h)\<rparr>"

text \<open>\<open>run\<close>: the output of a command and its error, if any.\<close>

definition Shell_Execute :: "Shell \<Rightarrow> string list \<Rightarrow> (shell_command \<Rightarrow> string \<times> string option) \<Rightarrow> handler" where
  "Shell_Execute h environ run j =
     (case run (Shell_command h environ j) of
        (out, None) \<Rightarrow> None
      | (out, Some err) \<Rightarrow>
          (let captured = handler_truncate out maxCapturedOutput
           in if captured \<noteq> [] then Some (err @ '': '' @ captured) else Some err))"

section \<open>The webhook handler\<close>

definition maxCapturedBody :: nat where "maxCapturedBody = 1024"

record WebhookRequest =
  whURL :: string
  whMethod :: string
  whHeaders :: "(string \<times> string) list"
  whBody :: string

definition zero_webhook :: WebhookRequest where
  "zero_webhook = \<lparr>whURL = '''', whMethod = '''', whHeaders = [], whBody = ''''\<rparr>"

text \<open>
  A map of strings is stored entry by entry into the map already there; \<open>null\<close> is the nil
  map.  A raw message keeps the text of the value, here up to the white space around tokens.
\<close>

fun get_headers :: "(string \<times> json) list \<Rightarrow> (string \<times> string) list \<Rightarrow> (string \<times> string) list option" where
  "get_headers [] m = Some m"
| "get_headers ((k, v) # kvs) m =
     (case (unquote k, get_string v []) of
        (Some key, Some x) \<Rightarrow> get_headers kvs (AList.update key x m)
      | _ \<Rightarrow> None)"

definition webhook_fields :: "string list" where
  "webhook_fields = [''url'', ''method'', ''headers'', ''body'']"

definition set_webhook_field :: "string \<Rightarrow> json \<Rightarrow> WebhookRequest \<Rightarrow> WebhookRequest option" where
  "set_webhook_field n v w =
     (if n = ''url'' then map_option (\<lambda>x. w\<lparr>whURL := x\<rparr>) (get_string v (whURL w))
      else if n = ''method'' then map_option (\<lambda>x. w\<lparr>whMethod := x\<rparr>) (get_string v (whMethod w))
      else if n = ''headers''
      then (case v of
              JNull \<Rightarrow> Some (w\<lparr>whHeaders := []\<rparr>)
            | JObj kvs \<Rightarrow> map_option (\<lambda>m. w\<lparr>whHeaders := m\<rparr>) (get_headers kvs (whHeaders w))
            | _ \<Rightarrow> None)
      else Some (w\<lparr>whBody := render v\<rparr>))"

definition decodeWebhook :: "bytes \<Rightarrow> WebhookRequest option" where
  "decodeWebhook b =
     (case parse_json (of_bytes b) of
        Some (JObj kvs) \<Rightarrow> store_fields webhook_fields set_webhook_field kvs zero_webhook
      | Some JNull \<Rightarrow> Some zero_webhook
      | _ \<Rightarrow> None)"

text \<open>
  \<^verbatim>\<open>http.Header.Set\<close> files a value under the canonical form of its name: the first letter
  and each after a hyphen in upper case, the others in lower case; a name with a character
  that may not be in one stays as it is.
\<close>

definition token_char :: "char \<Rightarrow> bool" where
  "token_char c \<longleftrightarrow>
     c \<in> set ''!#$%&'' \<or> c = CHR 0x27 \<or> c \<in> set ''*+-.^_|~'' \<or> c = CHR 0x60 \<or> is_digit c \<or>
     65 \<le> code c \<and> code c \<le> 90 \<or> 97 \<le> code c \<and> code c \<le> 122"

fun canon :: "bool \<Rightarrow> string \<Rightarrow> string" where
  "canon up [] = []"
| "canon up (c # cs) =
     (if up \<and> 97 \<le> code c \<and> code c \<le> 122 then char_of (code c - 32)
      else if \<not> up \<and> 65 \<le> code c \<and> code c \<le> 90 then char_of (code c + 32)
      else c) # canon (c = CHR ''-'') cs"

definition CanonicalHeaderKey :: "string \<Rightarrow> string" where
  "CanonicalHeaderKey s = (if list_all token_char s then canon True s else s)"

definition Header_Set :: "string \<Rightarrow> string \<Rightarrow> (string \<rightharpoonup> string) \<Rightarrow> (string \<rightharpoonup> string)" where
  "Header_Set k v h = h(CanonicalHeaderKey k \<mapsto> v)"

record http_request =
  rqMethod :: string
  rqURL :: string
  rqHeader :: "string \<rightharpoonup> string"
  rqBody :: "string option"

record http_response =
  rsStatusCode :: int
  rsStatus :: string
  rsBody :: string

text \<open>
  The request for a job; \<open>visit\<close> is the order the map of extra headers is visited in, and
  \<open>bad\<close> tells why a request with some method and address cannot be made.
\<close>

definition webhook_method :: "WebhookRequest \<Rightarrow> string" where
  "webhook_method spec = (if whMethod spec = [] then ''POST'' else whMethod spec)"

definition Webhook_request ::
  "((string \<times> string) list \<Rightarrow> (string \<times> string) list) \<Rightarrow> WebhookRequest \<Rightarrow> handler_job \<Rightarrow> http_request"
where
  "Webhook_request visit spec j =
     (let h0 = (if whBody spec \<noteq> [] then Header_Set ''Content-Type'' ''application/json'' Map.empty else Map.empty);
          h1 = fold (\<lambda>(k, v). Header_Set k v) (visit (whHeaders spec)) h0;
          h2 = Header_Set ''Idempotency-Key'' (DedupKey j) h1;
          h3 = Header_Set ''Conveyor-Job-Id'' (hjID j) h2;
          h4 = Header_Set ''Conveyor-Attempt'' (Itoa (hjAttempt j)) h3
      in \<lparr>rqMethod = webhook_method spec, rqURL = whURL spec, rqHeader = h4,
          rqBody = (if whBody spec \<noteq> [] then Some (whBody spec) else None)\<rparr>)"

text \<open>
  \<open>Do\<close> sends a request; \<open>decerr\<close> and \<open>took\<close> are the texts of a decoding error and of the time
  the request took.
\<close>

definition Webhook_Execute ::
  "((string \<times> string) list \<Rightarrow> (string \<times> string) list) \<Rightarrow> (string \<Rightarrow> string \<Rightarrow> string option) \<Rightarrow>
     (http_request \<Rightarrow> string + http_response) \<Rightarrow> string \<Rightarrow> string \<Rightarrow> handler"
where
  "Webhook_Execute visit bad Do decerr took j =
     (case decodeWebhook (hjPayload j) of
        None \<Rightarrow> Some (''payload is not a webhook request: '' @ decerr)
      | Some spec \<Rightarrow>
          if whURL spec = [] then Some ''webhook payload has no url''
          else (case bad (webhook_method spec) (whURL spec) of
                  Some err \<Rightarrow> Some (''build request: '' @ err)
                | None \<Rightarrow>
                    (case Do (Webhook_request visit spec j) of
                       Inl err \<Rightarrow> Some (webhook_method spec @ '' '' @ whURL spec @ '': '' @ err)
                     | Inr resp \<Rightarrow>
                         if rsStatusCode resp < 200 \<or> rsStatusCode resp \<ge> 300
                         then Some (webhook_method spec @ '' '' @ whURL spec @ '' returned '' @ rsStatus resp @
                                '' after '' @ took @ '': '' @ handler_truncate (take maxCapturedBody (rsBody resp)) maxCapturedBody)
                         else None)))"

section \<open>The pool\<close>

record pool =
  plQueue :: string
  plWorkerID :: string
  plConcurrency :: int
  plLeaseDuration :: duration
  plHandlers :: registry

text \<open>What \<^verbatim>\<open>Run\<close> makes of its settings, and the stream it asks for.\<close>

definition Run_request :: "pool \<Rightarrow> (string + pool \<times> LeaseRequest)" where
  "Run_request p0 =
     (if plQueue p0 = [] then Inl ''worker: queue is required''
      else
        let p1 = (if plConcurrency p0 < 1 then p0\<lparr>plConcurrency := 1\<rparr> else p0);
            p = (if plLeaseDuration p1 \<le> 0 then p1\<lparr>plLeaseDuration := 30 * Second\<rparr> else p1)
        in Inr (p, \<lparr>lqQueue = plQueue p, lqWorkerId = plWorkerID p, lqMaxInFlight = wrap32 (plConcurrency p),
                    lqLeaseDurationMs = quot (plLeaseDuration p) Millisecond\<rparr>))"

text \<open>\<open>names\<close>: the registered names in the order visited; \<open>quote\<close>: the quoted form of a name.\<close>

definition handler_view :: "LeaseResponse \<Rightarrow> handler_job" where
  "handler_view msg =
     \<lparr>hjID = lrJobId msg, hjQueue = lrQueue msg, hjHandler = lrHandler msg,
      hjIdempotencyKey = lrIdempotencyKey msg, hjPayload = lrPayload msg, hjAttempt = lrAttempt msg\<rparr>"

fun unwords :: "string list \<Rightarrow> string" where
  "unwords [] = []"
| "unwords [x] = x"
| "unwords (x # xs) = x @ '' '' @ unwords xs"

definition invoke :: "(string \<Rightarrow> string) \<Rightarrow> string list \<Rightarrow> pool \<Rightarrow> LeaseResponse \<Rightarrow> string option" where
  "invoke quote names p msg =
     (case Registry_Get (plHandlers p) (lrHandler msg) of
        None \<Rightarrow> Some (''no handler registered for '' @ quote (lrHandler msg) @ '' (have ['' @ unwords names @ ''])'')
      | Some h \<Rightarrow> h (handler_view msg))"

record report_request =
  rpJobId :: string
  rpEpoch :: u64
  rpWorkerId :: string

datatype report = Ack_report report_request | Nack_report report_request string

definition pool_ack :: "pool \<Rightarrow> LeaseResponse \<Rightarrow> report" where
  "pool_ack p msg = Ack_report \<lparr>rpJobId = lrJobId msg, rpEpoch = lrEpoch msg, rpWorkerId = plWorkerID p\<rparr>"

definition pool_nack :: "pool \<Rightarrow> LeaseResponse \<Rightarrow> string \<Rightarrow> report" where
  "pool_nack p msg cause = Nack_report \<lparr>rpJobId = lrJobId msg, rpEpoch = lrEpoch msg, rpWorkerId = plWorkerID p\<rparr> cause"

text \<open>The heartbeats: what the loop waits for, what it sends, and whether it aborts the job.\<close>

record HeartbeatRequest =
  hqJobId :: string
  hqEpoch :: u64
  hqWorkerId :: string
  hqLeaseDurationMs :: int

definition heartbeat_interval :: "pool \<Rightarrow> duration" where
  "heartbeat_interval p = (let i = quot (plLeaseDuration p) 3 in if i < Second then Second else i)"

definition heartbeat_request :: "pool \<Rightarrow> LeaseResponse \<Rightarrow> HeartbeatRequest" where
  "heartbeat_request p msg =
     \<lparr>hqJobId = lrJobId msg, hqEpoch = lrEpoch msg, hqWorkerId = plWorkerID p,
      hqLeaseDurationMs = quot (plLeaseDuration p) Millisecond\<rparr>"

datatype heartbeat_event = CtxDone | Tick "string + bool"

fun heartbeat_loop :: "HeartbeatRequest \<Rightarrow> heartbeat_event list \<Rightarrow> HeartbeatRequest list \<times> bool" where
  "heartbeat_loop q [] = ([], False)"
| "heartbeat_loop q (CtxDone # es) = ([], False)"
| "heartbeat_loop q (Tick (Inl err) # es) = apfst (Cons q) (heartbeat_loop q es)"
| "heartbeat_loop q (Tick (Inr accepted) # es) =
     (if \<not> accepted then ([q], True) else apfst (Cons q) (heartbeat_loop q es))"

text \<open>
  One job: the deadline of its context, the heartbeats sent while it ran, and the report.
  \<open>run\<close> is the handlers' behaviour under that deadline and under what aborts it.
\<close>

definition from_unix_milli :: "int \<Rightarrow> gotime" where
  "from_unix_milli ms = (ms + 62135596800000) * 1000000"

definition execute ::
  "(string \<Rightarrow> string) \<Rightarrow> string list \<Rightarrow> (gotime \<Rightarrow> bool \<Rightarrow> registry) \<Rightarrow> heartbeat_event list \<Rightarrow> pool \<Rightarrow>
     LeaseResponse \<Rightarrow> HeartbeatRequest list \<times> report"
where
  "execute quote names run hbs p msg =
     (let deadline = from_unix_milli (lrLeaseExpiresAtUnixMs msg);
          (sent, aborted) = heartbeat_loop (heartbeat_request p msg) hbs;
          execErr = invoke quote names (p\<lparr>plHandlers := run deadline aborted\<rparr>) msg
      in (sent, case execErr of Some err \<Rightarrow> pool_nack p msg err | None \<Rightarrow> pool_ack p msg))"

text \<open>What the worker logs when the broker answers its report.\<close>

definition ack_note :: "string + bool \<Rightarrow> string option" where
  "ack_note r =
     (case r of
        Inl err \<Rightarrow> Some ''ack failed''
      | Inr accepted \<Rightarrow> if \<not> accepted then Some ''ack rejected: lease was already reclaimed'' else None)"

definition nack_note :: "string + NackResponse \<Rightarrow> string option" where
  "nack_note r =
     (case r of
        Inl err \<Rightarrow> Some ''nack failed''
      | Inr resp \<Rightarrow>
          if \<not> nrAccepted resp then Some ''nack rejected: lease was already reclaimed''
          else if nrDeadLettered resp then Some ''job dead-lettered: retries exhausted''
          else None)"

text \<open>The report's way to the broker.\<close>

definition deliver :: "report \<Rightarrow> gotime \<Rightarrow> nat \<Rightarrow> store \<Rightarrow> os \<Rightarrow> dispatcher \<Rightarrow> bool rpc \<times> store \<times> os \<times> dispatcher" where
  "deliver rep now r s os d =
     (case rep of
        Ack_report q \<Rightarrow> Server_Ack (rpJobId q) (rpEpoch q) s os d
      | Nack_report q cause \<Rightarrow>
          (case Server_Nack (rpJobId q) (rpEpoch q) cause now r s os d of
             (res, w) \<Rightarrow> (map_sum (\<lambda>e. e) nrAccepted res, w)))"

end
