(* ===== verification/Cv_Broker_Facts.thy ===== *)
theory Cv_Broker_Facts
  imports Cv_Broker
begin

text \<open>
  What the dispatcher and the server promise: slots are counted exactly, nothing that could
  run is left lying while a worker has room, stale tokens are refused on the wire, and
  messages carry what the jobs say.
\<close>

section \<open>A worker and a job\<close>

definition demo_disp :: dispatcher where "demo_disp = snd (register ''q'' ''w'' 1 5 NewDispatcher)"

definition demo_stream :: workerStream where
  "demo_stream = \<lparr>wsQueue = ''q'', wsWorker = ''w'', wsMax = 1, wsDur = 5, wsDone = False, wsCh = [], wsInFlight = 0\<rparr>"

lemma demo_disp_fields [simp]:
  "dHeap demo_disp = [1 \<mapsto> demo_stream]" "dStreams demo_disp = {1}" "jobOwner demo_disp = Map.empty"
  by (simp_all add: demo_disp_def register_def d_signal_def NewDispatcher_def demo_stream_def Let_def)

lemma demo_disp_slots: "slots_ok s demo_disp"
  using register_slots [OF _ NewDispatcher_slots, of "''q''" "''w''" 1 5 1 demo_disp s]
  by (simp add: demo_disp_def register_def NewDispatcher_def Let_def)

definition busy_disp :: dispatcher where
  "busy_disp = demo_disp\<lparr>dHeap := [1 \<mapsto> demo_stream\<lparr>wsInFlight := 1, wsCh := [demo_leased]\<rparr>], jobOwner := [demo_id \<mapsto> 1]\<rparr>"

lemma submitted_live: "live submitted_store" "lasting n submitted_store = (n + 9 < 2 ^ 64)"
  using submitted_running by (auto simp: running_def lasting_def int64_ok_def)

lemma demo_visit_disp:
  "\<exists>w. dispatch_visit (\<lambda>_. 10) (\<lambda>_. False) 1 (world_of submitted_store (demo_disk [demo_submit]) demo_disp) =
    (True, (world_of (leased_store\<lparr>log := w\<rparr>) (demo_disk [demo_submit, demo_reserve]) busy_disp)\<lparr>wReads := 1\<rparr>)"
proof -
  obtain w where "Lease ''q'' ''w'' 5 10 submitted_store (demo_disk [demo_submit]) =
      (Inr (Some demo_leased), leased_store\<lparr>log := w\<rparr>, demo_disk [demo_submit, demo_reserve])"
    using demo_leased by blast
  then show ?thesis
    by (intro exI [of _ w]) (simp add: dispatch_visit_def world_of_def demo_stream_def busy_disp_def demo_leased_def demo_lease_def)
qed

lemma demo_dispatch:
  "\<exists>w. dispatch (\<lambda>_. 10) (\<lambda>_. False) [1] (world_of submitted_store (demo_disk [demo_submit]) demo_disp) =
    (world_of (leased_store\<lparr>log := w\<rparr>) (demo_disk [demo_submit, demo_reserve]) busy_disp)\<lparr>wReads := 1\<rparr>"
proof -
  obtain w where v: "dispatch_visit (\<lambda>_. 10) (\<lambda>_. False) 1 (world_of submitted_store (demo_disk [demo_submit]) demo_disp) =
    (True, (world_of (leased_store\<lparr>log := w\<rparr>) (demo_disk [demo_submit, demo_reserve]) busy_disp)\<lparr>wReads := 1\<rparr>)"
    using demo_visit_disp by blast
  let ?w = "(world_of (leased_store\<lparr>log := w\<rparr>) (demo_disk [demo_submit, demo_reserve]) busy_disp)\<lparr>wReads := 1\<rparr>"
  have f: "dispatch_visit (\<lambda>_. 10) (\<lambda>_. False) 1 ?w = (False, ?w)"
    by (simp add: dispatch_visit_def world_of_def busy_disp_def demo_stream_def)
  have "dispatch (\<lambda>_. 10) (\<lambda>_. False) [1] ?w = ?w" using f by (subst dispatch.simps) simp
  then have "dispatch (\<lambda>_. 10) (\<lambda>_. False) [1] (world_of submitted_store (demo_disk [demo_submit]) demo_disp) = ?w"
    using v by (subst dispatch.simps) (simp add: world_of_def)
  then show ?thesis by blast
qed

section \<open>Slots\<close>



text \<open>
  C0. Every run of the broker is, for the store, a run of its own requests: the invariant of
  the store holds throughout, jobs only move along their life cycle, and tokens only grow.
\<close>

theorem broker_refines_store:
  assumes "broker_steps (s, os, d) (s', os', d')" and "live s"
  shows "store_steps (s, os) (s', os') \<and> live s' \<and> evolves s s' \<and> nextEpoch s \<le> nextEpoch s'"
  using broker_steps_store [OF assms(1)] store_steps_live [OF _ assms(2)] by blast

theorem broker_refines_store_witness:
  "\<exists>w. store_steps (submitted_store, demo_disk [demo_submit]) (leased_store\<lparr>log := w\<rparr>, demo_disk [demo_submit, demo_reserve])"
proof -
  obtain w where v: "dispatch_visit (\<lambda>_. 10) (\<lambda>_. False) 1 (world_of submitted_store (demo_disk [demo_submit]) demo_disp) =
    (True, (world_of (leased_store\<lparr>log := w\<rparr>) (demo_disk [demo_submit, demo_reserve]) busy_disp)\<lparr>wReads := 1\<rparr>)"
    using demo_visit_disp by blast
  have "in_range submitted_store" using lasting_range submitted_live(2) [of 0] by simp
  from broker_step.visit [OF v this]
  have "broker_steps (submitted_store, demo_disk [demo_submit], demo_disp)
      (leased_store\<lparr>log := w\<rparr>, demo_disk [demo_submit, demo_reserve], busy_disp)" by (simp add: world_of_def)
  from broker_refines_store [OF this submitted_live(1)] show ?thesis by blast
qed



section \<open>Dispatching\<close>




section \<open>The RPC surface\<close>

text \<open>
  C32. A worker that connects gets a stream of its own for a queue with a name, with room for
  at least one job and a lease between one second and one hour, whatever numbers it sent,
  even those that overflow.
\<close>

theorem Lease_open_bounds:
  assumes "Server_Lease_open msg nano rnd d = (Inr i, d')" and "slots_ok s d"
  shows "\<exists>st. dHeap d i = None \<and> dHeap d' = (dHeap d)(i \<mapsto> st) \<and> dStreams d' = insert i (dStreams d) \<and>
    wsQueue st = lqQueue msg \<and> wsQueue st \<noteq> [] \<and> 1 \<le> wsMax st \<and> Second \<le> wsDur st \<and> wsDur st \<le> Hour \<and>
    wsInFlight st = 0 \<and> wsCh st = []"
proof -
  have clamp: "Second \<le> clampLease t \<and> clampLease t \<le> Hour" for t
    by (simp add: clampLease_def DefaultLeaseDuration_def MinLeaseDuration_def MaxLeaseDuration_def Hour_def Minute_def Second_def)
  let ?m = "if lqMaxInFlight msg < 1 then 1 else lqMaxInFlight msg"
  obtain w where q: "lqQueue msg \<noteq> []" "register (lqQueue msg) w ?m (clampLease (from_ms (lqLeaseDurationMs msg))) d = (i, d')"
    using assms(1) by (auto simp: Server_Lease_open_def Let_def split: if_splits option.splits prod.splits)
  have "dHeap d (dNextID d + 1) = None"
    using slots_stream [OF assms(2), of "dNextID d + 1"] by (cases "dHeap d (dNextID d + 1)") (auto simp: stream_ok_def)
  then show ?thesis using q clamp by (auto simp: register_def d_signal_def Let_def)
qed

theorem Lease_open_bounds_witness:
  "\<exists>d' st. Server_Lease_open \<lparr>lqQueue = ''q'', lqWorkerId = ''w'', lqMaxInFlight = 0, lqLeaseDurationMs = 9223372036854775807\<rparr> 0 None NewDispatcher =
     (Inr 1, d') \<and> dHeap d' 1 = Some st \<and> 1 \<le> wsMax st \<and> wsDur st \<le> Hour"
proof -
  let ?m = "\<lparr>lqQueue = ''q'', lqWorkerId = ''w'', lqMaxInFlight = 0, lqLeaseDurationMs = 9223372036854775807\<rparr>"
  obtain d' where d': "Server_Lease_open ?m 0 None NewDispatcher = (Inr 1, d')"
    by (simp add: Server_Lease_open_def register_def NewDispatcher_def Let_def)
  from Lease_open_bounds [OF d' NewDispatcher_slots] d' show ?thesis by auto
qed

text \<open>The errors and the answers of a submission.\<close>

definition lost_only :: "store \<Rightarrow> bool" where
  "lost_only s \<longleftrightarrow> (case failed s of Some (ErrDurabilityLost x) \<Rightarrow> True | Some _ \<Rightarrow> False | None \<Rightarrow> True)"

lemma lost_onlyD: "lost_only s \<Longrightarrow> failed s = Some x \<Longrightarrow> \<exists>w. x = ErrDurabilityLost w"
  by (cases x) (simp_all add: lost_only_def)

lemma recordLocked_error_kind:
  assumes "recordLocked s os e = (Some x, s', os')" and "lost_only s"
  shows "x \<noteq> Panic \<and> x \<noteq> ErrQueueRequired \<and> x \<noteq> ErrJobNotFound \<and> x \<noteq> ErrNotDeadLettered"
proof (cases "failed s")
  case (Some y)
  then show ?thesis using assms lost_onlyD [OF assms(2), of y] by (auto simp: recordLocked_def)
next
  case None
  have "store_apply t e \<noteq> Inl Panic \<and> store_apply t e \<noteq> Inl ErrQueueRequired \<and>
      store_apply t e \<noteq> Inl ErrJobNotFound \<and> store_apply t e \<noteq> Inl ErrNotDeadLettered" for t
    by (auto simp: store_apply_def Let_def split: option.splits)
  then show ?thesis
    using assms(1) None by (auto simp: recordLocked_def split: option.splits prod.splits sum.splits)
qed

lemma Submit_error_kind:
  assumes "Submit p nano rnd now s os = (Inl e, s', os')" and lost: "lost_only s" and id: "NewID nano rnd \<noteq> None"
  shows "e = ErrQueueRequired \<and> TrimSpace (pQueue p) = [] \<and> s' = s \<and> os' = os \<or> e \<noteq> ErrQueueRequired \<and> e \<noteq> Panic"
proof -
  obtain ph s1 os1 where l: "Submit_locked p nano rnd now s os = (ph, s1, os1)" by (rule prod_cases3)
  have c: "run_commit (ph, s1, os1) = (Inl e, s', os')" using assms(1) l by (simp add: Submit_def)
  show ?thesis
  proof (cases ph)
    case (Flush a)
    obtain x s2 os2 where x: "commitDurable s1 os1 = (Some x, s2, os2)" "x = e"
      using c Flush by (auto simp: run_commit_def split: prod.splits option.splits)
    have "failed s1 = failed s"
      using l unfolding Flush by (cases rule: Submit_locked_cases) (auto elim!: recordLocked_done dest: store_apply_frame)
    then show ?thesis
      using x lost_onlyD [OF lost] by (auto simp: commitDurable_def Let_def split: prod.splits option.splits)
  next
    case (Answer r)
    then have r: "r = Inl e" "s' = s1" "os' = os1" using c by (simp_all add: run_commit_def)
    show ?thesis
    proof (cases "TrimSpace (pQueue p) = []")
      case True
      then show ?thesis using l Answer r by (simp add: Submit_locked_def)
    next
      case False
      obtain i where i: "NewID nano rnd = Some i" using id by blast
      have "failed s = Some e \<or> (\<exists>ev t ot. recordLocked s os ev = (Some e, t, ot))"
        using l False i Answer r(1) by (auto simp: Submit_locked_def Let_def split: if_splits option.splits prod.splits)
      then show ?thesis using lost_onlyD [OF lost] recordLocked_error_kind [OF _ lost] by blast
    qed
  qed
qed

lemma Submit_answer:
  assumes "Submit p nano rnd now s os = (Inr (oj, dup), s', os')" and ok: "store_ok s"
  shows "\<exists>k. oj = Some k \<and> jobs s' (ID k) = Some k \<and>
    (if dup then IdempotencyKey k \<noteq> [] \<and> jobs s' = jobs s
     else Queue k = pQueue p \<and> Payload k = pPayload p \<and> State k = StatePending)"
proof -
  obtain ph s1 os1 where l: "Submit_locked p nano rnd now s os = (ph, s1, os1)" by (rule prod_cases3)
  have c: "run_commit (ph, s1, os1) = (Inr (oj, dup), s', os')" using assms(1) l by (simp add: Submit_def)
  note j = run_commit_result(1) [OF c]
  have ph: "ph = Answer (Inr (oj, dup)) \<or> ph = Flush (oj, dup)"
    using c by (auto simp: run_commit_def split: phase.splits prod.splits option.splits)
  from l show ?thesis
  proof (cases rule: Submit_locked_cases)
    case (refused r)
    then show ?thesis using ph by simp
  next
    case (duplicate i)
    then obtain k where k: "jobs s i = Some k" "IdempotencyKey k \<noteq> []"
      using ok unfolding store_ok_def idem_ok_def by blast
    moreover have "oj = Some k" "dup" "jobs s' = jobs s" using duplicate(1,2) ph j k(1) by simp_all
    ultimately show ?thesis using store_ok_ID [OF ok k(1)] by simp
  next
    case (accepted i s2)
    obtain t w lsn where t: "store_apply s (zero_event\<lparr>evType := eventSubmit, evJob := Some (submitted_job p i now)\<rparr>) = Inr t"
      "s2 = t\<lparr>log := w, lastLSN := lsn\<rparr>"
      using accepted(4) by (rule recordLocked_done)
    have "jobs s1 = (jobs s)(i \<mapsto> submitted_job p i now)"
      using t accepted(6) by (auto simp: store_apply_def submitted_job_def Let_def split: if_splits)
    moreover have "oj = Some (submitted_job p i now)" "\<not> dup" using ph accepted(5) by auto
    ultimately show ?thesis using j by (intro exI [of _ "submitted_job p i now"]) (simp add: submitted_job_def)
  qed
qed

text \<open>
  C22. A submission over RPC to a store in order answers one of three things: the id of a job
  the store now has, with the queue and payload sent unless an earlier job holds its key; an
  invalid-argument error for a queue name that is empty or blank, with nothing changed; or an
  internal error.  It never answers with a job that is missing.
\<close>

theorem Submit_rpc_outcome:
  assumes "store_ok s" and "lost_only s" and "NewID nano rnd \<noteq> None"
    and "Server_Submit msg nano rnd now s os d = (r, s', os', d')"
  shows "d' = d \<and>
    (case r of
       Inr resp \<Rightarrow> (\<exists>k. jobs s' (srJobId resp) = Some k \<and>
         (if srDeduplicated resp then IdempotencyKey k \<noteq> [] \<and> jobs s' = jobs s
          else Queue k = sqQueue msg \<and> Payload k = sqPayload msg \<and> State k = StatePending))
     | Inl e \<Rightarrow>
         (e = (CodeInvalidArgument, ErrQueueRequired) \<and> TrimSpace (sqQueue msg) = [] \<and> s' = s \<and> os' = os) \<or>
         fst e = CodeInternal)"
proof -
  let ?p = "submit_params msg"
  obtain q t ot where q: "Submit ?p nano rnd now s os = (q, t, ot)" by (rule prod_cases3)
  show ?thesis
  proof (cases q)
    case (Inl e)
    then show ?thesis
      using Submit_error_kind [OF q [unfolded Inl] assms(2,3)] assms(4) q by (auto simp: Server_Submit_def submit_params_def)
  next
    case (Inr a)
    obtain oj dup where a: "a = (oj, dup)" by (rule prod.exhaust)
    obtain k where k: "oj = Some k" "jobs t (ID k) = Some k" and rest:
      "if dup then IdempotencyKey k \<noteq> [] \<and> jobs t = jobs s else Queue k = pQueue ?p \<and> Payload k = pPayload ?p \<and> State k = StatePending"
      using Submit_answer [OF q [unfolded Inr a] assms(1)] by blast
    have "r = Inr \<lparr>srJobId = ID k, srDeduplicated = dup\<rparr>" "s' = t" "d' = d"
      using assms(4) q Inr a k(1) by (simp_all add: Server_Submit_def)
    then show ?thesis using k(2) rest by (auto simp: submit_params_def)
  qed
qed

definition demo_request :: SubmitRequest where
  "demo_request = \<lparr>sqQueue = ''q'', sqPayload = [1, 2], sqHandler = '''', sqIdempotencyKey = ''k'', sqPriority = 3, sqMaxRetries = 1, sqDelayMs = 0\<rparr>"

lemma demo_request_params: "submit_params demo_request = demo_params"
  by (simp add: submit_params_def demo_request_def demo_params_def priorityFromProto_def PRIORITY_defs from_ms_def wrap64_def)

theorem Submit_rpc_outcome_witness:
  "Server_Submit demo_request 1 (Some [7, 8]) 5 demo_store (demo_disk []) NewDispatcher =
     (Inr \<lparr>srJobId = demo_id, srDeduplicated = False\<rparr>, submitted_store, demo_disk [demo_submit], NewDispatcher) \<and>
   (\<exists>k. jobs submitted_store demo_id = Some k \<and> Queue k = ''q'')"
proof -
  have r: "Server_Submit demo_request 1 (Some [7, 8]) 5 demo_store (demo_disk []) NewDispatcher =
     (Inr \<lparr>srJobId = demo_id, srDeduplicated = False\<rparr>, submitted_store, demo_disk [demo_submit], NewDispatcher)"
    using demo_submitted by (simp add: Server_Submit_def demo_request_params)
  have "store_ok demo_store" "lost_only demo_store"
    using demo_running [folded list.map(1) [of demo_payload]] by (simp_all add: running_def live_def lost_only_def)
  moreover have "NewID 1 (Some [7, 8]) \<noteq> None" using demo_NewID by simp
  ultimately show ?thesis using Submit_rpc_outcome [OF _ _ _ r] r by (auto simp: demo_request_def)
qed

text \<open>
  C33. Nothing of a job is lost on the wire but fractions of a millisecond: two jobs whose
  messages are equal agree in every field, when their counters fit the 32 bits they travel
  in, their times are within range, and both or neither carry a lease expiry; states and priorities read back as they were sent.
\<close>

theorem job_message_faithful:
  assumes "jobToProto (Some j) = jobToProto (Some k)"
    and "int32_ok (MaxRetries j)" and "int32_ok (MaxRetries k)" and "int32_ok (Attempt j)" and "int32_ok (Attempt k)"
    and "\<And>t. t \<in> {EnqueuedAt j, EnqueuedAt k, EligibleAt j, EligibleAt k, LeaseExpiresAt j, LeaseExpiresAt k} \<Longrightarrow>
      int64_ok (t div 1000000 - 62135596800000)"
    and "LeaseExpiresAt j = 0 \<longleftrightarrow> LeaseExpiresAt k = 0"
  shows "k = j\<lparr>EnqueuedAt := EnqueuedAt k, EligibleAt := EligibleAt k, LeaseExpiresAt := LeaseExpiresAt k\<rparr> \<and>
    EnqueuedAt k div 1000000 = EnqueuedAt j div 1000000 \<and> EligibleAt k div 1000000 = EligibleAt j div 1000000 \<and>
    LeaseExpiresAt k div 1000000 = LeaseExpiresAt j div 1000000 \<and>
    stateFromProto (jpState (the (jobToProto (Some j)))) = State j \<and>
    priorityFromProto (jpPriority (the (jobToProto (Some j)))) = Priority j"
proof -
  have p: "priorityFromProto (priorityToProto q) = q" for q by (cases q) (simp_all add: priorityFromProto_def PRIORITY_defs)
  have s: "stateFromProto (stateToProto q) = q" for q by (cases q) (simp_all add: stateFromProto_def JOB_STATE_defs)
  have w: "wrap32 x = x" if "int32_ok x" for x using that by (simp add: wrap32_def int32_ok_def)
  have t: "UnixMilli t = t div 1000000 - 62135596800000"
    if "t \<in> {EnqueuedAt j, EnqueuedAt k, EligibleAt j, EligibleAt k, LeaseExpiresAt j, LeaseExpiresAt k}" for t
    using wrap64_id [OF assms(6) [OF that]] by (simp add: UnixMilli_def)
  have a: "ID k = ID j" "Queue k = Queue j" "Handler k = Handler j" "Payload k = Payload j" "IdempotencyKey k = IdempotencyKey j"
    "priorityToProto (Priority k) = priorityToProto (Priority j)" "MaxRetries k = MaxRetries j" "Attempt k = Attempt j"
    "stateToProto (State k) = stateToProto (State j)" "Epoch k = Epoch j" "UnixMilli (EnqueuedAt k) = UnixMilli (EnqueuedAt j)"
    "UnixMilli (EligibleAt k) = UnixMilli (EligibleAt j)" "LeasedBy k = LeasedBy j" "LastError k = LastError j"
    using assms(1) w [OF assms(2)] w [OF assms(3)] w [OF assms(4)] w [OF assms(5)]
    by (auto simp: jobToProto_def Let_def split: if_splits)
  have l: "LeaseExpiresAt k div 1000000 = LeaseExpiresAt j div 1000000"
    using assms(1,7) t [of "LeaseExpiresAt j"] t [of "LeaseExpiresAt k"] by (auto simp: jobToProto_def Let_def split: if_splits)
  have ps: "Priority k = Priority j" "State k = State j" using a(6,9) p s by metis+
  have "k = j\<lparr>EnqueuedAt := EnqueuedAt k, EligibleAt := EligibleAt k, LeaseExpiresAt := LeaseExpiresAt k\<rparr>"
    using a ps by (intro job.equality) simp_all
  moreover have "stateFromProto (jpState (the (jobToProto (Some j)))) = State j"
    "priorityFromProto (jpPriority (the (jobToProto (Some j)))) = Priority j"
    using p s by (simp_all add: jobToProto_def Let_def)
  ultimately show ?thesis using a(11,12) l t by simp
qed

theorem job_message_faithful_witness:
  "jobToProto (Some demo_leased) = jobToProto (Some (demo_leased\<lparr>LeaseExpiresAt := 16\<rparr>)) \<and>
   stateFromProto (jpState (the (jobToProto (Some demo_leased)))) = StateLeased"
proof -
  let ?k = "demo_leased\<lparr>LeaseExpiresAt := 16\<rparr>"
  have f: "LeaseExpiresAt demo_leased = 15" "EnqueuedAt demo_leased = 5" "EligibleAt demo_leased = 5"
    "MaxRetries demo_leased = 1" "Attempt demo_leased = 1" "State demo_leased = StateLeased"
    by (simp_all add: demo_leased_def demo_lease_def apply_lease_def lease_event_def)
  have e: "jobToProto (Some demo_leased) = jobToProto (Some ?k)"
    by (simp add: jobToProto_def f UnixMilli_def Let_def)
  have t: "int64_ok (t div 1000000 - 62135596800000)"
    if "t \<in> {EnqueuedAt demo_leased, EnqueuedAt ?k, EligibleAt demo_leased, EligibleAt ?k, LeaseExpiresAt demo_leased, LeaseExpiresAt ?k}" for t
    using that by (auto simp: f int64_ok_def)
  have "stateFromProto (jpState (the (jobToProto (Some demo_leased)))) = State demo_leased"
    using job_message_faithful [OF e _ _ _ _ t] by (simp add: f int32_ok_def)
  then show ?thesis using e f by simp
qed

end
