(* ===== verification/Cv_Worker_Facts.thy ===== *)
theory Cv_Worker_Facts
  imports Cv_Worker Cv_Broker_Facts
begin

text \<open>
  What a worker's run of a job comes to: one report, which settles the job at the broker
  exactly when the worker still holds its lease, and a key that stays the same over every
  delivery.
\<close>

section \<open>Reports\<close>

lemma Ack_answer:
  assumes "Ack x ep s os = (Inr b, s', os')" and k: "jobs s x = Some k"
  shows "b = holdsLease k ep" and "\<not> b \<Longrightarrow> s' = s \<and> os' = os" and "b \<Longrightarrow> jobs s' = (jobs s)(x \<mapsto> apply_ack k)"
proof -
  obtain ph s1 os1 where l: "Ack_locked x ep s os = (ph, s1, os1)" by (rule prod_cases3)
  have rc: "run_commit (ph, s1, os1) = (Inr b, s', os')" using assms(1) l by (simp add: Ack_def)
  have ph: "ph = Answer (Inr b) \<or> ph = Flush b"
    using rc by (auto simp: run_commit_def split: phase.splits prod.splits option.splits)
  have "b = holdsLease k ep \<and> (\<not> b \<longrightarrow> s' = s \<and> os' = os) \<and> (b \<longrightarrow> jobs s' = (jobs s)(x \<mapsto> apply_ack k))"
    using l
  proof (cases rule: Ack_locked_cases)
    case (fenced j)
    then show ?thesis using ph rc k by (simp add: run_commit_def)
  next
    case (fin j)
    have "jobs s1 = (jobs s)(x \<mapsto> apply_ack j)" using recordLocked_jobs(1) [OF fin(4), of j] fin(1) by simp
    then show ?thesis using fin ph run_commit_result(1) [OF rc] k by simp
  qed (use ph k in simp_all)
  then show "b = holdsLease k ep" "\<not> b \<Longrightarrow> s' = s \<and> os' = os" "b \<Longrightarrow> jobs s' = (jobs s)(x \<mapsto> apply_ack k)" by simp_all
qed

lemma Nack_answer:
  assumes "Nack x ep reason now r s os = (Inr (b, dead), s', os')" and k: "jobs s x = Some k" and ok: "store_ok s"
  shows "b = holdsLease k ep" and "\<not> b \<Longrightarrow> s' = s \<and> os' = os"
    and "b \<Longrightarrow> \<exists>reason'. jobs s' = (jobs s)(x \<mapsto> failed_job k reason' False now r s)"
proof -
  obtain ph s1 os1 where l: "Nack_locked x ep reason now r s os = (ph, s1, os1)" by (rule prod_cases3)
  have rc: "run_commit (ph, s1, os1) = (Inr (b, dead), s', os')" using assms(1) l by (simp add: Nack_def)
  have ph: "ph = Answer (Inr (b, dead)) \<or> ph = Flush (b, dead)"
    using rc by (auto simp: run_commit_def split: phase.splits prod.splits option.splits)
  have "b = holdsLease k ep \<and> (\<not> b \<longrightarrow> s' = s \<and> os' = os) \<and>
      (b \<longrightarrow> (\<exists>reason'. jobs s' = (jobs s)(x \<mapsto> failed_job k reason' False now r s)))"
    using l
  proof (cases rule: Nack_locked_cases)
    case (fenced j)
    then show ?thesis using ph rc k by (simp add: run_commit_def)
  next
    case (held j res)
    have id: "ID j = x" "jobs s (ID j) = Some j" using store_ok_ID [OF ok held(1)] held(1) by simp_all
    from held(3) id(2) show ?thesis
    proof (cases rule: failLocked_cases)
      case (refused e w)
      then show ?thesis using held(4) ph by simp
    next
      case (fin w lsn payload)
      then show ?thesis using held ph run_commit_result(1) [OF rc] k id(1) by auto
    qed
  qed (use ph k in simp_all)
  then show "b = holdsLease k ep" "\<not> b \<Longrightarrow> s' = s \<and> os' = os"
    "b \<Longrightarrow> \<exists>reason'. jobs s' = (jobs s)(x \<mapsto> failed_job k reason' False now r s)" by simp_all
qed

text \<open>The error a worker's run of a job ends with, and its report.\<close>

definition run_error ::
  "(string \<Rightarrow> string) \<Rightarrow> string list \<Rightarrow> (gotime \<Rightarrow> bool \<Rightarrow> registry) \<Rightarrow> heartbeat_event list \<Rightarrow> pool \<Rightarrow> LeaseResponse \<Rightarrow> string option"
where
  "run_error quote names run hbs p msg =
     invoke quote names
       (p\<lparr>plHandlers := run (from_unix_milli (lrLeaseExpiresAtUnixMs msg)) (snd (heartbeat_loop (heartbeat_request p msg) hbs))\<rparr>) msg"

lemma execute_report:
  "snd (execute quote names run hbs p msg) =
     (case run_error quote names run hbs p msg of None \<Rightarrow> pool_ack p msg | Some err \<Rightarrow> pool_nack p msg err)"
  by (simp add: execute_def run_error_def Let_def split: prod.split option.split)

lemma failed_job_spec: "State (failed_job j re b now r s) = (if MaxRetries j < Attempt j then StateDeadLetter else StateRetryWait)"
  "same_spec j (failed_job j re b now r s)"
  by (simp_all add: failed_job_def fail_event_def apply_fail_def same_spec_def)

lemma apply_ack_spec: "State (apply_ack j) = StateDone" "same_spec j (apply_ack j)"
  by (simp_all add: apply_ack_def same_spec_def)

text \<open>
  C11. A worker's one report on a job settles it exactly when the worker still holds the
  lease under the token it was given: then the job is done if the handler succeeded, and
  otherwise waits for a retry or is dead-lettered as its attempts say, and the worker's slot
  is free again.  A worker that lost its lease changes nothing, whatever its handler did, and
  no report touches another job.
\<close>

theorem worker_report_settles:
  assumes "store_ok s" and "jobs s (lrJobId msg) = Some k"
    and "deliver (snd (execute quote names run hbs p msg)) now r s os d = (Inr accepted, s', os', d')"
  shows "(accepted \<longleftrightarrow> State k = StateLeased \<and> Epoch k = lrEpoch msg) \<and>
    (\<not> accepted \<longrightarrow> s' = s \<and> os' = os \<and> d' = d) \<and>
    (accepted \<longrightarrow> jobOwner d' (lrJobId msg) = None \<and>
       (\<exists>k'. jobs s' = (jobs s)(lrJobId msg \<mapsto> k') \<and> same_spec k k' \<and>
         State k' = (if run_error quote names run hbs p msg = None then StateDone
                     else if MaxRetries k < Attempt k then StateDeadLetter else StateRetryWait)))"
proof (cases "run_error quote names run hbs p msg")
  case None
  then have "Server_Ack (lrJobId msg) (lrEpoch msg) s os d = (Inr accepted, s', os', d')"
    using assms(3) by (simp add: execute_report deliver_def pool_ack_def)
  then obtain t where a: "Ack (lrJobId msg) (lrEpoch msg) s os = (t, s', os')" "d' = (if t = Inr True then release (lrJobId msg) d else d)"
    "t = Inr accepted"
    by (auto simp: Server_Ack_def split: sum.splits prod.splits)
  note r = Ack_answer [OF a(1) [unfolded a(3)] assms(2)]
  show ?thesis using r a(2,3) None apply_ack_spec [of k] by (auto simp: holdsLease_def release_frame)
next
  case (Some err)
  then have "(\<lambda>(res, w). (map_sum (\<lambda>e. e) nrAccepted res, w)) (Server_Nack (lrJobId msg) (lrEpoch msg) err now r s os d) =
      (Inr accepted, s', os', d')"
    using assms(3) by (simp add: execute_report deliver_def pool_nack_def)
  then obtain dead where n: "Nack (lrJobId msg) (lrEpoch msg) err now r s os = (Inr (accepted, dead), s', os')"
    "d' = (if accepted then release (lrJobId msg) d else d)"
    by (auto simp: Server_Nack_def split: sum.splits prod.splits)
  note q = Nack_answer [OF n(1) assms(2,1)]
  show ?thesis
  proof (cases accepted)
    case True
    then obtain re where "jobs s' = (jobs s)(lrJobId msg \<mapsto> failed_job k re False now r s)" using q(3) by blast
    then show ?thesis using q(1) n(2) True Some failed_job_spec [of k re False now r s] by (auto simp: holdsLease_def release_frame)
  next
    case False
    then show ?thesis using q n(2) by (auto simp: holdsLease_def)
  qed
qed

definition demo_pool :: pool where
  "demo_pool = \<lparr>plQueue = ''q'', plWorkerID = ''w'', plConcurrency = 1, plLeaseDuration = 30 * Second, plHandlers = [''shell'' \<mapsto> \<lambda>j. None]\<rparr>"

theorem worker_report_settles_witness:
  "\<exists>d' k'. deliver (snd (execute id [] (\<lambda>_ _. plHandlers demo_pool) [Tick (Inr True)] demo_pool (lease_message demo_leased))) 15 0 leased_store
      (demo_disk [demo_submit, demo_reserve, demo_lease]) busy_disp =
      (Inr True, acked_store, demo_disk [demo_submit, demo_reserve, demo_lease, demo_ack], d') \<and>
    jobOwner d' demo_id = None \<and> jobs acked_store demo_id = Some k' \<and> State k' = StateDone"
proof -
  let ?run = "\<lambda>(_ :: gotime) (_ :: bool). plHandlers demo_pool" and ?msg = "lease_message demo_leased"
  have f: "lrJobId ?msg = demo_id" "lrEpoch ?msg = 1" "lrHandler ?msg = ''shell''"
    by (simp_all add: lease_message_def demo_leased_def demo_lease_def apply_lease_def lease_event_def)
  have ok: "run_error id [] ?run [Tick (Inr True)] demo_pool ?msg = None"
    by (simp add: run_error_def invoke_def Registry_Get_def f demo_pool_def)
  have dl: "deliver (snd (execute id [] ?run [Tick (Inr True)] demo_pool ?msg)) 15 0 leased_store
      (demo_disk [demo_submit, demo_reserve, demo_lease]) busy_disp =
      (Inr True, acked_store, demo_disk [demo_submit, demo_reserve, demo_lease, demo_ack], release demo_id busy_disp)"
    using demo_acked ok by (simp add: execute_report deliver_def pool_ack_def f Server_Ack_def)
  have "store_ok leased_store" using leased_running by (simp add: running_def live_def)
  moreover have "jobs leased_store (lrJobId ?msg) = Some demo_leased" by (simp add: f leased_store_def)
  ultimately have "jobOwner (release demo_id busy_disp) (lrJobId ?msg) = None \<and>
      (\<exists>k'. jobs acked_store = (jobs leased_store)(lrJobId ?msg \<mapsto> k') \<and> State k' = StateDone)"
    using worker_report_settles [OF _ _ dl] ok by auto
  then show ?thesis using dl f by auto
qed

text \<open>
  C30. Every delivery of a job shows its handler the same job but for the attempt number, and
  the key by which a receiver can tell a redelivery never changes: it is what the shell
  handler exports last and what the webhook handler sends as \<^verbatim>\<open>Idempotency-Key\<close>, whatever
  headers the payload asks for.
\<close>

theorem redelivery_same_key:
  assumes "live s" and "jobs s x = Some j" and "broker_steps (s, os, d) (s', os', d')" and "jobs s' x = Some k"
    and "v = handler_view (lease_message j)" and "v' = handler_view (lease_message k)"
  shows "v' = v\<lparr>hjAttempt := hjAttempt v'\<rparr> \<and> DedupKey v' = DedupKey v \<and>
    last (scEnv (Shell_command h environ v')) = ''CONVEYOR_DEDUP_KEY='' @ DedupKey v \<and>
    rqHeader (Webhook_request visit spec v') ''Idempotency-Key'' = Some (DedupKey v)"
proof -
  have "evolves s s'" using store_steps_live [OF broker_steps_store [OF assms(3)] assms(1)] by simp
  then have "job_steps j k" using assms(2,4) unfolding evolves_def by fastforce
  then have "same_spec j k" by (rule job_steps_spec)
  then have v: "v' = v\<lparr>hjAttempt := hjAttempt v'\<rparr>"
    unfolding assms(5,6) by (simp add: handler_view_def lease_message_def same_spec_def)
  then have key: "DedupKey v' = DedupKey v" by (metis (no_types, lifting) DedupKey_def handler_job.select_convs(1,4) handler_job.surjective handler_job.update_convs(6))
  have names: "CanonicalHeaderKey ''Idempotency-Key'' = ''Idempotency-Key''" "CanonicalHeaderKey ''Conveyor-Job-Id'' \<noteq> ''Idempotency-Key''"
    "CanonicalHeaderKey ''Conveyor-Attempt'' \<noteq> ''Idempotency-Key''"
    by code_simp+
  have "rqHeader (Webhook_request visit spec v') ''Idempotency-Key'' = Some (DedupKey v')"
    using names by (simp add: Webhook_request_def Header_Set_def Let_def)
  then show ?thesis using v key by (simp add: Shell_command_def)
qed

theorem redelivery_same_key_witness:
  "DedupKey (handler_view (lease_message demo_leased)) = DedupKey (handler_view (lease_message demo_job)) \<and>
   rqHeader (Webhook_request id zero_webhook (handler_view (lease_message demo_leased))) ''Idempotency-Key'' = Some ''k''"
proof -
  obtain w where v: "dispatch_visit (\<lambda>_. 10) (\<lambda>_. False) 1 (world_of submitted_store (demo_disk [demo_submit]) demo_disp) =
    (True, (world_of (leased_store\<lparr>log := w\<rparr>) (demo_disk [demo_submit, demo_reserve]) busy_disp)\<lparr>wReads := 1\<rparr>)"
    using demo_visit_disp by blast
  have "in_range submitted_store" using lasting_range submitted_live(2) [of 0] by simp
  from broker_step.visit [OF v this]
  have st: "broker_steps (submitted_store, demo_disk [demo_submit], demo_disp)
      (leased_store\<lparr>log := w\<rparr>, demo_disk [demo_submit, demo_reserve], busy_disp)" by (simp add: world_of_def)
  have js: "jobs submitted_store demo_id = Some demo_job" "jobs (leased_store\<lparr>log := w\<rparr>) demo_id = Some demo_leased"
    by (simp_all add: leased_store_def)
  have key: "DedupKey (handler_view (lease_message demo_job)) = ''k''"
    by (simp add: DedupKey_def handler_view_def lease_message_def)
  note r = redelivery_same_key [OF submitted_live(1) js(1) st js(2) refl refl]
  show ?thesis using r [where visit = id and spec = zero_webhook] unfolding key by blast
qed

end
