(* ===== verification/Cv_Cli.thy ===== *)
theory Cv_Cli
  imports Cv_Worker
begin

text \<open>
  The command line (\<^verbatim>\<open>cmd/conveyor\<close>) as far as it computes anything: what \<^verbatim>\<open>submit\<close> sends and
  prints, how states, priorities and errors are shown, the address a client dials, and how
  \<^verbatim>\<open>bench\<close> reads the broker's counters.
\<close>

section \<open>Showing states, priorities and errors\<close>

text \<open>The generated names of the enumerations; an unknown number is shown in decimal.\<close>

definition JobState_String :: "int \<Rightarrow> string" where
  "JobState_String s =
     (case map_of [(JOB_STATE_UNSPECIFIED, ''JOB_STATE_UNSPECIFIED''), (JOB_STATE_PENDING, ''JOB_STATE_PENDING''),
                   (JOB_STATE_LEASED, ''JOB_STATE_LEASED''), (JOB_STATE_RETRY_WAIT, ''JOB_STATE_RETRY_WAIT''),
                   (JOB_STATE_DONE, ''JOB_STATE_DONE''), (JOB_STATE_DEAD_LETTER, ''JOB_STATE_DEAD_LETTER'')] s of
        Some n \<Rightarrow> n | None \<Rightarrow> Itoa s)"

definition PriorityProto_String :: "int \<Rightarrow> string" where
  "PriorityProto_String p =
     (case map_of [(PRIORITY_UNSPECIFIED, ''PRIORITY_UNSPECIFIED''), (PRIORITY_LOW, ''PRIORITY_LOW''),
                   (PRIORITY_NORMAL, ''PRIORITY_NORMAL''), (PRIORITY_HIGH, ''PRIORITY_HIGH'')] p of
        Some n \<Rightarrow> n | None \<Rightarrow> Itoa p)"

definition TrimPrefix :: "string \<Rightarrow> string \<Rightarrow> string" where
  "TrimPrefix s p = (if prefix p s then drop (length p) s else s)"

definition TrimSuffix :: "string \<Rightarrow> string \<Rightarrow> string" where
  "TrimSuffix s p = (if suffix p s then take (length s - length p) s else s)"

definition displayState :: "int \<Rightarrow> string" where
  "displayState s =
     (if s = JOB_STATE_UNSPECIFIED then ''unspecified'' else to_lower (TrimPrefix (JobState_String s) ''JOB_STATE_''))"

definition displayPriority :: "int \<Rightarrow> string" where
  "displayPriority p =
     (if p = PRIORITY_UNSPECIFIED then ''normal'' else to_lower (TrimPrefix (PriorityProto_String p) ''PRIORITY_''))"

definition truncateError :: "string \<Rightarrow> string" where
  "truncateError s = (if length s \<le> 60 then s else take 60 s @ ''...'')"

text \<open>The command line shows states and priorities by the names the program uses for them.\<close>

lemma displayState_names: "displayState (stateToProto s) = State_String s"
  by (cases s; hypsubst; code_simp)

lemma displayPriority_names: "displayPriority (priorityToProto p) = Priority_String p"
  by (cases p; hypsubst; code_simp)

section \<open>Addresses\<close>

definition has_scheme :: "string \<Rightarrow> bool" where
  "has_scheme a \<longleftrightarrow> prefix ''http://'' a \<or> prefix ''https://'' a"

definition newClient_addr :: "string \<Rightarrow> string" where
  "newClient_addr addr = (if \<not> has_scheme addr then ''http://'' @ addr else addr)"

definition metrics_url :: "string \<Rightarrow> string" where
  "metrics_url addr = TrimSuffix (if \<not> has_scheme addr then ''http://'' @ addr else addr) ''/'' @ ''/metrics''"

section \<open>Submitting\<close>

record submit_flags =
  sfQueue :: string
  sfPayload :: string
  sfHandler :: string
  sfMaxRetries :: int
  sfPriority :: string
  sfDelay :: duration
  sfIdempotencyKey :: string
  sfCount :: int

definition cli_priorityToProto :: "priority \<Rightarrow> int" where
  "cli_priorityToProto p =
     (if p = PriorityLow then PRIORITY_LOW else if p = PriorityHigh then PRIORITY_HIGH else PRIORITY_NORMAL)"

definition submit_key :: "submit_flags \<Rightarrow> nat \<Rightarrow> string" where
  "submit_key f i =
     (if sfIdempotencyKey f \<noteq> [] \<and> sfCount f > 1 then sfIdempotencyKey f @ ''-'' @ Itoa (int i) else sfIdempotencyKey f)"

definition submit_request :: "submit_flags \<Rightarrow> priority \<Rightarrow> nat \<Rightarrow> SubmitRequest" where
  "submit_request f p i =
     \<lparr>sqQueue = sfQueue f, sqPayload = to_bytes (sfPayload f), sqHandler = sfHandler f,
      sqIdempotencyKey = submit_key f i, sqPriority = cli_priorityToProto p,
      sqMaxRetries = wrap32 (sfMaxRetries f), sqDelayMs = quot (sfDelay f) Millisecond\<rparr>"

text \<open>
  The loop: \<open>client i\<close> is the broker's answer to the \<open>i\<close>-th request.  The result is what was
  sent, the lines printed, and the error the loop stopped with.
\<close>

fun submit_loop ::
  "(nat \<Rightarrow> SubmitRequest \<Rightarrow> string + SubmitResponse) \<Rightarrow> submit_flags \<Rightarrow> priority \<Rightarrow> nat \<Rightarrow> nat \<Rightarrow>
     SubmitRequest list \<times> string list \<times> string option"
where
  "submit_loop client f p i 0 = ([], [], None)"
| "submit_loop client f p i (Suc n) =
     (let req = submit_request f p i
      in case client i req of
           Inl err \<Rightarrow> ([req], [], Some (''submit job '' @ Itoa (int i + 1) @ '' of '' @ Itoa (sfCount f) @ '': '' @ err))
         | Inr resp \<Rightarrow>
             (let (reqs, lns, e) = submit_loop client f p (i + 1) n
              in (req # reqs,
                  (srJobId resp @ (if srDeduplicated resp then CHR 0x09 # ''(deduplicated)'' else [])) # lns, e)))"

text \<open>\<open>badprio\<close>: the text of the error for an unknown priority.\<close>

definition runSubmit ::
  "(string \<Rightarrow> string) \<Rightarrow> (nat \<Rightarrow> SubmitRequest \<Rightarrow> string + SubmitResponse) \<Rightarrow> submit_flags \<Rightarrow>
     SubmitRequest list \<times> string list \<times> string option"
where
  "runSubmit badprio client f =
     (case ParsePriority (sfPriority f) of
        Inl s \<Rightarrow> ([], [], Some (badprio s))
      | Inr p \<Rightarrow>
          if sfCount f < 1 then ([], [], Some ''--count must be at least 1'')
          else submit_loop client f p 0 (nat (sfCount f)))"

text \<open>
  A batch never collapses into one job: its requests carry different keys, unless none was
  asked for; and a job is printed for each request that was answered, up to the first error.
\<close>

lemma Itoa_inject: "Itoa (int m) = Itoa (int n) \<Longrightarrow> m = n"
proof -
  assume "Itoa (int m) = Itoa (int n)"
  then have "dec_digits m = dec_digits n" by (simp add: Itoa_def)
  from arg_cong [OF this, of "parse_digits 0"] show "m = n" by (simp only: parse_digits_dec option.inject)
qed

lemma submit_loop_keys:
  "submit_loop client f p i n = (reqs, lns, e) \<Longrightarrow>
     (\<exists>m \<le> n. map sqIdempotencyKey reqs = map (submit_key f) [i..<i + m] \<and>
       (if e = None then m = n \<and> length lns = n else m = Suc (length lns)))"
proof (induction n arbitrary: i reqs lns e)
  case (Suc n)
  let ?q = "submit_request f p i"
  have key: "sqIdempotencyKey ?q = submit_key f i" by (simp add: submit_request_def)
  show ?case
  proof (cases "client i ?q")
    case (Inl err)
    then have r: "reqs = [?q]" "lns = []" "e \<noteq> None" using Suc.prems by (auto simp: Let_def)
    have "map sqIdempotencyKey reqs = map (submit_key f) [i..<i + 1]" using r(1) key by simp
    then show ?thesis using r(2,3) by (intro exI [of _ 1]) simp
  next
    case (Inr resp)
    obtain rs ls e' where t: "submit_loop client f p (i + 1) n = (rs, ls, e')" by (rule prod_cases3)
    obtain m where m: "m \<le> n" "map sqIdempotencyKey rs = map (submit_key f) [i + 1..<i + 1 + m]"
      "if e' = None then m = n \<and> length ls = n else m = Suc (length ls)"
      using Suc.IH [OF t] by blast
    have r: "reqs = ?q # rs" "length lns = Suc (length ls)" "e = e'"
      using Suc.prems Inr t by auto
    have "[i..<i + Suc m] = i # [i + 1..<i + 1 + m]" using upt_conv_Cons [of i "i + Suc m"] by simp
    then have "map sqIdempotencyKey reqs = map (submit_key f) [i..<i + Suc m]" using r(1) m(2) key by simp
    moreover have "if e = None then Suc m = Suc n \<and> length lns = Suc n else Suc m = Suc (length lns)"
      using m(3) r(2,3) by (cases e) simp_all
    ultimately show ?thesis using m(1) by (intro exI [of _ "Suc m"]) simp
  qed
qed simp

lemma submit_batch_keys:
  assumes "runSubmit badprio client f = (reqs, lns, e)" and "sfIdempotencyKey f \<noteq> []"
  shows "distinct (map sqIdempotencyKey reqs)"
proof -
  have "reqs = [] \<or> (\<exists>p. sfCount f \<ge> 1 \<and> submit_loop client f p 0 (nat (sfCount f)) = (reqs, lns, e))"
    using assms(1) by (auto simp: runSubmit_def split: sum.splits if_splits)
  then show ?thesis
  proof
    assume "\<exists>p. sfCount f \<ge> 1 \<and> submit_loop client f p 0 (nat (sfCount f)) = (reqs, lns, e)"
    then obtain m where m: "m \<le> nat (sfCount f)" "map sqIdempotencyKey reqs = map (submit_key f) [0..<m]"
      using submit_loop_keys [of client f _ 0 "nat (sfCount f)" reqs lns e] by auto
    show ?thesis
    proof (cases "sfCount f > 1")
      case True
      then have "inj_on (submit_key f) (set [0..<m])"
        using assms(2) Itoa_inject by (auto simp: inj_on_def submit_key_def)
      then show ?thesis unfolding m(2) by (simp add: distinct_map)
    next
      case False
      then have "m \<le> 1" using m(1) by simp
      then show ?thesis unfolding m(2) by (cases m) auto
    qed
  qed simp
qed

section \<open>Reading the broker's counters\<close>

text \<open>\<open>ParseFloat\<close> reads a number, or fails; the numbers are any type.\<close>

definition parseMetricLine :: "(string \<Rightarrow> 'n option) \<Rightarrow> string \<Rightarrow> (string \<times> 'n) option" where
  "parseMetricLine ParseFloat ln =
     (if ln = [] \<or> prefix ''#'' ln then None
      else
        let name = takeWhile (\<lambda>c. c \<noteq> CHR '' '') ln
        in if CHR '' '' \<notin> set ln \<or> CHR ''{'' \<in> set name then None
           else case ParseFloat (TrimSpace (drop (length name + 1) ln)) of
                  None \<Rightarrow> None
                | Some v \<Rightarrow> Some (name, v))"

record 'n commitStats =
  commitCount :: 'n
  commitSeconds :: 'n
  batchSum :: 'n

definition scrape_line :: "(string \<Rightarrow> 'n option) \<Rightarrow> string \<Rightarrow> 'n commitStats \<Rightarrow> 'n commitStats" where
  "scrape_line ParseFloat ln stats =
     (case parseMetricLine ParseFloat ln of
        None \<Rightarrow> stats
      | Some (name, v) \<Rightarrow>
          if name = ''conveyor_wal_commits_total'' then stats\<lparr>commitCount := v\<rparr>
          else if name = ''conveyor_wal_commit_seconds_sum'' then stats\<lparr>commitSeconds := v\<rparr>
          else if name = ''conveyor_wal_commit_batch_records_sum'' then stats\<lparr>batchSum := v\<rparr>
          else stats)"

definition scrapeCommitStats :: "(string \<Rightarrow> 'n option) \<Rightarrow> 'n \<Rightarrow> string list \<Rightarrow> 'n commitStats" where
  "scrapeCommitStats ParseFloat zero lns =
     fold (scrape_line ParseFloat) lns \<lparr>commitCount = zero, commitSeconds = zero, batchSum = zero\<rparr>"

end
