(* ===== verification/Cv_Inspect.thy ===== *)
theory Cv_Inspect
  imports Cv_Cli Cv_Broker_Facts
begin

text \<open>
  The commands that look at the broker (\<^verbatim>\<open>get\<close>, \<^verbatim>\<open>status\<close>, \<^verbatim>\<open>dlq\<close>), the settings \<^verbatim>\<open>worker\<close> and
  \<^verbatim>\<open>bench\<close> start with, and what \<^verbatim>\<open>bench\<close> makes of its measurements.  Each command is the
  request it sends, here a call of its argument \<open>client\<close>, and what it prints.  Composed with
  the handlers of \<open>Cv_Server\<close>: the dead-letter list shows exactly the dead-lettered jobs, and
  each of them can be replayed.
\<close>

section \<open>Output\<close>

text \<open>A table, whose cells \<^verbatim>\<open>text/tabwriter\<close> aligns, or a line.\<close>

datatype shown = Table "string list list" | Line string

text \<open>
  The generated getters of a message that is missing read zero values.  \<open>local_time\<close> stands for
  \<^verbatim>\<open>time.UnixMilli(ms).Format(time.RFC3339)\<close>, which depends on the zone of the machine.
\<close>

definition zero_job_proto :: JobProto where
  "zero_job_proto =
     \<lparr>jpId = [], jpQueue = [], jpHandler = [], jpPayload = [], jpIdempotencyKey = [], jpPriority = 0, jpMaxRetries = 0,
      jpAttempt = 0, jpState = 0, jpEpoch = 0, jpEnqueuedAtUnixMs = 0, jpEligibleAtUnixMs = 0, jpLeaseExpiresAtUnixMs = 0,
      jpLeasedBy = [], jpLastError = []\<rparr>"

definition got :: "JobProto option \<Rightarrow> JobProto" where
  "got j = (case j of None \<Rightarrow> zero_job_proto | Some p \<Rightarrow> p)"

section \<open>Looking up\<close>

definition get_rows :: "(int \<Rightarrow> string) \<Rightarrow> JobProto \<Rightarrow> string list list" where
  "get_rows local_time j =
     [[''id'', jpId j], [''queue'', jpQueue j], [''state'', displayState (jpState j)], [''handler'', jpHandler j],
      [''priority'', displayPriority (jpPriority j)],
      [''attempt'', Itoa (jpAttempt j) @ '' of '' @ Itoa (jpMaxRetries j)],
      [''epoch'', Itoa (uint (jpEpoch j))],
      [''enqueued'', local_time (jpEnqueuedAtUnixMs j)], [''eligible'', local_time (jpEligibleAtUnixMs j)]] @
     (if jpIdempotencyKey j \<noteq> [] then [[''idempotency-key'', jpIdempotencyKey j]] else []) @
     (if jpLastError j \<noteq> [] then [[''last-error'', jpLastError j]] else []) @
     (if jpPayload j \<noteq> [] then [[''payload'', of_bytes (jpPayload j)]] else [])"

definition runGet ::
  "(int \<Rightarrow> string) \<Rightarrow> (string \<Rightarrow> string + bool \<times> JobProto option) \<Rightarrow> string \<Rightarrow> string + shown list"
where
  "runGet local_time client jobId =
     (case client jobId of
        Inl err \<Rightarrow> Inl (''get: '' @ err)
      | Inr (found, j) \<Rightarrow>
          if \<not> found then Inl (''job '' @ jobId @ '' not found'')
          else Inr [Table (get_rows local_time (got j))])"

definition runStatus :: "(string \<Rightarrow> string + StatsResponse) \<Rightarrow> string \<Rightarrow> string + shown list" where
  "runStatus client queue =
     (case client queue of
        Inl err \<Rightarrow> Inl (''stats: '' @ err)
      | Inr resp \<Rightarrow>
          if spQueues resp = [] then Inr [Line ''no jobs'']
          else Inr
            [Table ([''QUEUE'', ''PENDING'', ''LEASED'', ''RETRY'', ''DONE'', ''DEAD''] #
               map (\<lambda>q. [qsQueue q, Itoa (qsPending q), Itoa (qsLeased q), Itoa (qsRetryWait q), Itoa (qsDone q),
                         Itoa (qsDeadLetter q)]) (spQueues resp)),
             Line [], Line (''total jobs: '' @ Itoa (spTotalJobs resp)),
             Line (''last durable LSN: '' @ Itoa (int (spLastLsn resp)))])"

section \<open>Dead letters\<close>

definition runDLQList ::
  "(int \<Rightarrow> string) \<Rightarrow> (string \<Rightarrow> int \<Rightarrow> int \<Rightarrow> string + JobProto option list) \<Rightarrow> string \<Rightarrow> int \<Rightarrow> string + shown list"
where
  "runDLQList local_time client queue limit =
     (case client queue JOB_STATE_DEAD_LETTER (wrap32 limit) of
        Inl err \<Rightarrow> Inl (''list dead-lettered jobs: '' @ err)
      | Inr js \<Rightarrow>
          if js = [] then Inr [Line ''dead-letter queue is empty'']
          else Inr
            [Table ([''JOB ID'', ''QUEUE'', ''ATTEMPTS'', ''FAILED AT'', ''LAST ERROR''] #
               map (\<lambda>j. let p = got j
                         in [jpId p, jpQueue p, Itoa (jpAttempt p), local_time (jpEligibleAtUnixMs p),
                             truncateError (jpLastError p)]) js),
             Line [],
             Line (Itoa (int (length js)) @ '' dead-lettered job(s). Replay one with: conveyor dlq replay <job-id>'')])"

definition runDLQReplay :: "(string \<Rightarrow> string + bool) \<Rightarrow> string \<Rightarrow> string + shown list" where
  "runDLQReplay client jobId =
     (case client jobId of
        Inl err \<Rightarrow> Inl (''replay job: '' @ err)
      | Inr _ \<Rightarrow> Inr [Line (jobId @ '' requeued with a fresh retry budget'')])"

section \<open>Commands over the broker's handlers\<close>

text \<open>A job that was looked up is shown under the names of its state and priority.\<close>

lemma runGet_shows:
  assumes "jobs s x = Some j"
  shows "\<exists>rows. runGet local_time (\<lambda>i. Inr (Server_Get i s)) x = Inr [Table rows] \<and>
    {[''id'', ID j], [''queue'', Queue j], [''state'', State_String (State j)], [''priority'', Priority_String (Priority j)]}
      \<subseteq> set rows"
  using assms
  by (simp add: runGet_def Server_Get_def Get_def Clone_def jobToProto_def got_def get_rows_def Let_def
      displayState_names displayPriority_names)

lemma runGet_missing:
  "jobs s x = None \<Longrightarrow> runGet local_time (\<lambda>i. Inr (Server_Get i s)) x = Inl (''job '' @ x @ '' not found'')"
  by (simp add: runGet_def Server_Get_def Get_def)

text \<open>The jobs on the dead-letter list.\<close>

definition dead_letters :: "string \<Rightarrow> int \<Rightarrow> string list \<Rightarrow> store \<Rightarrow> job list" where
  "dead_letters queue limit ids s = ListJobs queue StateDeadLetter (wrap32 limit) ids s"

lemma runDLQList_rows:
  assumes "dead_letters queue limit ids s \<noteq> []"
  shows "\<exists>header rows foot. runDLQList local_time (\<lambda>q st n. Inr (Server_ListJobs q st n ids s)) queue limit =
      Inr (Table (header # rows) # foot) \<and> map hd rows = map ID (dead_letters queue limit ids s)"
proof -
  have "stateFromProto JOB_STATE_DEAD_LETTER = StateDeadLetter" by code_simp
  then show ?thesis
    using assms by (simp add: runDLQList_def Server_ListJobs_def dead_letters_def jobToProto_def got_def Let_def comp_def)
qed

lemma runDLQList_none:
  "dead_letters queue limit ids s = [] \<Longrightarrow>
     runDLQList local_time (\<lambda>q st n. Inr (Server_ListJobs q st n ids s)) queue limit = Inr [Line ''dead-letter queue is empty'']"
proof -
  have "stateFromProto JOB_STATE_DEAD_LETTER = StateDeadLetter" by code_simp
  then show "dead_letters queue limit ids s = [] \<Longrightarrow> ?thesis"
    by (simp add: runDLQList_def Server_ListJobs_def dead_letters_def)
qed

text \<open>Whatever is listed is in the store, dead-lettered, and of the queue asked for; without a limit, all of them are.\<close>

lemma dead_letters_sound:
  assumes "store_ok s" and "set ids = dom (jobs s)" and "j \<in> set (dead_letters queue limit ids s)"
  shows "jobs s (ID j) = Some j" and "State j = StateDeadLetter" and "queue = [] \<or> Queue j = queue"
proof -
  have "j \<in> set (List.map_filter (jobs s) ids) \<and> State j = StateDeadLetter \<and> (queue = [] \<or> Queue j = queue)"
    using assms(3) by (auto simp: dead_letters_def ListJobs_def Let_def dest: in_set_takeD split: if_splits)
  then show "jobs s (ID j) = Some j" "State j = StateDeadLetter" "queue = [] \<or> Queue j = queue"
    using stored_jobs [OF assms(1,2)] by auto
qed

lemma dead_letters_complete:
  assumes "store_ok s" and "set ids = dom (jobs s)" and "jobs s x = Some j" and "State j = StateDeadLetter" and "queue = [] \<or> Queue j = queue"
  shows "j \<in> set (dead_letters queue 0 ids s)"
proof -
  have "j \<in> set (List.map_filter (jobs s) ids)"
    using stored_jobs [OF assms(1,2)] assms(3) store_ok_ID [OF assms(1,3)] by auto
  then show ?thesis using assms(4,5) by (simp add: dead_letters_def ListJobs_def wrap32_def Let_def)
qed

text \<open>
  Each job on the list can be replayed: the broker refuses only when it cannot write, and
  otherwise the job runs again, with all its retries.
\<close>

lemma replay_dead_letter:
  assumes j: "jobs s x = Some j" "State j = StateDeadLetter" and lost: "lost_only s"
    and r: "Server_ReplayJob x now s os = (r, s', os')"
  shows "case r of
      Inl (c, e) \<Rightarrow> c = CodeInternal
    | Inr _ \<Rightarrow> \<exists>k. jobs s' x = Some k \<and> State k = StatePending \<and> Attempt k = 0 \<and> EligibleAt k = now"
proof -
  let ?e = "zero_event\<lparr>evType := eventReplayJob, evJobID := x, evEligibleAt := now\<rparr>"
  obtain q where q: "ReplayJob x now s os = (q, s', os')"
    "r = (case q of Inr _ \<Rightarrow> Inr True | Inl e \<Rightarrow> Inl (if e = ErrJobNotFound then CodeNotFound
            else if e = ErrNotDeadLettered then CodeFailedPrecondition else CodeInternal, e))"
    using r by (auto simp: Server_ReplayJob_def split: prod.splits sum.splits unit.splits)
  obtain x1 s1 os1 where rec: "recordLocked s os ?e = (x1, s1, os1)" by (rule prod_cases3)
  show ?thesis
  proof (cases x1)
    case (Some y)
    then have "q = Inl y" using q(1) rec j by (simp add: ReplayJob_def ReplayJob_locked_def run_commit_def Let_def)
    then show ?thesis using q(2) recordLocked_error_kind [OF rec [unfolded Some] lost] by simp
  next
    case None
    obtain t w lsn where t: "store_apply s ?e = Inr t" "s1 = t\<lparr>log := w, lastLSN := lsn\<rparr>"
      using rec unfolding None by (rule recordLocked_done)
    have js: "jobs s1 = (jobs s)(x \<mapsto> apply_replay ?e j)" using t j by (auto simp: store_apply_def Let_def)
    have "failed s1 = failed s" using t by (auto dest: store_apply_frame)
    let ?s = "s1\<lparr>index := index_push (index s1) (apply_replay ?e j) now\<rparr>"
    have c: "run_commit (Flush (), ?s, os1) = (q, s', os')"
      using q(1) rec None j by (simp add: ReplayJob_def ReplayJob_locked_def Let_def)
    show ?thesis
    proof (cases q)
      case (Inl y)
      then have "y \<noteq> ErrJobNotFound \<and> y \<noteq> ErrNotDeadLettered"
        using c lost_onlyD [OF lost] \<open>failed s1 = failed s\<close>
        by (auto simp: run_commit_def commitDurable_def Let_def split: prod.splits option.splits)
      then show ?thesis using q(2) Inl by simp
    next
      case (Inr u)
      have "jobs s' = jobs ?s" using run_commit_result(1) [OF c] .
      then show ?thesis using q(2) Inr js by (simp add: apply_replay_def)
    qed
  qed
qed

text \<open>
  C25. What \<^verbatim>\<open>dlq list\<close> shows is right and can be acted on: its rows are the ids of the
  dead-lettered jobs of the queue asked for, all of them when there is no limit, and
  replaying any of them either makes the job pending again at once, with all its attempts
  given back, or fails with an internal error because the broker cannot write.
\<close>

theorem dead_letters_replayable:
  assumes "store_ok s" and "lost_only s" and "set ids = dom (jobs s)"
  shows "runDLQList local_time (\<lambda>q st n. Inr (Server_ListJobs q st n ids s)) queue limit = Inr out \<Longrightarrow>
      (case out of Table (header # rows) # foot \<Rightarrow> map hd rows = map ID (dead_letters queue limit ids s)
         | _ \<Rightarrow> dead_letters queue limit ids s = []) \<and>
      (\<forall>j. j \<in> set (dead_letters queue 0 ids s) \<longleftrightarrow>
         jobs s (ID j) = Some j \<and> State j = StateDeadLetter \<and> (queue = [] \<or> Queue j = queue)) \<and>
      (\<forall>j \<in> set (dead_letters queue limit ids s).
         jobs s (ID j) = Some j \<and> State j = StateDeadLetter \<and>
         (case Server_ReplayJob (ID j) now s os of
            (Inl (c, e), s', os') \<Rightarrow> c = CodeInternal
          | (Inr b, s', os') \<Rightarrow> \<exists>k. jobs s' (ID j) = Some k \<and> State k = StatePending \<and> Attempt k = 0 \<and> EligibleAt k = now))"
    (is "?run \<Longrightarrow> ?rows \<and> ?all \<and> (\<forall>j \<in> _. ?ok j)")
proof -
  assume out: ?run
  have rows: ?rows
  proof (cases "dead_letters queue limit ids s = []")
    case True
    then have "out = [Line ''dead-letter queue is empty'']" using out runDLQList_none by simp
    then show ?thesis using True by simp
  next
    case False
    from runDLQList_rows [OF False, of local_time] show ?thesis using out by auto
  qed
  have all: ?all
    using dead_letters_sound [OF assms(1,3), of _ queue 0] dead_letters_complete [OF assms(1,3), of _ _ queue] by blast
  have ok: "?ok j" if "j \<in> set (dead_letters queue limit ids s)" for j
  proof -
    note j = dead_letters_sound(1,2) [OF assms(1,3) that]
    obtain r s' os' where r: "Server_ReplayJob (ID j) now s os = (r, s', os')" by (rule prod_cases3)
    then show ?thesis using replay_dead_letter [OF j assms(2) r] j by (auto split: sum.splits)
  qed
  show "?rows \<and> ?all \<and> (\<forall>j \<in> set (dead_letters queue limit ids s). ?ok j)"
    by (rule conjI [OF rows conjI [OF all ballI [OF ok]]])
qed

text \<open>The failed job of the example, had it no retries left.\<close>

definition dead_store :: store where
  "dead_store = failed_store\<lparr>jobs := [demo_id \<mapsto> demo_failed\<lparr>State := StateDeadLetter\<rparr>], index := newScheduleIndex\<rparr>"

lemma dead_store_ok: "store_ok dead_store" "lost_only dead_store"
proof -
  have ok: "store_ok failed_store"
    using sys_steps_running [OF ok_steps_sys [OF failed_ok_steps] leased_running] by (simp add: running_def live_def)
  have js: "jobs failed_store = [demo_id \<mapsto> demo_failed]" "leased failed_store = {}" by (simp_all add: failed_store_def)
  then have "jobs failed_store demo_id = Some demo_failed" by simp
  then have "ID demo_failed = demo_id" "Epoch demo_failed < nextEpoch failed_store"
    using ok unfolding store_ok_def jobs_ok_def epochs_ok_def by blast+
  moreover have "idem_ok dead_store" using ok js by (auto simp: store_ok_def idem_ok_def dead_store_def split: if_splits)
  ultimately show "store_ok dead_store"
    using ok js by (auto simp: store_ok_def jobs_ok_def epochs_ok_def scheduled_def dead_store_def index_ok_new Leasable_def
        split: if_splits)
  show "lost_only dead_store" by (simp add: lost_only_def dead_store_def failed_store_def leased_store_def)
qed

theorem dead_letters_replayable_witness:
  "\<exists>header rows foot. runDLQList (\<lambda>_. ''now'') (\<lambda>q st n. Inr (Server_ListJobs q st n [demo_id] dead_store)) [] 50 =
     Inr (Table (header # rows) # foot) \<and> map hd rows = [demo_id]"
proof -
  have i: "set [demo_id] = dom (jobs dead_store)" by (simp add: dead_store_def)
  have d: "dead_letters [] n [demo_id] dead_store = [demo_failed\<lparr>State := StateDeadLetter\<rparr>]" for n
    by (simp add: dead_letters_def ListJobs_def dead_store_def List.map_filter_simps Let_def)
  have id: "ID demo_failed = demo_id" using store_ok_ID [OF dead_store_ok(1), of demo_id] by (simp add: dead_store_def)
  obtain h rows foot where r: "runDLQList (\<lambda>_. ''now'') (\<lambda>q st n. Inr (Server_ListJobs q st n [demo_id] dead_store)) [] 50 =
      Inr (Table (h # rows) # foot)"
    using runDLQList_rows [of "[]" 50 "[demo_id]" dead_store "\<lambda>_. ''now''"] d by auto
  from dead_letters_replayable [OF dead_store_ok i r] have "map hd rows = [demo_id]" using d id by simp
  with r show ?thesis by (intro exI conjI)
qed

section \<open>A worker's name\<close>

text \<open>
  \<^verbatim>\<open>worker\<close> takes the first twelve digits of a fresh job id when it is given no name: the time
  alone, in steps of 65536 nanoseconds, so two workers started within one step share their name.
\<close>

definition worker_name :: "string \<Rightarrow> int \<Rightarrow> bytes option \<Rightarrow> string option" where
  "worker_name flag nano rnd = (if flag = [] then map_option (take 12) (NewID nano rnd) else Some flag)"

lemma worker_name_time:
  assumes "length x = 8" and "length y = 8" and "0 \<le> t" and "0 \<le> u" and "t div 65536 = u div 65536"
  shows "worker_name [] t (Some x) = worker_name [] u (Some y)"
proof -
  have "take k (be_bytes (Suc (Suc k)) n) = be_bytes k (n div 65536)" for k n
  proof -
    have "n div 256 div 256 = n div 65536" by (simp add: div_mult2_eq [symmetric])
    then show ?thesis by simp
  qed
  moreover have "be_bytes 8 n = be_bytes (Suc (Suc 6)) n" for n by simp
  ultimately have six: "take 6 (be_bytes 8 n) = be_bytes 6 (n div 65536)" for n by (simp only:)
  have cut: "take 12 (EncodeToString (bs @ cs)) = EncodeToString (take 6 bs)" if "6 \<le> length bs" for bs cs
  proof -
    have "take (2 * n) (EncodeToString (bs @ cs)) = EncodeToString (take n bs)" if "n \<le> length bs" for n
      using that
    proof (induction n arbitrary: bs)
      case (Suc n)
      then obtain b bs' where "bs = b # bs'" by (cases bs) auto
      then show ?case using Suc by (simp add: EncodeToString_def hex_byte_def)
    qed (simp add: EncodeToString_def)
    from this [of 6] that show ?thesis by simp
  qed
  have "nat (t mod 2 ^ 64) div 65536 = nat (u mod 2 ^ 64) div 65536"
  proof -
    have "(v mod 2 ^ 64) div 65536 = (v div 65536) mod 2 ^ 48" for v :: int
      by (simp add: zmod_zmult2_eq [of "2 ^ 48" v 65536, simplified])
    then have "(t mod 2 ^ 64) div 65536 = (u mod 2 ^ 64) div 65536" using assms(5) by (simp only:)
    then show ?thesis
      using nat_div_distrib [of "t mod 2 ^ 64" 65536] nat_div_distrib [of "u mod 2 ^ 64" 65536] by simp
  qed
  then show ?thesis using cut [of "be_bytes 8 _"] six by (simp add: worker_name_def NewID_def)
qed

section \<open>Bench\<close>

text \<open>
  How \<^verbatim>\<open>bench\<close> starts: an error, a panic of the standard library, or the payload and the
  ticker's interval.  What lies between, reading the counters and setting the deadline, is left out.
\<close>

datatype bench_start = Refused string | Panics string | Started string "duration option"

definition runBench_start :: "int \<Rightarrow> duration \<Rightarrow> int \<Rightarrow> int \<Rightarrow> bench_start" where
  "runBench_start concurrency dur rate payloadSize =
     (if concurrency < 1 then Refused ''--concurrency must be at least 1''
      else if dur \<le> 0 then Refused ''--duration must be positive''
      else if payloadSize < 0 then Panics ''strings: negative Repeat count''
      else
        let payload = replicate (nat payloadSize) (CHR ''x'')
        in if rate > 0 then
             if quot Second rate \<le> 0 then Panics ''non-positive interval for NewTicker''
             else Started payload (Some (quot Second rate))
           else Started payload None)"

definition Microsecond :: duration where "Microsecond = 1000"

text \<open>\<^verbatim>\<open>Duration.Round\<close>: to the nearest multiple, halves away from zero, saturating.\<close>

definition Duration_Round :: "duration \<Rightarrow> duration \<Rightarrow> duration" where
  "Duration_Round d m =
     (if m \<le> 0 then d
      else if d < 0 then
        let r = (- d) mod m
        in if r + r < m then d + r
           else if wrap64 (d - m + r) < d then wrap64 (d - m + r) else - (2 ^ 63)
      else
        let r = d mod m
        in if r + r < m then d - r
           else if wrap64 (d + m - r) > d then wrap64 (d + m - r) else 2 ^ 63 - 1)"

definition bench_round :: "duration \<Rightarrow> duration" where
  "bench_round d = (if d \<ge> Millisecond then Duration_Round d (10 * Microsecond) else Duration_Round d Microsecond)"

text \<open>\<open>scale n\<close>: the floating-point product of the fraction and \<open>n\<close>, cut to an integer.\<close>

definition percentile :: "(nat \<Rightarrow> nat) \<Rightarrow> duration list \<Rightarrow> duration" where
  "percentile scale xs =
     (if xs = [] then 0
      else let i = scale (length xs) in xs ! (if i \<ge> length xs then length xs - 1 else i))"

text \<open>The successful latencies in ascending order, and the number of failures.\<close>

definition bench_latencies :: "(duration \<times> string option) list \<Rightarrow> duration list \<times> nat" where
  "bench_latencies results =
     (sort (map fst (filter (\<lambda>r. snd r = None) results)), length (filter (\<lambda>r. snd r \<noteq> None) results))"

definition latency_line :: "(nat \<Rightarrow> nat) \<Rightarrow> (nat \<Rightarrow> nat) \<Rightarrow> (nat \<Rightarrow> nat) \<Rightarrow> duration list \<Rightarrow> duration list" where
  "latency_line p50 p95 p99 xs =
     [bench_round (percentile p50 xs), bench_round (percentile p95 xs), bench_round (percentile p99 xs),
      bench_round (xs ! (length xs - 1))]"

text \<open>Rounding moves a latency by at most half a unit, and keeps their order as far as it is printed.\<close>

lemma Duration_Round_nearest:
  assumes "0 \<le> d" and "0 < m" and "d + m < 2 ^ 63"
  shows "2 * \<bar>Duration_Round d m - d\<bar> \<le> m" and "m dvd Duration_Round d m"
proof -
  have r: "0 \<le> d mod m" "d mod m < m" using assms(2) by simp_all
  have w: "wrap64 (d + m - d mod m) = d + m - d mod m" using assms r by (intro wrap64_id) (simp add: int64_ok_def)
  have q: "d - d mod m = m * (d div m)" using mult_div_mod_eq [of m d] by linarith
  show "2 * \<bar>Duration_Round d m - d\<bar> \<le> m" using assms r w by (simp add: Duration_Round_def Let_def)
  have "d + m - d mod m = m * (d div m + 1)" using q by (simp add: algebra_simps)
  then show "m dvd Duration_Round d m" using assms r w q by (simp add: Duration_Round_def Let_def)
qed

text \<open>A percentile is one of the measurements, and the later one is not the smaller one.\<close>

lemma percentile_in: "xs \<noteq> [] \<Longrightarrow> percentile scale xs \<in> set xs"
  by (simp add: percentile_def Let_def)

lemma percentile_mono:
  "sorted xs \<Longrightarrow> f (length xs) \<le> g (length xs) \<Longrightarrow> percentile f xs \<le> percentile g xs"
  by (auto simp: percentile_def Let_def intro!: sorted_nth_mono)

lemma bench_latencies_counts:
  "bench_latencies results = (xs, n) \<Longrightarrow>
     sorted xs \<and> length xs + n = length results \<and> (\<forall>p. xs \<noteq> [] \<longrightarrow> percentile p xs \<le> xs ! (length xs - 1))"
proof -
  assume b: "bench_latencies results = (xs, n)"
  have "length xs + n = length results"
    using b sum_length_filter_compl [of "\<lambda>r. snd r = None" results] by (auto simp: bench_latencies_def)
  moreover have "sorted xs" using b by (auto simp: bench_latencies_def)
  moreover from this have "percentile p xs \<le> xs ! (length xs - 1)" if "xs \<noteq> []" for p
    using that by (auto simp: percentile_def Let_def intro!: sorted_nth_mono)
  ultimately show ?thesis by blast
qed

end
