(* ===== verification/Spec2Isabelle.thy ===== *)
theory Spec2Isabelle
  imports Cv_Store_Facts Cv_Log_Facts Cv_Base_Facts Cv_Commit Cv_Worker_Facts Cv_Inspect
begin

text \<open>
Conveyor, a durable job queue written in Go: the broker, its storage, its workers and its
  command line.

  The program.  Producers submit jobs to named queues; workers hold a streaming RPC open and
  are leased jobs, one fencing token (epoch) per lease; they report each job done or failed,
  or lose it when the lease expires.  All of it survives crashes: a change of the broker's
  memory is one record of a write-ahead log, and a request that changes something is answered
  when its record was flushed.  \<^verbatim>\<open>internal/broker/store.go\<close> keeps jobs, idempotency
  keys, leases and a schedule index in memory and appends the records;
  \<^verbatim>\<open>internal/wal\<close> is the log; \<^verbatim>\<open>internal/broker/commit.go\<close> shares one flush
  among all who wait for one; \<^verbatim>\<open>dispatcher.go\<close> hands ready jobs to workers with room and
  takes expired leases back; \<^verbatim>\<open>server.go\<close> is the RPC surface;
  \<^verbatim>\<open>internal/worker\<close> and \<^verbatim>\<open>internal/handler\<close> run the jobs.

  The theories, each importing those it builds on.
  \<^item> \<open>Cv_Prelude\<close>: integers of 32 and 64 bits that wrap around, trimming and lowering of strings,
    decimal numbers, generic lemmas.  \<open>Cv_Job\<close>: the job record, states and priorities, \<^verbatim>\<open>NewID\<close>,
    \<^verbatim>\<open>Backoff\<close> (\<^verbatim>\<open>internal/job\<close>).  \<open>Cv_Heap\<close>, \<open>Cv_Index\<close>: \<^verbatim>\<open>container/heap\<close> as arrays with its
    contract as a locale, and the schedule index (\<^verbatim>\<open>index.go\<close>), refined to a multiset of
    entries per queue.
  \<^item> \<open>Cv_Disk\<close>: files and directories, whose unflushed parts a crash may lose, with a list of
    faults to come (failing calls, short writes).  \<open>Cv_Frame\<close>: record frames and CRC-32C;
    \<open>Cv_Wal\<close>: all operations of \<^verbatim>\<open>wal.go\<close>; \<open>Cv_Wal_Props\<close>, \<open>Cv_Log\<close>: the log as a list of
    records, a flushed prefix and a first sequence number, the contract of the log as a
    locale and its interpretation; \<open>Cv_Log_Facts\<close>: its properties.
  \<^item> \<open>Cv_Json\<close>, \<open>Cv_Text\<close>, \<open>Cv_Event\<close>: the text of records and snapshots, and its decoder
    (\<^verbatim>\<open>event.go\<close>, the struct tags of \<^verbatim>\<open>job.go\<close>).
  \<^item> \<open>Cv_Store\<close>: the store's operations; each is its locked section, then a flush, then an
    answer.  \<open>Cv_Recover\<close>: snapshots, replay and \<^verbatim>\<open>Open\<close>.  \<open>Cv_Store_Inv\<close>, \<open>Cv_Store_Steps\<close>: the
    invariant and the outcomes of every operation; \<open>Cv_Memory\<close>: what a record does to the
    memory, as a function; \<open>Cv_Lifecycle\<close>: the step relation of a store that serves
    interleaved requests, and the life cycle of a job.
  \<^item> \<open>Cv_Scope\<close>, \<open>Cv_Durable\<close>, \<open>Cv_Reopen\<close>, \<open>Cv_Snapshot\<close>, \<open>Cv_System\<close>: which texts and times can be
    written, the relation between memory, log and disk, and runs with snapshots, crashes and
    recoveries.
  \<^item> \<open>Cv_Commit\<close>: callers and the flush loop of \<^verbatim>\<open>commit.go\<close> as interleaved steps over the log.
  \<^item> \<open>Cv_Dispatch\<close>, \<open>Cv_Server\<close>, \<open>Cv_Broker\<close>, \<open>Cv_Broker_Facts\<close>: streams and slots, the handlers, the
    broker as one step relation that refines the store's, and its properties.
  \<^item> \<open>Cv_Worker\<close>, \<open>Cv_Worker_Facts\<close>: handlers, the run of one job and its report.  \<open>Cv_Cli\<close>,
    \<open>Cv_Inspect\<close>: what the command line sends, computes and prints.
  \<^item> \<open>Cv_Demo\<close>, \<open>Cv_Store_Demo\<close>, \<open>Cv_Retry_Demo\<close>: a small log and a job that is submitted, leased,
    acknowledged, failed, leased again and reclaimed, on which the theorems are tried.
    \<open>Cv_Base_Facts\<close>, \<open>Cv_Store_Facts\<close> and this theory hold the remaining properties.

  What the lemmas show.  The log: after any crash it opens again and replays a prefix with
  every flushed record; a torn segment reads as its complete records; truncation loses
  nothing it should keep.  The store: the invariant under every interleaving; which job a lease
  picks; fencing; the bound on deliveries; what recovery restores; that no acknowledged
  submission or completion is lost; that a store which lost its durability refuses
  everything.  The committer: nobody is answered before the flush that covers its records,
  and nobody waits for ever.  The broker: exact slot counts, no due job left while a worker
  has room, stale tokens refused on the wire, and dead letters that can be listed and replayed.  The
  worker: one report that settles the job or changes nothing, and a stable key over redeliveries.

  Conventions.  Mutexes are the atomicity of the definitions: a locked section is one
  function.  Time, random bytes, the order in which maps are visited, and the outside world of a
  handler are arguments.  Times and durations are integers of nanoseconds; those computed by
  \<^verbatim>\<open>Backoff\<close> and from milliseconds on the wire wrap around as in the source, other sums of
  times do not.  Sequence numbers are natural numbers, tokens 64-bit words; theorems about leases
  assume that the tokens are not exhausted (\<open>in_range\<close>, \<open>lasting\<close>).  Every function is total:
  no fuel is used, except for the nesting depth of the JSON parser, which gets the length of its input.
  Errors are values of \<open>wal_error\<close>, \<open>store_error\<close> and the RPC codes; a panic is one of them.

  Limits.  The removal of a file is durable at once, and a crash keeps some prefix of what was
  written to each file since its last flush.  Runs with crashes consist of requests that
  succeed, take their snapshots when nothing is left to flush, and recover on a disk without faults;
  the failing cases are covered by the theorems on single operations.  A handler that accepts
  a report releases the worker's slot in the same step, although the source locks the
  dispatcher a moment later.

  Not modelled: metrics (\<^verbatim>\<open>internal/metrics\<close>, and the gauges the dispatcher refreshes), logging,
  HTTP and process wiring (\<^verbatim>\<open>http.go\<close>, \<^verbatim>\<open>main.go\<close>, the start and stop of the broker and
  worker commands), the generated protocol code (\<^verbatim>\<open>internal/genproto\<close>), flag parsing and
  the alignment of tables, and the load generator of \<^verbatim>\<open>bench\<close> with its floating-point rates: they
  compute nothing the rest relies on.  Contexts and timers appear as what they let happen.
\<close>

section \<open>What an acknowledgement promises\<close>













section \<open>The write-ahead log\<close>



end
